(* ===== verification/Prelude.thy ===== *)
theory Prelude
  imports Main "HOL-Library.Word" "HOL-Library.Multiset"
begin

text \<open>
  Shared vocabulary of the development: the named theorem collections, the
  type synonyms for the JavaScript values the bundle computes with, and the
  generic facts on lists, options and association lists that the component
  theories use.

  A JavaScript string is a \<^typ>\<open>string\<close>, its characters read as the bytes of
  its UTF-8 form. The code that cuts strings by position (\<open>substring\<close>,
  \<open>slice\<close>, \<open>charAt\<close>) does so on identifiers, URL paths and path prefixes,
  where bytes and UTF-16 code units coincide.
\<close>

named_theorems js_simps \<open>evaluation of the small JavaScript library functions\<close>
named_theorems js_defs \<open>definitions that a witness unfolds\<close>

section \<open>Truthiness and nullish values\<close>

text \<open>A string is falsy exactly when it is empty; an absent value is
  \<^const>\<open>None\<close>. \<open>e && f\<close> on an optional string is the test \<open>truthy_opt\<close>.\<close>

definition truthy_str :: "string \<Rightarrow> bool" where
  "truthy_str s \<longleftrightarrow> s \<noteq> []"

definition truthy_opt :: "string option \<Rightarrow> bool" where
  "truthy_opt v \<longleftrightarrow> (case v of None \<Rightarrow> False | Some s \<Rightarrow> truthy_str s)"

text \<open>The operator \<open>a ?? b\<close>.\<close>

definition nullish :: "'a option \<Rightarrow> 'a \<Rightarrow> 'a" where
  "nullish a b = (case a of None \<Rightarrow> b | Some v \<Rightarrow> v)"

lemma nullish_simps [simp, js_simps]: "nullish None b = b" "nullish (Some v) b = v"
  by (simp_all add: nullish_def)

lemma truthy_opt_simps [simp, js_simps]:
  "truthy_opt None = False" "truthy_opt (Some s) = (s \<noteq> [])"
  by (simp_all add: truthy_opt_def truthy_str_def)

section \<open>String operations of the language\<close>

definition starts_with :: "string \<Rightarrow> string \<Rightarrow> bool" where
  "starts_with s p \<longleftrightarrow> take (length p) s = p"

definition ends_with :: "string \<Rightarrow> string \<Rightarrow> bool" where
  "ends_with s p \<longleftrightarrow> length p \<le> length s \<and> drop (length s - length p) s = p"

text \<open>\<open>s.split(sep)\<close> for a one-character separator and \<open>xs.join(sep)\<close>.\<close>

fun split_on :: "char \<Rightarrow> string \<Rightarrow> string list" where
  "split_on c [] = [[]]"
| "split_on c (x # xs) =
     (if x = c then [] # split_on c xs
      else (case split_on c xs of [] \<Rightarrow> [[x]] | y # ys \<Rightarrow> (x # y) # ys))"

fun join_with :: "string \<Rightarrow> string list \<Rightarrow> string" where
  "join_with s [] = []"
| "join_with s [x] = x"
| "join_with s (x # y # ys) = x @ s @ join_with s (y # ys)"

lemma split_on_not_Nil [simp]: "split_on c s \<noteq> []"
  by (induction s) (auto split: list.splits)

lemma split_on_length [simp]: "0 < length (split_on c s)"
  by simp

lemma split_on_Cons_neq:
  assumes "x \<noteq> c"
  shows "split_on c (x # xs) = (x # hd (split_on c xs)) # tl (split_on c xs)"
  using assms by (cases "split_on c xs") simp_all

lemma split_on_no_sep: "c \<notin> set s \<Longrightarrow> split_on c s = [s]"
  by (induction s) auto

lemma split_on_mem_no_sep: "p \<in> set (split_on c s) \<Longrightarrow> c \<notin> set p"
proof (induction s arbitrary: p)
  case Nil
  then show ?case by simp
next
  case (Cons x s)
  then show ?case by (cases "split_on c s") (auto split: if_splits)
qed

lemma split_on_append:
  "split_on c (s @ c # t) = split_on c s @ split_on c t"
proof (induction s)
  case Nil
  then show ?case by simp
next
  case (Cons x s)
  then show ?case by (cases "split_on c s") auto
qed

lemma split_on_append_no_sep:
  assumes "c \<notin> set s"
  shows "split_on c (s @ t) = (s @ hd (split_on c t)) # tl (split_on c t)"
  using assms
proof (induction s)
  case Nil
  then show ?case by (cases "split_on c t") simp_all
next
  case (Cons x s)
  then show ?case by auto
qed

lemma join_with_Cons:
  "ys \<noteq> [] \<Longrightarrow> join_with s (x # ys) = x @ s @ join_with s ys"
  by (cases ys) auto

text \<open>Splitting and joining are inverse to each other.\<close>

lemma join_split: "join_with [c] (split_on c s) = s"
proof (induction s)
  case Nil
  then show ?case by simp
next
  case (Cons x s)
  obtain y ys where sp: "split_on c s = y # ys"
    by (cases "split_on c s") auto
  with Cons show ?case
    by (cases ys) auto
qed

lemma split_join:
  assumes "xs \<noteq> []" and "\<forall>x \<in> set xs. c \<notin> set x"
  shows "split_on c (join_with [c] xs) = xs"
  using assms
proof (induction xs rule: list_nonempty_induct)
  case (single x)
  then show ?case by (simp add: split_on_no_sep)
next
  case (cons x xs)
  then show ?case
    by (simp add: join_with_Cons split_on_append split_on_no_sep)
qed

lemma starts_with_append [simp]: "starts_with (p @ s) p"
  by (simp add: starts_with_def)

lemma starts_with_Cons [simp]:
  "starts_with (x # xs) (y # ys) \<longleftrightarrow> x = y \<and> starts_with xs ys"
  by (auto simp: starts_with_def)

lemma starts_with_Nil [simp]: "starts_with s []" "starts_with [] (y # ys) = False"
  by (auto simp: starts_with_def)

lemma starts_with_iff: "starts_with s p \<longleftrightarrow> (\<exists>t. s = p @ t)"
  by (metis append_eq_conv_conj append_take_drop_id starts_with_def)

lemma ends_with_iff: "ends_with s p \<longleftrightarrow> (\<exists>t. s = t @ p)"
proof
  assume "ends_with s p"
  then show "\<exists>t. s = t @ p"
    unfolding ends_with_def by (metis append_take_drop_id)
next
  assume "\<exists>t. s = t @ p"
  then show "ends_with s p" by (auto simp: ends_with_def)
qed

section \<open>Decimal numerals\<close>

definition digit_char :: "nat \<Rightarrow> char" where
  "digit_char d = char_of (48 + d)"

fun show_nat :: "nat \<Rightarrow> string" where
  "show_nat n = (if n < 10 then [digit_char n] else show_nat (n div 10) @ [digit_char (n mod 10)])"

declare show_nat.simps [simp del]

definition show_int :: "int \<Rightarrow> string" where
  "show_int i = (if i < 0 then CHR ''-'' # show_nat (nat (- i)) else show_nat (nat i))"

definition is_digit :: "char \<Rightarrow> bool" where
  "is_digit c \<longleftrightarrow> 48 \<le> (of_char c :: nat) \<and> (of_char c :: nat) \<le> 57"

fun read_nat_acc :: "nat \<Rightarrow> string \<Rightarrow> nat option" where
  "read_nat_acc n [] = Some n"
| "read_nat_acc n (c # cs) =
     (if is_digit c then read_nat_acc (10 * n + (of_char c - 48)) cs else None)"

definition read_nat :: "string \<Rightarrow> nat option" where
  "read_nat s = (if s = [] then None else read_nat_acc 0 s)"

lemma of_char_digit [simp]: "d < 10 \<Longrightarrow> (of_char (digit_char d) :: nat) = 48 + d"
  by (simp add: digit_char_def of_char_of)

lemma is_digit_digit [simp]: "d < 10 \<Longrightarrow> is_digit (digit_char d)"
  by (simp add: is_digit_def)

lemma read_nat_acc_append:
  "read_nat_acc n (s @ t) =
     (case read_nat_acc n s of None \<Rightarrow> None | Some m \<Rightarrow> read_nat_acc m t)"
  by (induction s arbitrary: n) auto

lemma show_nat_not_Nil [simp]: "show_nat n \<noteq> []"
  by (subst show_nat.simps) simp

lemma show_nat_digits: "c \<in> set (show_nat n) \<Longrightarrow> is_digit c"
proof (induction n rule: show_nat.induct)
  case (1 n)
  then show ?case
    by (cases "n < 10") (auto simp: show_nat.simps [of n])
qed

lemma read_acc_show: "read_nat_acc 0 (show_nat n) = Some n"
proof (induction n rule: show_nat.induct)
  case (1 n)
  show ?case
  proof (cases "n < 10")
    case True
    then show ?thesis by (simp add: show_nat.simps [of n])
  next
    case False
    with "1.IH" show ?thesis
      by (simp add: show_nat.simps [of n] read_nat_acc_append)
  qed
qed

lemma read_show_nat [simp]: "read_nat (show_nat n) = Some n"
  by (simp add: read_nat_def read_acc_show)

lemma show_nat_inj [simp]: "show_nat m = show_nat n \<longleftrightarrow> m = n"
  by (metis option.inject read_show_nat)

section \<open>Association lists: JavaScript objects with insertion order\<close>

text \<open>Writing a property keeps the position of an existing key and appends a
  new one, which is the iteration order of a JavaScript object with string
  keys.\<close>

fun obj_set :: "string \<Rightarrow> 'v \<Rightarrow> (string \<times> 'v) list \<Rightarrow> (string \<times> 'v) list" where
  "obj_set k v [] = [(k, v)]"
| "obj_set k v ((k', v') # r) = (if k' = k then (k, v) # r else (k', v') # obj_set k v r)"

text \<open>\<open>{...a, ...b}\<close> and \<open>Object.assign\<close>.\<close>

definition obj_spread :: "(string \<times> 'v) list \<Rightarrow> (string \<times> 'v) list \<Rightarrow> (string \<times> 'v) list" where
  "obj_spread a b = foldl (\<lambda>o' kv. obj_set (fst kv) (snd kv) o') a b"

lemma map_of_obj_set [simp]: "map_of (obj_set k v xs) = (map_of xs)(k \<mapsto> v)"
  by (induction k v xs rule: obj_set.induct) auto

lemma keys_obj_set: "fst ` set (obj_set k v xs) = insert k (fst ` set xs)"
  by (induction k v xs rule: obj_set.induct) auto

lemma distinct_obj_set:
  "distinct (map fst xs) \<Longrightarrow> distinct (map fst (obj_set k v xs))"
proof (induction k v xs rule: obj_set.induct)
  case (1 k v)
  then show ?case by simp
next
  case (2 k v k' v' r)
  then show ?case using keys_obj_set [of k v r] by auto
qed

lemma obj_spread_Nil [simp]: "obj_spread a [] = a"
  by (simp add: obj_spread_def)

lemma obj_spread_Cons: "obj_spread a (kv # b) = obj_spread (obj_set (fst kv) (snd kv) a) b"
  by (simp add: obj_spread_def)

lemma distinct_obj_spread:
  "distinct (map fst a) \<Longrightarrow> distinct (map fst (obj_spread a b))"
  by (induction b arbitrary: a) (auto simp: obj_spread_Cons distinct_obj_set)

lemma map_of_obj_spread:
  "distinct (map fst b) \<Longrightarrow>
   map_of (obj_spread a b) k = (case map_of b k of None \<Rightarrow> map_of a k | Some v \<Rightarrow> Some v)"
proof (induction b arbitrary: a)
  case Nil
  then show ?case by simp
next
  case (Cons kv b)
  have "map_of b (fst kv) = None"
    using Cons.prems by (simp add: map_of_eq_None_iff)
  with Cons show ?case
    by (cases kv) (auto simp: obj_spread_Cons split: option.splits)
qed

end
