(* ===== verification/Js_Uri.thy ===== *)
theory Js_Uri
  imports Prelude
begin

text \<open>
  The URI functions of the language and of the URL standard that the bundle
  calls: \<open>encodeURIComponent\<close>, \<open>decodeURIComponent\<close> and the serialisation of
  \<open>URLSearchParams\<close>. Strings are the bytes of their UTF-8 form, so encoding is
  byte by byte; decoding checks that an escaped multi-byte sequence is
  well-formed UTF-8 and fails (the language throws \<open>URIError\<close>) otherwise.
\<close>

section \<open>Hexadecimal digits\<close>

definition hex_digit :: "nat \<Rightarrow> char" where
  "hex_digit d = (if d < 10 then char_of (48 + d) else char_of (55 + d))"

definition hex_value :: "char \<Rightarrow> nat option" where
  "hex_value c =
     (let n = of_char c :: nat
      in if 48 \<le> n \<and> n \<le> 57 then Some (n - 48)
         else if 65 \<le> n \<and> n \<le> 70 then Some (n - 55)
         else if 97 \<le> n \<and> n \<le> 102 then Some (n - 87)
         else None)"

definition percent :: "char \<Rightarrow> string" where
  "percent c = [CHR ''%'', hex_digit (of_char c div 16), hex_digit (of_char c mod 16)]"

lemma hex_value_digit [simp]: "d < 16 \<Longrightarrow> hex_value (hex_digit d) = Some d"
  by (auto simp: hex_value_def hex_digit_def Let_def)

lemma of_char_less [simp]: "(of_char c :: nat) < 256"
  by (rule nat_of_char_less_256)

lemma of_char_div_less [simp]: "(of_char c :: nat) div 16 < 16"
  using of_char_less [of c] by (rule less_mult_imp_div_less [of _ 16 16, simplified])

section \<open>encodeURIComponent\<close>

definition is_alnum :: "char \<Rightarrow> bool" where
  "is_alnum c \<longleftrightarrow>
     (let n = of_char c :: nat
      in 48 \<le> n \<and> n \<le> 57 \<or> 65 \<le> n \<and> n \<le> 90 \<or> 97 \<le> n \<and> n \<le> 122)"

definition uri_unreserved :: "char \<Rightarrow> bool" where
  "uri_unreserved c \<longleftrightarrow> is_alnum c \<or> c \<in> set ''-_.!~*()'' \<or> c = CHR 0x27"

definition encodeURIComponent :: "string \<Rightarrow> string" where
  "encodeURIComponent s = concat (map (\<lambda>c. if uri_unreserved c then [c] else percent c) s)"

section \<open>decodeURIComponent\<close>

text \<open>\<open>utf8_need b\<close> is the number of continuation bytes the lead byte \<open>b\<close> asks for;
  \<open>utf8_ok\<close> excludes over-long forms, surrogates and values above U+10FFFF by the
  range of the second byte.\<close>

definition utf8_need :: "nat \<Rightarrow> nat option" where
  "utf8_need b =
     (if b < 128 then Some 0 else if 194 \<le> b \<and> b < 224 then Some 1
      else if 224 \<le> b \<and> b < 240 then Some 2 else if 240 \<le> b \<and> b < 245 then Some 3 else None)"

definition utf8_second_ok :: "nat \<Rightarrow> nat \<Rightarrow> bool" where
  "utf8_second_ok b c \<longleftrightarrow>
     (if b = 224 then 160 \<le> c else if b = 237 then c < 160
      else if b = 240 then 144 \<le> c else if b = 244 then c < 144 else True)"

fun take_escapes :: "nat \<Rightarrow> string \<Rightarrow> (nat list \<times> string) option" where
  "take_escapes 0 s = Some ([], s)"
| "take_escapes (Suc n) (p # h # l # s) =
     (if p = CHR ''%'' then
        (case (hex_value h, hex_value l) of
           (Some a, Some b) \<Rightarrow>
             (if 128 \<le> 16 * a + b \<and> 16 * a + b < 192 then
                map_option (\<lambda>(bs, r). ((16 * a + b) # bs, r)) (take_escapes n s)
              else None)
         | _ \<Rightarrow> None)
      else None)"
| "take_escapes (Suc n) s = None"

lemma take_escapes_length: "take_escapes n s = Some (bs, r) \<Longrightarrow> length r \<le> length s"
  by (induction n s arbitrary: bs r rule: take_escapes.induct)
    (force split: option.splits if_splits)+

function decodeURIComponent :: "string \<Rightarrow> string option" where
  "decodeURIComponent s =
     (case s of
        [] \<Rightarrow> Some []
      | c # cs \<Rightarrow>
          if c \<noteq> CHR ''%'' then map_option ((#) c) (decodeURIComponent cs)
          else (case cs of
              h # l # r \<Rightarrow>
                (case (hex_value h, hex_value l) of
                   (Some a, Some b) \<Rightarrow>
                     (case utf8_need (16 * a + b) of
                        None \<Rightarrow> None
                      | Some n \<Rightarrow>
                          (case take_escapes n r of
                             None \<Rightarrow> None
                           | Some (bs, r') \<Rightarrow>
                               if bs = [] \<or> utf8_second_ok (16 * a + b) (hd bs)
                               then map_option ((@) (char_of (16 * a + b) # map char_of bs))
                                      (decodeURIComponent r')
                               else None))
                 | _ \<Rightarrow> None)
            | _ \<Rightarrow> None))"
  by pat_completeness auto
termination
  by (relation "measure length") (auto dest!: take_escapes_length)

declare decodeURIComponent.simps [simp del]

lemma decode_Nil [simp]: "decodeURIComponent [] = Some []"
  by (subst decodeURIComponent.simps) simp

lemma decode_plain [simp]:
  "c \<noteq> CHR ''%'' \<Longrightarrow> decodeURIComponent (c # cs) = map_option ((#) c) (decodeURIComponent cs)"
  by (subst decodeURIComponent.simps) simp

lemma percent_not_unreserved [simp]: "\<not> uri_unreserved (CHR ''%'')"
  by (simp add: uri_unreserved_def is_alnum_def)

lemma decode_percent_ascii:
  assumes "(of_char c :: nat) < 128"
  shows "decodeURIComponent (percent c @ s) = map_option ((#) c) (decodeURIComponent s)"
proof -
  have d: "16 * (of_char c div 16) + of_char c mod 16 = (of_char c :: nat)" by simp
  have a: "(@) [c] = (#) c" by (simp add: fun_eq_iff)
  show ?thesis
    using assms
    by (subst decodeURIComponent.simps) (simp add: percent_def d utf8_need_def a)
qed

definition ascii :: "string \<Rightarrow> bool" where
  "ascii s \<longleftrightarrow> (\<forall>c \<in> set s. (of_char c :: nat) < 128)"

lemma encode_Nil [simp]: "encodeURIComponent [] = []"
  by (simp add: encodeURIComponent_def)

lemma encode_Cons:
  "encodeURIComponent (c # s) =
     (if uri_unreserved c then [c] else percent c) @ encodeURIComponent s"
  by (simp add: encodeURIComponent_def)

lemma decode_encode:
  "ascii s \<Longrightarrow> decodeURIComponent (encodeURIComponent s) = Some s"
proof (induction s)
  case Nil
  then show ?case by simp
next
  case (Cons c s)
  then have IH: "decodeURIComponent (encodeURIComponent s) = Some s"
    and c: "(of_char c :: nat) < 128" by (simp_all add: ascii_def)
  show ?case
  proof (cases "uri_unreserved c")
    case True
    then have "c \<noteq> CHR ''%''" by auto
    with True IH show ?thesis by (simp add: encode_Cons)
  next
    case False
    with IH c show ?thesis by (simp add: encode_Cons decode_percent_ascii)
  qed
qed

lemma hex_digit_alnum: "d < 16 \<Longrightarrow> is_alnum (hex_digit d)"
  by (auto simp: is_alnum_def hex_digit_def Let_def)

lemma encode_chars:
  "c \<in> set (encodeURIComponent s) \<Longrightarrow> uri_unreserved c \<or> c = CHR ''%''"
proof (induction s)
  case Nil
  then show ?case by simp
next
  case (Cons d s)
  have "is_alnum (hex_digit (of_char d div 16))" "is_alnum (hex_digit (of_char d mod 16))"
    by (simp_all add: hex_digit_alnum)
  with Cons show ?case
    by (auto simp: encode_Cons percent_def uri_unreserved_def split: if_splits)
qed

lemma encode_no_delimiter:
  assumes "c \<in> set ''/?#&= ''"
  shows "c \<notin> set (encodeURIComponent s)"
proof
  assume "c \<in> set (encodeURIComponent s)"
  from encode_chars [OF this] assms show False
    by (auto simp: uri_unreserved_def is_alnum_def)
qed

section \<open>URLSearchParams\<close>

text \<open>The \<open>application/x-www-form-urlencoded\<close> serialiser of the URL standard.\<close>

definition form_safe :: "char \<Rightarrow> bool" where
  "form_safe c \<longleftrightarrow> is_alnum c \<or> c \<in> set ''*-._''"

definition form_byte :: "char \<Rightarrow> string" where
  "form_byte c = (if c = CHR '' '' then ''+'' else if form_safe c then [c] else percent c)"

definition form_encode :: "string \<Rightarrow> string" where
  "form_encode s = concat (map form_byte s)"

definition params_toString :: "(string \<times> string) list \<Rightarrow> string" where
  "params_toString ps =
     join_with ''&'' (map (\<lambda>(k, v). form_encode k @ ''='' @ form_encode v) ps)"

text \<open>\<open>set(name, value)\<close> replaces the first entry of that name, drops the later
  ones, and appends when there is none.\<close>

fun params_set :: "string \<Rightarrow> string \<Rightarrow> (string \<times> string) list \<Rightarrow> (string \<times> string) list" where
  "params_set k v [] = [(k, v)]"
| "params_set k v ((k', v') # r) =
     (if k' = k then (k, v) # filter (\<lambda>kv. fst kv \<noteq> k) r else (k', v') # params_set k v r)"

lemma map_of_params_set: "map_of (params_set k v ps) = (map_of ps)(k \<mapsto> v)"
proof (induction k v ps rule: params_set.induct)
  case (1 k v)
  then show ?case by simp
next
  case (2 k v k' v' r)
  then show ?case by (auto simp: fun_eq_iff map_of_filter [of "\<lambda>x. x \<noteq> k"] restrict_map_def)
qed

text \<open>The parser the server side applies to a query string.\<close>

fun form_decode :: "string \<Rightarrow> string option" where
  "form_decode [] = Some []"
| "form_decode (c # cs) =
     (if c = CHR ''+'' then map_option ((#) (CHR '' '')) (form_decode cs)
      else if c = CHR ''%'' then
        (case cs of
           h # l # r \<Rightarrow>
             (case (hex_value h, hex_value l) of
                (Some a, Some b) \<Rightarrow> map_option ((#) (char_of (16 * a + b))) (form_decode r)
              | _ \<Rightarrow> None)
         | _ \<Rightarrow> None)
      else map_option ((#) c) (form_decode cs))"

lemma form_decode_byte: "form_decode (form_byte c @ s) = map_option ((#) c) (form_decode s)"
proof -
  have d: "16 * (of_char c div 16) + of_char c mod 16 = (of_char c :: nat)" by simp
  show ?thesis
    by (auto simp: form_byte_def percent_def form_safe_def is_alnum_def d)
qed

lemma form_decode_encode [simp]: "form_decode (form_encode s) = Some s"
  by (induction s) (simp_all add: form_encode_def form_decode_byte)

lemma form_encode_chars: "c \<in> set (form_encode s) \<Longrightarrow> form_safe c \<or> c = CHR ''+'' \<or> c = CHR ''%''"
proof (induction s)
  case Nil
  then show ?case by (simp add: form_encode_def)
next
  case (Cons d s)
  have "is_alnum (hex_digit (of_char d div 16))" "is_alnum (hex_digit (of_char d mod 16))"
    by (simp_all add: hex_digit_alnum)
  with Cons show ?case
    by (auto simp: form_encode_def form_byte_def percent_def form_safe_def split: if_splits)
qed

lemma form_encode_no_delimiter: "c \<in> set ''&=?#/'' \<Longrightarrow> c \<notin> set (form_encode s)"
  by (auto dest!: form_encode_chars simp: form_safe_def is_alnum_def)

definition parse_pair :: "string \<Rightarrow> (string \<times> string) option" where
  "parse_pair s =
     (case split_on (CHR ''='') s of
        [k, v] \<Rightarrow>
          (case (form_decode k, form_decode v) of (Some a, Some b) \<Rightarrow> Some (a, b) | _ \<Rightarrow> None)
      | _ \<Rightarrow> None)"

definition parse_query :: "string \<Rightarrow> (string \<times> string) option list" where
  "parse_query s = map parse_pair (split_on (CHR ''&'') s)"

lemma parse_pair_encode:
  "parse_pair (form_encode k @ ''='' @ form_encode v) = Some (k, v)"
proof -
  have "split_on (CHR ''='') (form_encode k @ CHR ''='' # form_encode v) = [form_encode k, form_encode v]"
    by (simp add: split_on_append split_on_no_sep form_encode_no_delimiter)
  then show ?thesis by (simp add: parse_pair_def)
qed

lemma parse_query_params:
  assumes "ps \<noteq> []"
  shows "parse_query (params_toString ps) = map Some ps"
proof -
  let ?enc = "\<lambda>(k, v). form_encode k @ ''='' @ form_encode v"
  have "\<forall>x \<in> set (map ?enc ps). CHR ''&'' \<notin> set x"
    by (auto simp: form_encode_no_delimiter)
  then have "split_on (CHR ''&'') (params_toString ps) = map ?enc ps"
    unfolding params_toString_def using assms by (intro split_join) auto
  then show ?thesis
    unfolding parse_query_def by (auto simp: parse_pair_encode [simplified])
qed

end
