(* ===== verification/Js_Number.thy ===== *)
theory Js_Number
  imports Complex_Main Prelude
begin

text \<open>
  JavaScript numbers as the bundle uses them. A number is the rational it
  denotes; every arithmetic operation whose exact result need not be a double
  goes through \<open>rnd\<close>, rounding to nearest, ties to even, at 53 significant
  bits (the exponent range is not bounded: the formatters work on counts and
  rates). \<open>toFixed\<close> works on the exact value of its argument, as ECMAScript
  defines it.
\<close>

type_synonym jnum = rat

section \<open>Rounding to a double\<close>

fun log2n :: "nat \<Rightarrow> nat" where
  "log2n n = (if n < 2 then 0 else Suc (log2n (n div 2)))"

declare log2n.simps [simp del]

lemma log2n_bounds: "0 < n \<Longrightarrow> 2 ^ log2n n \<le> n \<and> n < 2 ^ Suc (log2n n)"
proof (induction n rule: log2n.induct)
  case (1 n)
  show ?case
  proof (cases "n < 2")
    case True
    with "1.prems" show ?thesis by (simp add: log2n.simps [of n])
  next
    case False
    with "1.IH" have "2 ^ log2n (n div 2) \<le> n div 2 \<and> n div 2 < 2 ^ Suc (log2n (n div 2))"
      by simp
    with False show ?thesis by (simp add: log2n.simps [of n]) linarith
  qed
qed

text \<open>\<open>bin_exp x\<close> is the exponent \<open>e\<close> with \<open>2 ^ e \<le> x < 2 ^ (e + 1)\<close>, for \<open>x > 0\<close>.\<close>

definition bin_exp :: "rat \<Rightarrow> int" where
  "bin_exp x =
     (if 1 \<le> x then int (log2n (nat \<lfloor>x\<rfloor>))
      else (let k = log2n (nat \<lfloor>1 / x\<rfloor>) in if 2 ^ k * x = 1 then - int k else - int k - 1))"

definition pow2 :: "int \<Rightarrow> rat" where
  "pow2 e = (if 0 \<le> e then 2 ^ nat e else 1 / 2 ^ nat (- e))"

lemma pow2_pos [simp]: "0 < pow2 e"
  by (simp add: pow2_def)

lemma pow2_Suc: "pow2 (e + 1) = 2 * pow2 e"
proof -
  consider "0 \<le> e" | "e = -1" | "e < -1" by linarith
  then show ?thesis
  proof cases
    case 1
    then show ?thesis by (simp add: pow2_def nat_add_distrib)
  next
    case 2
    then show ?thesis by (simp add: pow2_def)
  next
    case 3
    then have "nat (- e) = Suc (nat (- (e + 1)))" by simp
    with 3 show ?thesis by (simp add: pow2_def)
  qed
qed

definition round_half_even :: "rat \<Rightarrow> int" where
  "round_half_even q =
     (let f = \<lfloor>q\<rfloor>; d = q - of_int f
      in if d < 1 / 2 then f else if 1 / 2 < d then f + 1 else if even f then f else f + 1)"

definition rnd :: "rat \<Rightarrow> jnum" where
  "rnd x =
     (if x = 0 then 0
      else let u = pow2 (bin_exp \<bar>x\<bar> - 52)
           in sgn x * (of_int (round_half_even (\<bar>x\<bar> / u)) * u))"

definition js_div :: "jnum \<Rightarrow> jnum \<Rightarrow> jnum" where
  "js_div a b = rnd (a / b)"

definition js_mult :: "jnum \<Rightarrow> jnum \<Rightarrow> jnum" where
  "js_mult a b = rnd (a * b)"

definition js_add :: "jnum \<Rightarrow> jnum \<Rightarrow> jnum" where
  "js_add a b = rnd (a + b)"

definition js_sub :: "jnum \<Rightarrow> jnum \<Rightarrow> jnum" where
  "js_sub a b = rnd (a - b)"

section \<open>Accuracy of the rounding\<close>

lemma round_half_even_error: "\<bar>of_int (round_half_even q) - q\<bar> \<le> 1 / 2"
proof -
  have f: "of_int \<lfloor>q\<rfloor> \<le> q" "q < of_int \<lfloor>q\<rfloor> + 1" by linarith+
  show ?thesis
    unfolding round_half_even_def Let_def using f by (auto simp: abs_le_iff)
qed

lemma round_half_even_int [simp]: "round_half_even (of_int k) = k"
  by (simp add: round_half_even_def)

lemma bin_exp_ge1:
  assumes "1 \<le> x"
  shows "pow2 (bin_exp x) \<le> x \<and> x < pow2 (bin_exp x + 1)"
proof -
  define n where "n = nat \<lfloor>x\<rfloor>"
  have n: "0 < n" using assms unfolding n_def by linarith
  have fl: "of_nat n \<le> x" "x < of_nat n + 1"
    using assms unfolding n_def by linarith+
  have b: "2 ^ log2n n \<le> n" "n + 1 \<le> 2 ^ Suc (log2n n)"
    using log2n_bounds [OF n] by simp_all
  have lo: "(2::rat) ^ log2n n \<le> of_nat n"
    using of_nat_mono [OF b(1), where ?'a = rat] by simp
  have hi: "(of_nat n :: rat) + 1 \<le> 2 ^ Suc (log2n n)"
    using of_nat_mono [OF b(2), where ?'a = rat] by simp
  have e: "bin_exp x = int (log2n n)" using assms by (simp add: bin_exp_def n_def)
  have "pow2 (int (log2n n)) = 2 ^ log2n n" "pow2 (int (log2n n) + 1) = 2 ^ Suc (log2n n)"
    by (simp_all add: pow2_def nat_add_distrib)
  then show ?thesis
    unfolding e using order_trans [OF lo fl(1)] less_le_trans [OF fl(2) hi] by (simp only:)
qed

lemma bin_exp_lt1:
  assumes "0 < x" and "x < 1"
  shows "pow2 (bin_exp x) \<le> x \<and> x < pow2 (bin_exp x + 1)"
proof -
  define z where "z = 1 / x"
  have z1: "1 < z" using assms by (simp add: z_def)
  have zx: "z * x = 1" using assms by (simp add: z_def)
  define n where "n = nat \<lfloor>z\<rfloor>"
  have n: "0 < n" using z1 unfolding n_def by linarith
  have fl: "of_nat n \<le> z" "z < of_nat n + 1"
    using z1 unfolding n_def by linarith+
  define k where "k = log2n n"
  have b: "2 ^ k \<le> n" "n + 1 \<le> 2 ^ Suc k"
    using log2n_bounds [OF n] by (simp_all add: k_def)
  have lo: "(2::rat) ^ k \<le> of_nat n"
    using of_nat_mono [OF b(1), where ?'a = rat] by simp
  have hi: "(of_nat n :: rat) + 1 \<le> 2 ^ Suc k"
    using of_nat_mono [OF b(2), where ?'a = rat] by simp
  have le1: "2 ^ k * x \<le> 1"
    using mult_right_mono [of "2 ^ k" z x] lo fl assms zx by simp
  have gt1: "1 < 2 ^ Suc k * x"
    using mult_strict_right_mono [of z "2 ^ Suc k" x] hi fl assms zx by simp
  have e: "bin_exp x = (if 2 ^ k * x = 1 then - int k else - int k - 1)"
    using assms by (simp add: bin_exp_def z_def n_def k_def)
  show ?thesis
  proof (cases "2 ^ k * x = 1")
    case True
    then have x: "x = pow2 (- int k)" by (auto simp: pow2_def divide_simps mult.commute)
    have e': "bin_exp x = - int k" using True e by simp
    show ?thesis
      unfolding e' pow2_Suc using assms(1) by (simp add: x)
  next
    case False
    with le1 have lt: "x < 1 / 2 ^ k" by (simp add: field_simps)
    from gt1 have ge: "1 / 2 ^ Suc k < x" by (simp add: field_simps)
    have p1: "pow2 (- int k) = 1 / 2 ^ k" by (simp add: pow2_def)
    have p2: "pow2 (- int k - 1) = 1 / 2 ^ Suc k"
      using pow2_Suc [of "- int k - 1"] p1 by simp
    show ?thesis using False lt ge p1 p2 by (simp add: e)
  qed
qed

lemma bin_exp_bounds: "0 < x \<Longrightarrow> pow2 (bin_exp x) \<le> x \<and> x < pow2 (bin_exp x + 1)"
  using bin_exp_ge1 bin_exp_lt1 by (cases "1 \<le> x") auto

lemma pow2_minus: "pow2 (e - int k) = pow2 e / 2 ^ k"
proof (induction k)
  case 0
  then show ?case by simp
next
  case (Suc k)
  have "pow2 (e - int k) = 2 * pow2 (e - int (Suc k))"
    using pow2_Suc [of "e - int (Suc k)"] by (simp add: algebra_simps)
  with Suc show ?case by simp
qed

lemma rnd_abs:
  assumes "x \<noteq> 0" and "u = pow2 (bin_exp \<bar>x\<bar> - 52)"
  shows "rnd x - x = sgn x * ((of_int (round_half_even (\<bar>x\<bar> / u)) - \<bar>x\<bar> / u) * u)"
proof -
  have u: "u \<noteq> 0" unfolding assms(2) using pow2_pos [of "bin_exp \<bar>x\<bar> - 52"] by (rule less_imp_neq [symmetric])
  have "x = sgn x * (\<bar>x\<bar> / u * u)" using u by (simp add: sgn_mult_abs)
  then have "rnd x - x = sgn x * (of_int (round_half_even (\<bar>x\<bar> / u)) * u) - sgn x * (\<bar>x\<bar> / u * u)"
    using assms by (simp add: rnd_def Let_def)
  then show ?thesis by (simp add: algebra_simps)
qed

text \<open>One rounding is off by at most half a unit in the last place, \<open>2 ^ -53\<close>
  relative to the exact value.\<close>

lemma rnd_error: "\<bar>rnd x - x\<bar> \<le> \<bar>x\<bar> / 2 ^ 53"
proof (cases "x = 0")
  case True
  then show ?thesis by (simp add: rnd_def)
next
  case False
  define u where "u = pow2 (bin_exp \<bar>x\<bar> - 52)"
  have u: "0 < u" by (simp add: u_def)
  have "\<bar>rnd x - x\<bar> = \<bar>of_int (round_half_even (\<bar>x\<bar> / u)) - \<bar>x\<bar> / u\<bar> * u"
    using rnd_abs [OF False u_def] False u by (simp add: abs_mult abs_sgn_eq)
  also have "\<dots> \<le> 1 / 2 * u"
    using round_half_even_error [of "\<bar>x\<bar> / u"] u by (intro mult_right_mono) auto
  also have "u = pow2 (bin_exp \<bar>x\<bar>) / 2 ^ 52"
    using pow2_minus [of "bin_exp \<bar>x\<bar>" 52] by (simp add: u_def)
  also have "1 / 2 * (pow2 (bin_exp \<bar>x\<bar>) / 2 ^ 52) = pow2 (bin_exp \<bar>x\<bar>) / 2 ^ 53" by simp
  also have "\<dots> \<le> \<bar>x\<bar> / 2 ^ 53"
    using bin_exp_bounds [of "\<bar>x\<bar>"] False by (simp add: divide_right_mono)
  finally show ?thesis .
qed

lemma rnd_0 [simp]: "rnd 0 = 0"
  by (simp add: rnd_def)

text \<open>Rounding keeps the sign, so comparing a difference with zero compares its operands.\<close>

lemma rnd_sign: "0 < rnd x \<longleftrightarrow> 0 < x" "rnd x < 0 \<longleftrightarrow> x < 0" "rnd x = 0 \<longleftrightarrow> x = 0"
proof -
  have "\<bar>x\<bar> / 2 ^ 53 < \<bar>x\<bar>" if "x \<noteq> 0" using that by (simp add: divide_less_eq)
  then have "x \<noteq> 0 \<Longrightarrow> \<bar>rnd x - x\<bar> < \<bar>x\<bar>" using rnd_error [of x] by linarith
  then show "0 < rnd x \<longleftrightarrow> 0 < x" "rnd x < 0 \<longleftrightarrow> x < 0" "rnd x = 0 \<longleftrightarrow> x = 0"
    by (cases "x = 0"; auto simp: abs_if split: if_splits)+
qed

section \<open>toFixed\<close>

text \<open>\<open>x.toFixed(f)\<close> for \<open>\<bar>x\<bar> < 10 ^ 21\<close>: the integer \<open>n\<close> for which \<open>n / 10 ^ f\<close> is
  closest to \<open>x\<close>, the larger one of two, printed with \<open>f\<close> decimals.\<close>

definition fixed_int :: "nat \<Rightarrow> rat \<Rightarrow> nat" where
  "fixed_int f x = nat \<lfloor>x * 10 ^ f + 1 / 2\<rfloor>"

definition pad_left :: "nat \<Rightarrow> string \<Rightarrow> string" where
  "pad_left w s = replicate (w - length s) (CHR ''0'') @ s"

definition to_fixed_pos :: "nat \<Rightarrow> rat \<Rightarrow> string" where
  "to_fixed_pos f x =
     (let n = fixed_int f x
      in if f = 0 then show_nat n
         else show_nat (n div 10 ^ f) @ ''.'' @ pad_left f (show_nat (n mod 10 ^ f)))"

definition toFixed :: "nat \<Rightarrow> jnum \<Rightarrow> string" where
  "toFixed f x = (if x < 0 then ''-'' @ to_fixed_pos f (- x) else to_fixed_pos f x)"

lemma fixed_int_error:
  assumes "0 \<le> x"
  shows "\<bar>of_nat (fixed_int f x) / 10 ^ f - x\<bar> \<le> 1 / (2 * 10 ^ f)"
proof -
  have nn: "0 \<le> x * 10 ^ f" using assms by simp
  then have "0 \<le> \<lfloor>x * 10 ^ f + 1 / 2\<rfloor>" by linarith
  then have "(of_nat (fixed_int f x) :: rat) = of_int \<lfloor>x * 10 ^ f + 1 / 2\<rfloor>"
    by (simp add: fixed_int_def of_nat_nat)
  then have "\<bar>of_nat (fixed_int f x) - x * 10 ^ f\<bar> \<le> 1 / 2"
    by linarith
  then have "\<bar>of_nat (fixed_int f x) - x * 10 ^ f\<bar> / 10 ^ f \<le> 1 / 2 / 10 ^ f"
    by (intro divide_right_mono) auto
  moreover have "\<bar>of_nat (fixed_int f x) - x * 10 ^ f\<bar> / 10 ^ f
      = \<bar>of_nat (fixed_int f x) / 10 ^ f - x\<bar>"
  proof -
    have "of_nat (fixed_int f x) / 10 ^ f - x = (of_nat (fixed_int f x) - x * 10 ^ f) / 10 ^ f"
      by (simp add: diff_divide_distrib)
    then show ?thesis by (simp add: abs_divide)
  qed
  ultimately show ?thesis by simp
qed

lemma to_fixed_pos_1:
  "to_fixed_pos 1 x =
     show_nat (fixed_int 1 x div 10) @ ''.'' @ [digit_char (fixed_int 1 x mod 10)]"
proof -
  have "show_nat (n mod 10) = [digit_char (n mod 10)]" for n
    by (subst show_nat.simps) simp
  then show ?thesis by (simp add: to_fixed_pos_def Let_def pad_left_def)
qed

section \<open>Integers are exact\<close>

lemma bin_exp_less:
  assumes "0 < x" "x < 2 ^ n"
  shows "bin_exp x < int n"
proof (rule ccontr)
  assume "\<not> bin_exp x < int n"
  then obtain d where d: "bin_exp x = int n + int d" using zle_iff_zadd by fastforce
  have "pow2 (bin_exp x) = 2 ^ (n + d)" unfolding d by (simp add: pow2_def nat_add_distrib)
  moreover have "(2::rat) ^ n \<le> 2 ^ (n + d)" by (rule power_increasing) auto
  ultimately show False using bin_exp_bounds [OF assms(1)] assms(2) by linarith
qed

lemma rnd_of_int:
  assumes "\<bar>k\<bar> < 2 ^ 53"
  shows "rnd (of_int k) = of_int k"
proof (cases "k = 0")
  case False
  define x where "x = (of_int \<bar>k\<bar> :: rat)"
  have x: "0 < x" "x < 2 ^ 53" unfolding x_def using False assms by (simp, metis of_int_less_iff of_int_numeral of_int_power)
  define m where "m = nat (52 - bin_exp x)"
  have "bin_exp x < 53" using bin_exp_less [OF x] by simp
  then have m: "bin_exp x - 52 = - int m" by (simp add: m_def)
  have u: "pow2 (bin_exp x - 52) = 1 / 2 ^ m" unfolding m by (simp add: pow2_def)
  have "round_half_even (of_int (\<bar>k\<bar> * 2 ^ m)) = \<bar>k\<bar> * 2 ^ m" by (rule round_half_even_int)
  then have r: "round_half_even (x / pow2 (bin_exp x - 52)) = \<bar>k\<bar> * 2 ^ m" unfolding u by (simp add: x_def)
  have "sgn (of_int k :: rat) * x = of_int k" unfolding x_def
    by (simp add: sgn_mult_abs)
  moreover have "\<bar>of_int k\<bar> = x" by (simp add: x_def)
  ultimately show ?thesis using False r by (simp add: rnd_def Let_def u)
qed simp

lemma js_int [simp]:
  "\<bar>a + b\<bar> < 2 ^ 53 \<Longrightarrow> js_add (of_int a) (of_int b) = of_int (a + b)"
  "\<bar>a - b\<bar> < 2 ^ 53 \<Longrightarrow> js_sub (of_int a) (of_int b) = of_int (a - b)"
  "\<bar>a * b\<bar> < 2 ^ 53 \<Longrightarrow> js_mult (of_int a) (of_int b) = of_int (a * b)"
  unfolding js_add_def js_sub_def js_mult_def
    of_int_add [symmetric] of_int_diff [symmetric] of_int_mult [symmetric]
  by (simp_all only: rnd_of_int)

lemma rnd_numeral [simp]:
  "numeral k < (2 ^ 53 :: int) \<Longrightarrow> rnd (numeral k) = numeral k"
  "numeral k < (2 ^ 53 :: int) \<Longrightarrow> rnd (- numeral k) = - numeral k"
  "rnd 1 = 1" "rnd (- 1) = - 1"
  using rnd_of_int [of "numeral k"] rnd_of_int [of "- numeral k"] rnd_of_int [of 1] rnd_of_int [of "-1"] by auto

section \<open>Number to string\<close>

text \<open>The decimal exponent \<open>n\<close> with \<open>10 ^ (n - 1) \<le> x < 10 ^ n\<close>, and the shortest decimal
  \<open>s\<close> of \<open>k\<close> digits that rounds to \<open>x\<close>, as \<open>Number::toString\<close> chooses it.\<close>

definition dec_exp :: "rat \<Rightarrow> int" where
  "dec_exp x =
     (if 1 \<le> x then int (length (show_nat (nat \<lfloor>x\<rfloor>)))
      else 1 - int (length (show_nat (nat (\<lceil>1 / x\<rceil> - 1)))))"

definition pow10 :: "int \<Rightarrow> rat" where
  "pow10 e = (if 0 \<le> e then 10 ^ nat e else 1 / 10 ^ nat (- e))"

definition digits_candidate :: "rat \<Rightarrow> int \<Rightarrow> nat \<Rightarrow> nat option" where
  "digits_candidate x n k =
     (let q = x * pow10 (int k - n); lo = nat \<lfloor>q\<rfloor>; hi = lo + 1;
          ok = (\<lambda>s. 10 ^ (k - 1) \<le> s \<and> s < 10 ^ k \<and> rnd (of_nat s * pow10 (n - int k)) = x);
          near = (if q - of_nat lo \<le> 1 / 2 then [lo, hi] else [hi, lo])
      in List.find ok near)"

fun shortest_digits :: "rat \<Rightarrow> int \<Rightarrow> nat list \<Rightarrow> nat \<times> nat" where
  "shortest_digits x n [] = (nat \<lfloor>x * pow10 (17 - n)\<rfloor>, 17)"
| "shortest_digits x n (k # ks) =
     (case digits_candidate x n k of Some s \<Rightarrow> (s, k) | None \<Rightarrow> shortest_digits x n ks)"

definition pos_to_string :: "rat \<Rightarrow> string" where
  "pos_to_string x =
     (let n = dec_exp x; (s, k) = shortest_digits x n [1..<18]; ds = show_nat s
      in if int k \<le> n \<and> n \<le> 21 then ds @ replicate (nat n - k) (CHR ''0'')
         else if 0 < n \<and> n \<le> 21 then take (nat n) ds @ ''.'' @ drop (nat n) ds
         else if -6 < n \<and> n \<le> 0 then ''0.'' @ replicate (nat (- n)) (CHR ''0'') @ ds
         else take 1 ds @ (if k = 1 then [] else ''.'' @ drop 1 ds) @ ''e''
              @ (if 0 < n - 1 then ''+'' else ''-'') @ show_nat (nat \<bar>n - 1\<bar>))"

definition number_to_string :: "jnum \<Rightarrow> string" where
  "number_to_string x =
     (if x = 0 then ''0'' else if x < 0 then ''-'' @ pos_to_string (- x) else pos_to_string x)"

end
