(* ===== verification/Ui_Tree.thy ===== *)
theory Ui_Tree
  imports Js_Number
begin

text \<open>
  JSON values and rendered element trees. A component of the admin bundle is a
  function from its props and its local state to a tree of elements
  (\<open>jsx\<close>/\<open>jsxs\<close> calls); an event handler attached to an element is an action
  value, and \<open>clicks\<close> says which handlers a click on some element of the tree
  runs, in the order in which React calls them while the event bubbles.
\<close>

section \<open>JSON\<close>

datatype json =
    JNull
  | JBool bool
  | JNum jnum
  | JStr string
  | JArr "json list"
  | JObj "(string \<times> json) list"

text \<open>Reading a property; \<^const>\<open>None\<close> is \<open>undefined\<close>. Reading from \<open>null\<close> throws in
  the language: callers guard it with \<open>?.\<close>, which \<open>opt_prop\<close> is.\<close>

fun js_prop :: "json \<Rightarrow> string \<Rightarrow> json option" where
  "js_prop (JObj o') k = map_of o' k"
| "js_prop _ k = None"

definition opt_prop :: "json option \<Rightarrow> string \<Rightarrow> json option" where
  "opt_prop v k =
     (case v of None \<Rightarrow> None | Some JNull \<Rightarrow> None | Some j \<Rightarrow> js_prop j k)"

text \<open>Truthiness of a JSON value.\<close>

fun json_truthy :: "json \<Rightarrow> bool" where
  "json_truthy JNull = False"
| "json_truthy (JBool b) = b"
| "json_truthy (JNum x) = (x \<noteq> 0)"
| "json_truthy (JStr s) = (s \<noteq> [])"
| "json_truthy (JArr _) = True"
| "json_truthy (JObj _) = True"

text \<open>\<open>v ?? d\<close> on JSON values: both \<open>null\<close> and \<open>undefined\<close> give the default.\<close>

definition json_nullish :: "json option \<Rightarrow> json \<Rightarrow> json" where
  "json_nullish v d = (case v of None \<Rightarrow> d | Some JNull \<Rightarrow> d | Some j \<Rightarrow> j)"

section \<open>Elements\<close>

datatype 'a attr =
    AStr string
  | ABool bool
  | ANum jnum
  | AJson json
  | AAct 'a
  | AInput "string \<Rightarrow> 'a"
  | AStop
  | ASub 'a

datatype 'a node =
    NNull
  | NStr string
  | NNum jnum
  | NFrag "'a node list"
  | NElem string "string option" "(string \<times> 'a attr) list" "'a node list"

abbreviation jsx :: "string \<Rightarrow> (string \<times> 'a attr) list \<Rightarrow> 'a node list \<Rightarrow> 'a node" where
  "jsx tag ps cs \<equiv> NElem tag None ps cs"

abbreviation jsxk :: "string \<Rightarrow> string \<Rightarrow> (string \<times> 'a attr) list \<Rightarrow> 'a node list \<Rightarrow> 'a node" where
  "jsxk tag key ps cs \<equiv> NElem tag (Some key) ps cs"

abbreviation cls :: "string \<Rightarrow> string \<times> 'a attr" where
  "cls s \<equiv> (''className'', AStr s)"

text \<open>\<open>cond && element\<close>.\<close>

definition cond_el :: "bool \<Rightarrow> 'a node \<Rightarrow> 'a node" where
  "cond_el b n = (if b then n else NNull)"

lemma cond_el_simps [simp, js_simps]: "cond_el True n = n" "cond_el False n = NNull"
  by (simp_all add: cond_el_def)

section \<open>Reading a tree\<close>

fun elements :: "'a node \<Rightarrow> 'a node list" where
  "elements (NFrag cs) = concat (map elements cs)"
| "elements (NElem t k ps cs) = NElem t k ps cs # concat (map elements cs)"
| "elements n = []"

fun strings :: "'a node \<Rightarrow> string list" where
  "strings NNull = []"
| "strings (NStr s) = [s]"
| "strings (NNum _) = []"
| "strings (NFrag cs) = concat (map strings cs)"
| "strings (NElem t k ps cs) = concat (map strings cs)"

fun tag_of :: "'a node \<Rightarrow> string" where
  "tag_of (NElem t k ps cs) = t"
| "tag_of _ = []"

fun attr_of :: "string \<Rightarrow> 'a node \<Rightarrow> 'a attr option" where
  "attr_of a (NElem t k ps cs) = map_of ps a"
| "attr_of a _ = None"

definition is_disabled :: "(string \<times> 'a attr) list \<Rightarrow> bool" where
  "is_disabled ps \<longleftrightarrow> (case map_of ps ''disabled'' of Some (ABool True) \<Rightarrow> True | _ \<Rightarrow> False)"

text \<open>The handler of an element: what it runs, and whether the event stops there.
  A disabled control gets no click and passes none on.\<close>

definition own_click :: "(string \<times> 'a attr) list \<Rightarrow> 'a list \<times> bool" where
  "own_click ps =
     (if is_disabled ps then ([], True)
      else case map_of ps ''onClick'' of
             Some (AAct a) \<Rightarrow> ([a], False)
           | Some AStop \<Rightarrow> ([], True)
           | _ \<Rightarrow> ([], False))"

definition bubble :: "'a list \<times> bool \<Rightarrow> 'a list \<times> bool \<Rightarrow> 'a list \<times> bool" where
  "bubble own inner = (if snd inner then inner else (fst inner @ fst own, snd own))"

fun clicks :: "'a node \<Rightarrow> ('a list \<times> bool) list" where
  "clicks (NFrag cs) = concat (map clicks cs)"
| "clicks (NElem t k ps cs) =
     own_click ps # map (bubble (own_click ps)) (concat (map clicks cs))"
| "clicks n = []"

definition click_runs :: "'a node \<Rightarrow> 'a list set" where
  "click_runs n = fst ` set (clicks n)"

definition clickable :: "'a node \<Rightarrow> 'a set" where
  "clickable n = (\<Union>as \<in> click_runs n. set as)"

text \<open>The buttons of a tree, each with its label and whether it is enabled.\<close>

definition button_list :: "'a node \<Rightarrow> (string \<times> bool \<times> 'a option) list" where
  "button_list n =
     map (\<lambda>e. (concat (strings e),
               \<not> (case attr_of ''disabled'' e of Some (ABool True) \<Rightarrow> True | _ \<Rightarrow> False),
               (case attr_of ''onClick'' e of Some (AAct a) \<Rightarrow> Some a | _ \<Rightarrow> None)))
       (filter (\<lambda>e. tag_of e = ''button'') (elements n))"

lemma bubble_stopped [simp]: "bubble own (as, True) = (as, True)"
  by (simp add: bubble_def)

lemma bubble_pass [simp]: "bubble own (as, False) = (as @ fst own, snd own)"
  by (simp add: bubble_def)

lemma own_click_simps [simp]:
  "own_click [] = ([], False)"
  "own_click (cls c # ps) = own_click ps"
  "own_click ((''onClick'', AAct a) # ps) = (if is_disabled ps then ([], True) else ([a], False))"
  "own_click ((''onClick'', AStop) # ps) = ([], True)"
  "own_click ((''type'', x) # ps) = own_click ps" "own_click ((''aria-label'', x) # ps) = own_click ps"
  "own_click ((''value'', x) # ps) = own_click ps" "own_click ((''onChange'', x) # ps) = own_click ps"
  "own_click ((''onSubmit'', x) # ps) = own_click ps" "own_click ((''placeholder'', x) # ps) = own_click ps"
  "own_click ((''to'', x) # ps) = own_click ps" "own_click ((''end'', x) # ps) = own_click ps"
  by (simp_all add: own_click_def is_disabled_def)

lemma is_disabled_simps [simp]:
  "is_disabled [] = False" "is_disabled (cls c # ps) = is_disabled ps"
  "is_disabled ((''disabled'', ABool b) # ps) = b"
  "is_disabled ((''onClick'', x) # ps) = is_disabled ps"
  by (simp_all add: is_disabled_def split: bool.split)

lemma clickable_simps [simp]:
  "clickable NNull = {}" "clickable (NStr s) = {}" "clickable (NNum x) = {}"
  "clickable (NFrag cs) = (\<Union>c \<in> set cs. clickable c)"
  by (auto simp: clickable_def click_runs_def)

lemma clickable_NElem [simp]:
  "clickable (NElem t k ps cs) = set (fst (own_click ps)) \<union> (\<Union>c \<in> set cs. clickable c)"
proof
  show "clickable (NElem t k ps cs) \<subseteq> set (fst (own_click ps)) \<union> (\<Union>c \<in> set cs. clickable c)"
    by (force simp: clickable_def click_runs_def bubble_def split: if_splits)
  show "set (fst (own_click ps)) \<union> (\<Union>c \<in> set cs. clickable c) \<subseteq> clickable (NElem t k ps cs)"
    by (force simp: clickable_def click_runs_def bubble_def)
qed

lemma clickable_cond_el [simp]: "clickable (cond_el b n) = (if b then clickable n else {})"
  by (simp add: cond_el_def)

lemma button_list_simps [simp]:
  "button_list NNull = []" "button_list (NStr s) = []" "button_list (NNum x) = []"
  "button_list (NFrag cs) = concat (map button_list cs)"
  by (simp_all add: button_list_def [abs_def] filter_concat map_concat comp_def)

lemma button_list_NElem [simp]:
  "button_list (NElem t k ps cs) =
     (if t = ''button''
      then [(concat (concat (map strings cs)), \<not> is_disabled ps,
             case map_of ps ''onClick'' of Some (AAct a) \<Rightarrow> Some a | _ \<Rightarrow> None)]
      else []) @ concat (map button_list cs)"
  by (simp add: button_list_def [abs_def] filter_concat map_concat comp_def is_disabled_def)

lemma button_list_cond_el [simp]: "button_list (cond_el b n) = (if b then button_list n else [])"
  by (simp add: cond_el_def)

lemma node_if [simp]:
  "button_list (if b then x else y) = (if b then button_list x else button_list y)"
  "strings (if b then x else y) = (if b then strings x else strings y)"
  "clickable (if b then x else y) = (if b then clickable x else clickable y)"
  by simp_all

section \<open>Renaming the actions of a tree\<close>

text \<open>A component embedded in a page: its actions become actions of the page.\<close>

lemma map_of_map_snd: "map_of (map (map_prod id f) ps) k = map_option f (map_of ps k)"
  by (induction ps) auto

lemma is_disabled_map [simp]: "is_disabled (map (map_prod id (map_attr f)) ps) = is_disabled ps"
  by (simp add: is_disabled_def map_of_map_snd split: option.split attr.split)

lemma own_click_map [simp]:
  "own_click (map (map_prod id (map_attr f)) ps) = map_prod (map f) (\<lambda>b. b) (own_click ps)"
  by (auto simp: own_click_def map_of_map_snd split: option.splits attr.splits)

lemma bubble_map: "bubble (map_prod (map f) (\<lambda>b. b) o') (map_prod (map f) (\<lambda>b. b) i) = map_prod (map f) (\<lambda>b. b) (bubble o' i)"
  by (cases o'; cases i) (simp add: bubble_def)

lemma clicks_map: "clicks (map_node f n) = map (map_prod (map f) (\<lambda>b. b)) (clicks n)"
proof (induction n)
  case (NFrag cs)
  then show ?case by (simp add: map_concat comp_def cong: map_cong)
next
  case (NElem t k ps cs)
  then show ?case by (simp add: map_concat comp_def bubble_map cong: map_cong)
qed simp_all

lemma clickable_map [simp]: "clickable (map_node f n) = f ` clickable n"
  by (auto simp: clickable_def click_runs_def clicks_map image_iff)

end
