(* ===== verification/Admin_Client.thy ===== *)
theory Admin_Client
  imports Js_Uri Ui_Tree
begin

text \<open>
  The HTTP client of the admin dashboard (class \<open>n8\<close>, exported as
  \<open>OJSAdminClient\<close>) and its error class \<open>jP\<close> (\<open>ApiRequestError\<close>). Every
  method builds a path and the options of one \<open>fetch\<close> call; \<open>request\<close> maps the
  response to a resolved value or a rejection. The browser's \<open>fetch\<close> is the
  environment: a method is modelled by the request it issues and by the
  outcome for each response. A JSON body is the value handed to
  \<open>JSON.stringify\<close>.
\<close>

section \<open>Requests and responses\<close>

record fetch_init =
  fi_method :: "string option"
  fi_headers :: "(string \<times> string) list option"
  fi_body :: "json option"

record fetch_request =
  rq_url :: string
  rq_method :: string
  rq_headers :: "(string \<times> string) list"
  rq_body :: "json option"

text \<open>\<open>{headers: {"Content-Type": \<dots>, ...a?.headers}, ...a}\<close>: the second spread
  overwrites \<open>headers\<close> when the options carry the property. A request without
  a method is a GET.\<close>

definition build_request :: "string \<Rightarrow> string \<Rightarrow> fetch_init option \<Rightarrow> fetch_request" where
  "build_request baseUrl t a =
     (let merged = obj_spread [(''Content-Type'', ''application/json'')]
                     (nullish (Option.bind a fi_headers) [])
      in \<lparr>rq_url = baseUrl @ t,
          rq_method = nullish (Option.bind a fi_method) ''GET'',
          rq_headers = nullish (Option.bind a fi_headers) merged,
          rq_body = Option.bind a fi_body\<rparr>)"

datatype js_error =
    ApiRequestError int json "json option"
  | NetworkError string
  | JsonSyntaxError

text \<open>A response of \<open>fetch\<close>: its status, its status text, and what \<open>json()\<close> gives
  (\<^const>\<open>None\<close> when the body does not parse).\<close>

record response =
  rs_status :: int
  rs_statusText :: string
  rs_json :: "json option"

definition rs_ok :: "response \<Rightarrow> bool" where
  "rs_ok r \<longleftrightarrow> 200 \<le> rs_status r \<and> rs_status r \<le> 299"

datatype fetch_outcome = Rejected string | Responded response

text \<open>The error raised for a response that is not ok: \<open>h?.error?.message ?? statusText\<close>
  and \<open>h?.error?.code\<close>, with \<open>h = {}\<close> when the body does not parse.\<close>

definition api_error :: "response \<Rightarrow> js_error" where
  "api_error r =
     (let h = nullish (rs_json r) (JObj []);
          e = opt_prop (Some h) ''error''
      in ApiRequestError (rs_status r)
           (json_nullish (opt_prop e ''message'') (JStr (rs_statusText r)))
           (opt_prop e ''code''))"

text \<open>\<open>request\<close> after its call of \<open>fetch\<close>: \<open>Inl\<close> a rejection, \<open>Inr None\<close> the value
  \<open>undefined\<close>.\<close>

definition request_result :: "fetch_outcome \<Rightarrow> js_error + json option" where
  "request_result f =
     (case f of
        Rejected m \<Rightarrow> Inl (NetworkError m)
      | Responded r \<Rightarrow>
          if \<not> rs_ok r then Inl (api_error r)
          else if rs_status r \<noteq> 204 then
            (case rs_json r of None \<Rightarrow> Inl JsonSyntaxError | Some j \<Rightarrow> Inr (Some j))
          else Inr None)"

definition request :: "string \<Rightarrow> string \<Rightarrow> fetch_init option \<Rightarrow> (fetch_request \<Rightarrow> fetch_outcome)
    \<Rightarrow> js_error + json option" where
  "request baseUrl t a fetch = request_result (fetch (build_request baseUrl t a))"

section \<open>The methods of the client\<close>

type_synonym call = "string \<times> fetch_init option"

definition with_method :: "string \<Rightarrow> fetch_init" where
  "with_method m = \<lparr>fi_method = Some m, fi_headers = None, fi_body = None\<rparr>"

definition with_body :: "string \<Rightarrow> json \<Rightarrow> fetch_init" where
  "with_body m b = \<lparr>fi_method = Some m, fi_headers = None, fi_body = Some b\<rparr>"

text \<open>Object literals drop nothing, but \<open>JSON.stringify\<close> leaves out properties
  whose value is \<open>undefined\<close>.\<close>

definition json_obj :: "(string \<times> json option) list \<Rightarrow> json" where
  "json_obj fs = JObj (concat (map (\<lambda>(k, v). case v of None \<Rightarrow> [] | Some j \<Rightarrow> [(k, j)]) fs))"

definition manifest :: call where
  "manifest = (''/ojs/manifest'', None)"

definition stats :: call where
  "stats = (''/ojs/v1/admin/stats'', None)"

definition statsHistory :: "string \<Rightarrow> string option \<Rightarrow> string option \<Rightarrow> call" where
  "statsHistory t a i =
     (let c0 = [(''period'', t)];
          c1 = (case a of Some v \<Rightarrow> if truthy_str v then params_set ''since'' v c0 else c0 | None \<Rightarrow> c0);
          c2 = (case i of Some v \<Rightarrow> if truthy_str v then params_set ''queue'' v c1 else c1 | None \<Rightarrow> c1)
      in (''/ojs/v1/admin/stats/history?'' @ params_toString c2, None))"

definition queues :: "int \<Rightarrow> int \<Rightarrow> call" where
  "queues t a =
     (''/ojs/v1/admin/queues?page='' @ show_int t @ ''&per_page='' @ show_int a, None)"

definition queue :: "string \<Rightarrow> call" where
  "queue t = (''/ojs/v1/admin/queues/'' @ encodeURIComponent t, None)"

definition pauseQueue :: "string \<Rightarrow> call" where
  "pauseQueue t =
     (''/ojs/v1/admin/queues/'' @ encodeURIComponent t @ ''/pause'', Some (with_method ''POST''))"

definition resumeQueue :: "string \<Rightarrow> call" where
  "resumeQueue t =
     (''/ojs/v1/admin/queues/'' @ encodeURIComponent t @ ''/resume'', Some (with_method ''POST''))"

definition purgeQueue :: "string \<Rightarrow> json option \<Rightarrow> json option \<Rightarrow> call" where
  "purgeQueue t a i =
     (''/ojs/v1/admin/queues/'' @ encodeURIComponent t @ ''/jobs'',
      Some (with_body ''DELETE''
        (json_obj [(''states'', a), (''older_than'', i), (''confirm'', Some (JBool True))])))"

text \<open>The values of a filter object: a string, a number, or \<open>undefined\<close>; \<open>String(c)\<close>.\<close>

datatype filter_val = FUndef | FStr string | FInt int

fun filter_string :: "filter_val \<Rightarrow> string option" where
  "filter_string FUndef = None"
| "filter_string (FStr s) = Some s"
| "filter_string (FInt i) = Some (show_int i)"

text \<open>\<open>Object.entries(t).forEach(([i, c]) => c !== undefined && a.set(i, String(c)))\<close>.\<close>

fun set_filters :: "(string \<times> filter_val) list \<Rightarrow> (string \<times> string) list \<Rightarrow> (string \<times> string) list" where
  "set_filters [] a = a"
| "set_filters ((i, c) # t) a =
     set_filters t (case filter_string c of None \<Rightarrow> a | Some v \<Rightarrow> params_set i v a)"

definition jobs :: "(string \<times> filter_val) list \<Rightarrow> call" where
  "jobs t = (''/ojs/v1/admin/jobs?'' @ params_toString (set_filters t []), None)"

definition job :: "string \<Rightarrow> call" where
  "job t = (''/ojs/v1/admin/jobs/'' @ encodeURIComponent t, None)"

definition retryJob :: "string \<Rightarrow> call" where
  "retryJob t =
     (''/ojs/v1/admin/jobs/'' @ encodeURIComponent t @ ''/retry'', Some (with_method ''POST''))"

definition cancelJob :: "string \<Rightarrow> call" where
  "cancelJob t =
     (''/ojs/v1/admin/jobs/'' @ encodeURIComponent t @ ''/cancel'', Some (with_method ''POST''))"

definition bulkRetry :: "json \<Rightarrow> call" where
  "bulkRetry t =
     (''/ojs/v1/admin/jobs/bulk/retry'',
      Some (with_body ''POST'' (json_obj [(''filter'', Some t), (''confirm'', Some (JBool True))])))"

definition bulkCancel :: "json \<Rightarrow> call" where
  "bulkCancel t =
     (''/ojs/v1/admin/jobs/bulk/cancel'',
      Some (with_body ''POST'' (json_obj [(''filter'', Some t), (''confirm'', Some (JBool True))])))"

definition workers :: "int \<Rightarrow> int \<Rightarrow> call" where
  "workers t a =
     (''/ojs/v1/admin/workers?page='' @ show_int t @ ''&per_page='' @ show_int a, None)"

definition quietWorker :: "string \<Rightarrow> call" where
  "quietWorker t =
     (''/ojs/v1/admin/workers/'' @ encodeURIComponent t @ ''/quiet'', Some (with_method ''POST''))"

definition deregisterWorker :: "string \<Rightarrow> call" where
  "deregisterWorker t =
     (''/ojs/v1/admin/workers/'' @ encodeURIComponent t, Some (with_method ''DELETE''))"

definition deadLetter :: "(string \<times> filter_val) list \<Rightarrow> call" where
  "deadLetter t = (''/ojs/v1/admin/dead-letter?'' @ params_toString (set_filters t []), None)"

definition deadLetterStats :: call where
  "deadLetterStats = (''/ojs/v1/admin/dead-letter/stats'', None)"

definition retryDeadLetter :: "string \<Rightarrow> call" where
  "retryDeadLetter t =
     (''/ojs/v1/admin/dead-letter/'' @ encodeURIComponent t @ ''/retry'', Some (with_method ''POST''))"

definition deleteDeadLetter :: "string \<Rightarrow> call" where
  "deleteDeadLetter t =
     (''/ojs/v1/admin/dead-letter/'' @ encodeURIComponent t, Some (with_method ''DELETE''))"

definition bulkRetryDeadLetter :: "json \<Rightarrow> call" where
  "bulkRetryDeadLetter t =
     (''/ojs/v1/admin/dead-letter/retry'',
      Some (with_body ''POST'' (json_obj [(''filter'', Some t), (''confirm'', Some (JBool True))])))"

definition health :: call where
  "health = (''/ojs/v1/health'', None)"

text \<open>One constructor per method, so that a component can name the call it makes.\<close>

datatype api_call =
    Manifest | Stats | StatsHistory string "string option" "string option"
  | Queues int int | Queue string | PauseQueue string | ResumeQueue string
  | PurgeQueue string "json option" "json option"
  | Jobs "(string \<times> filter_val) list" | Job string | RetryJob string | CancelJob string
  | BulkRetry json | BulkCancel json
  | Workers int int | QuietWorker string | DeregisterWorker string
  | DeadLetter "(string \<times> filter_val) list" | DeadLetterStats | RetryDeadLetter string
  | DeleteDeadLetter string | BulkRetryDeadLetter json | Health

fun call_args :: "api_call \<Rightarrow> call" where
  "call_args Manifest = manifest"
| "call_args Stats = stats"
| "call_args (StatsHistory t a i) = statsHistory t a i"
| "call_args (Queues t a) = queues t a"
| "call_args (Queue t) = queue t"
| "call_args (PauseQueue t) = pauseQueue t"
| "call_args (ResumeQueue t) = resumeQueue t"
| "call_args (PurgeQueue t a i) = purgeQueue t a i"
| "call_args (Jobs t) = jobs t"
| "call_args (Job t) = job t"
| "call_args (RetryJob t) = retryJob t"
| "call_args (CancelJob t) = cancelJob t"
| "call_args (BulkRetry t) = bulkRetry t"
| "call_args (BulkCancel t) = bulkCancel t"
| "call_args (Workers t a) = workers t a"
| "call_args (QuietWorker t) = quietWorker t"
| "call_args (DeregisterWorker t) = deregisterWorker t"
| "call_args (DeadLetter t) = deadLetter t"
| "call_args DeadLetterStats = deadLetterStats"
| "call_args (RetryDeadLetter t) = retryDeadLetter t"
| "call_args (DeleteDeadLetter t) = deleteDeadLetter t"
| "call_args (BulkRetryDeadLetter t) = bulkRetryDeadLetter t"
| "call_args Health = health"

definition api_request :: "string \<Rightarrow> api_call \<Rightarrow> fetch_request" where
  "api_request baseUrl c = build_request baseUrl (fst (call_args c)) (snd (call_args c))"

lemmas client_defs [js_defs] =
  manifest_def stats_def statsHistory_def queues_def queue_def pauseQueue_def resumeQueue_def
  purgeQueue_def jobs_def job_def retryJob_def cancelJob_def bulkRetry_def bulkCancel_def
  workers_def quietWorker_def deregisterWorker_def deadLetter_def deadLetterStats_def
  retryDeadLetter_def deleteDeadLetter_def bulkRetryDeadLetter_def health_def
  with_method_def with_body_def

section \<open>What the server receives\<close>

text \<open>The calls that address one entity: the path segments around the identifier.\<close>

fun entity_of :: "api_call \<Rightarrow> (string \<times> string \<times> string list) option" where
  "entity_of (Queue t) = Some (''queues'', t, [])"
| "entity_of (PauseQueue t) = Some (''queues'', t, [''pause''])"
| "entity_of (ResumeQueue t) = Some (''queues'', t, [''resume''])"
| "entity_of (PurgeQueue t a i) = Some (''queues'', t, [''jobs''])"
| "entity_of (Job t) = Some (''jobs'', t, [])"
| "entity_of (RetryJob t) = Some (''jobs'', t, [''retry''])"
| "entity_of (CancelJob t) = Some (''jobs'', t, [''cancel''])"
| "entity_of (QuietWorker t) = Some (''workers'', t, [''quiet''])"
| "entity_of (DeregisterWorker t) = Some (''workers'', t, [])"
| "entity_of (RetryDeadLetter t) = Some (''dead-letter'', t, [''retry''])"
| "entity_of (DeleteDeadLetter t) = Some (''dead-letter'', t, [])"
| "entity_of _ = None"

abbreviation admin_root :: "string list" where
  "admin_root \<equiv> ['''', ''ojs'', ''v1'', ''admin'']"

lemma entity_path:
  assumes "entity_of c = Some (res, t, suf)"
  shows "fst (call_args c) = join_with ''/'' (admin_root @ res # encodeURIComponent t # suf)"
  using assms by (cases c) (auto simp: client_defs)

lemma entity_segments:
  assumes "entity_of c = Some (res, t, suf)"
  shows "split_on (CHR ''/'') (fst (call_args c)) = admin_root @ res # encodeURIComponent t # suf"
proof -
  have "\<forall>x \<in> set (res # suf). CHR ''/'' \<notin> set x"
    using assms by (cases c) auto
  then have "\<forall>x \<in> set (admin_root @ res # encodeURIComponent t # suf). CHR ''/'' \<notin> set x"
    by (auto simp: encode_no_delimiter)
  then show ?thesis
    unfolding entity_path [OF assms] by (intro split_join) auto
qed

lemma decode_plain_segment:
  "CHR ''%'' \<notin> set s \<Longrightarrow> decodeURIComponent s = Some s"
  by (induction s) auto

definition defined_filters :: "(string \<times> filter_val) list \<Rightarrow> (string \<times> string) list" where
  "defined_filters t =
     concat (map (\<lambda>(k, v). case filter_string v of None \<Rightarrow> [] | Some s \<Rightarrow> [(k, s)]) t)"

lemma params_set_new: "k \<notin> fst ` set a \<Longrightarrow> params_set k v a = a @ [(k, v)]"
  by (induction a) auto

lemma set_filters_distinct:
  "distinct (map fst t) \<Longrightarrow> fst ` set a \<inter> fst ` set t = {} \<Longrightarrow>
   set_filters t a = a @ defined_filters t"
proof (induction t a rule: set_filters.induct)
  case (1 a)
  then show ?case by (simp add: defined_filters_def)
next
  case (2 i c t a)
  then have "params_set i v a = a @ [(i, v)]" for v
    by (intro params_set_new) auto
  with 2 show ?case
    by (cases "filter_string c") (auto simp: defined_filters_def)
qed

lemma set_filters_defined:
  "distinct (map fst t) \<Longrightarrow> set_filters t [] = defined_filters t"
  using set_filters_distinct [of t "[]"] by simp



text \<open>C25: the query string of a job listing, parsed as a form on the server, is the
  list of the filters that are defined, each with its value, in order; undefined
  filters are absent.\<close>

theorem jobs_query_roundtrip:
  assumes "distinct (map fst t)" and "defined_filters t \<noteq> []"
  shows "fst (jobs t) = ''/ojs/v1/admin/jobs?'' @ params_toString (defined_filters t)
     \<and> parse_query (params_toString (defined_filters t)) = map Some (defined_filters t)"
  using assms by (simp add: jobs_def set_filters_defined parse_query_params)

theorem jobs_query_roundtrip_witness:
  "fst (jobs [(''queue'', FStr ''a&b''), (''state'', FUndef), (''page'', FInt 2)])
     = ''/ojs/v1/admin/jobs?'' @ params_toString [(''queue'', ''a&b''), (''page'', ''2'')]
   \<and> parse_query (params_toString [(''queue'', ''a&b''), (''page'', ''2'')])
     = map Some [(''queue'', ''a&b''), (''page'', ''2'')]"
proof -
  have d: "defined_filters [(''queue'', FStr ''a&b''), (''state'', FUndef), (''page'', FInt 2)]
      = [(''queue'', ''a&b''), (''page'', ''2'')]"
    by code_simp
  show ?thesis
    using jobs_query_roundtrip [of "[(''queue'', FStr ''a&b''), (''state'', FUndef), (''page'', FInt 2)]"]
    unfolding d by simp
qed

text \<open>C26: the outcome of a request is decided by the response alone: it rejects with
  an \<open>ApiRequestError\<close> carrying the status exactly for a status outside 200..299,
  resolves to \<open>undefined\<close> exactly for 204, and otherwise resolves to the parsed
  body, an unparsable body being a rejection.\<close>

theorem request_outcomes:
  "((\<exists>m c. request b t a fetch = Inl (ApiRequestError s m c))
      \<longleftrightarrow> (\<exists>r. fetch (build_request b t a) = Responded r \<and> rs_status r = s \<and> \<not> (200 \<le> s \<and> s \<le> 299)))
   \<and> (request b t a fetch = Inr None
      \<longleftrightarrow> (\<exists>r. fetch (build_request b t a) = Responded r \<and> rs_status r = 204))
   \<and> (request b t a fetch = Inr (Some j)
      \<longleftrightarrow> (\<exists>r. fetch (build_request b t a) = Responded r \<and> rs_ok r \<and> rs_status r \<noteq> 204 \<and> rs_json r = Some j))"
  by (auto simp: request_def request_result_def api_error_def rs_ok_def Let_def
      split: fetch_outcome.splits option.splits if_splits)

definition read_only_call :: "api_call \<Rightarrow> bool" where
  "read_only_call c \<longleftrightarrow>
     (case c of
        PauseQueue _ \<Rightarrow> False | ResumeQueue _ \<Rightarrow> False | PurgeQueue _ _ _ \<Rightarrow> False
      | RetryJob _ \<Rightarrow> False | CancelJob _ \<Rightarrow> False | BulkRetry _ \<Rightarrow> False | BulkCancel _ \<Rightarrow> False
      | QuietWorker _ \<Rightarrow> False | DeregisterWorker _ \<Rightarrow> False | RetryDeadLetter _ \<Rightarrow> False
      | DeleteDeadLetter _ \<Rightarrow> False | BulkRetryDeadLetter _ \<Rightarrow> False | _ \<Rightarrow> True)"

text \<open>Every request of the client announces a JSON body; it is a GET without a
  body exactly for the calls that only read, and a bulk or purge call always
  carries \<open>confirm: true\<close>.\<close>

lemma client_requests_wellformed:
  "rq_headers (api_request b c) = [(''Content-Type'', ''application/json'')]
   \<and> (rq_method (api_request b c) = ''GET'' \<longleftrightarrow> read_only_call c)
   \<and> (read_only_call c \<longrightarrow> rq_body (api_request b c) = None)
   \<and> (case rq_body (api_request b c) of
        None \<Rightarrow> True | Some j \<Rightarrow> js_prop j ''confirm'' = Some (JBool True))"
  by (cases c)
    (auto simp: api_request_def build_request_def client_defs read_only_call_def json_obj_def Let_def
      split: option.splits)

text \<open>Options that carry their own headers replace the merged ones: the content type
  is lost. No method of the client passes headers.\<close>

lemma custom_headers_drop_content_type:
  "rq_headers (build_request b t (Some (with_method m \<lparr>fi_headers := Some hs\<rparr>))) = hs"
  by (simp add: build_request_def with_method_def Let_def)

end
