(* ===== verification/Server_Routes.thy ===== *)
theory Server_Routes
  imports Admin_Client
begin

text \<open>
  The route table of the HTTP server (\<open>internal/server/server.go\<close>,
  \<open>NewRouterWithRealtime\<close>): method, pattern and handler of every route it
  registers itself. A pattern segment in braces matches any one segment. The
  router (package chi) is not part of the repository: its dispatch function is
  a parameter, restricted by the two documented facts the property relies on.
\<close>

definition routes :: "(string \<times> string \<times> string) list" where
  "routes =
  [
   (''GET'', ''/ojs/manifest'', ''systemHandler.Manifest''),
   (''GET'', ''/ojs/v1/health'', ''systemHandler.Health''),
   (''GET'', ''/healthz'', ''systemHandler.Healthz''),
   (''GET'', ''/readyz'', ''systemHandler.Readyz''),
   (''POST'', ''/ojs/v1/jobs'', ''jobHandler.Create''),
   (''GET'', ''/ojs/v1/jobs/{id}'', ''jobHandler.Get''),
   (''DELETE'', ''/ojs/v1/jobs/{id}'', ''jobHandler.Cancel''),
   (''POST'', ''/ojs/v1/jobs/batch'', ''batchHandler.Create''),
   (''POST'', ''/ojs/v1/workers/fetch'', ''workerHandler.Fetch''),
   (''POST'', ''/ojs/v1/workers/ack'', ''workerHandler.Ack''),
   (''POST'', ''/ojs/v1/workers/nack'', ''workerHandler.Nack''),
   (''POST'', ''/ojs/v1/workers/heartbeat'', ''workerHandler.Heartbeat''),
   (''GET'', ''/ojs/v1/queues'', ''queueHandler.List''),
   (''GET'', ''/ojs/v1/queues/{name}/stats'', ''queueHandler.Stats''),
   (''POST'', ''/ojs/v1/queues/{name}/pause'', ''queueHandler.Pause''),
   (''POST'', ''/ojs/v1/queues/{name}/resume'', ''queueHandler.Resume''),
   (''GET'', ''/ojs/v1/dead-letter'', ''deadLetterHandler.List''),
   (''POST'', ''/ojs/v1/dead-letter/{id}/retry'', ''deadLetterHandler.Retry''),
   (''DELETE'', ''/ojs/v1/dead-letter/{id}'', ''deadLetterHandler.Delete''),
   (''GET'', ''/ojs/v1/cron'', ''cronHandler.List''),
   (''POST'', ''/ojs/v1/cron'', ''cronHandler.Register''),
   (''DELETE'', ''/ojs/v1/cron/{name}'', ''cronHandler.Delete''),
   (''POST'', ''/ojs/v1/workflows'', ''workflowHandler.Create''),
   (''GET'', ''/ojs/v1/workflows/{id}'', ''workflowHandler.Get''),
   (''DELETE'', ''/ojs/v1/workflows/{id}'', ''workflowHandler.Cancel''),
   (''POST'', ''/ojs/v1/schemas'', ''schemaHandler.HandleRegister''),
   (''GET'', ''/ojs/v1/schemas/{jobType}'', ''schemaHandler.HandleGetLatest''),
   (''GET'', ''/ojs/v1/schemas/{jobType}/versions'', ''schemaHandler.HandleListVersions''),
   (''GET'', ''/ojs/v1/schemas/{jobType}/versions/{version}'', ''schemaHandler.HandleGetVersion''),
   (''POST'', ''/ojs/v1/schemas/{jobType}/validate'', ''schemaHandler.HandleValidate''),
   (''PUT'', ''/ojs/v1/schemas/{jobType}/compatibility'', ''schemaHandler.HandleSetCompatibility''),
   (''DELETE'', ''/ojs/v1/schemas/{jobType}'', ''schemaHandler.HandleDelete''),
   (''DELETE'', ''/ojs/v1/schemas/{jobType}/versions/{version}'', ''schemaHandler.HandleDelete''),
   (''GET'', ''/ojs/v1/admin/stats'', ''adminHandler.Stats''),
   (''GET'', ''/ojs/v1/admin/queues'', ''adminHandler.ListQueues''),
   (''GET'', ''/ojs/v1/admin/queues/{name}'', ''adminHandler.GetQueue''),
   (''POST'', ''/ojs/v1/admin/queues/{name}/pause'', ''adminHandler.PauseQueue''),
   (''POST'', ''/ojs/v1/admin/queues/{name}/resume'', ''adminHandler.ResumeQueue''),
   (''GET'', ''/ojs/v1/admin/jobs'', ''adminHandler.ListJobs''),
   (''GET'', ''/ojs/v1/admin/jobs/{id}'', ''adminHandler.GetJob''),
   (''POST'', ''/ojs/v1/admin/jobs/{id}/retry'', ''adminHandler.RetryJob''),
   (''POST'', ''/ojs/v1/admin/jobs/{id}/cancel'', ''adminHandler.CancelJob''),
   (''POST'', ''/ojs/v1/admin/jobs/bulk/retry'', ''adminHandler.BulkRetry''),
   (''GET'', ''/ojs/v1/admin/workers'', ''adminHandler.ListWorkers''),
   (''POST'', ''/ojs/v1/admin/workers/{id}/quiet'', ''adminHandler.QuietWorker''),
   (''GET'', ''/ojs/v1/admin/dead-letter'', ''adminHandler.ListDeadLetter''),
   (''GET'', ''/ojs/v1/admin/dead-letter/stats'', ''adminHandler.DeadLetterStats''),
   (''POST'', ''/ojs/v1/admin/dead-letter/{id}/retry'', ''adminHandler.RetryDeadLetter''),
   (''DELETE'', ''/ojs/v1/admin/dead-letter/{id}'', ''adminHandler.DeleteDeadLetter''),
   (''POST'', ''/ojs/v1/admin/dead-letter/retry'', ''adminHandler.BulkRetryDeadLetter''),
   (''GET'', ''/ojs/v1/jobs/{id}/events'', ''sseHandler.JobEvents''),
   (''GET'', ''/ojs/v1/queues/{name}/events'', ''sseHandler.QueueEvents''),
   (''GET'', ''/ojs/v1/ws'', ''nativeWSHandler.Handle''),
   (''GET'', ''/ojs/v1/ws/connect'', ''wsBridgeHandler.Connect''),
   (''POST'', ''/ojs/v1/ws/subscribe'', ''wsBridgeHandler.Subscribe''),
   (''POST'', ''/ojs/v1/ws/unsubscribe'', ''wsBridgeHandler.Unsubscribe'')]"

definition is_wildcard :: "string \<Rightarrow> bool" where
  "is_wildcard s \<longleftrightarrow> starts_with s ''{'' \<and> ends_with s ''}''"

fun segments_match :: "string list \<Rightarrow> string list \<Rightarrow> bool" where
  "segments_match [] [] = True"
| "segments_match (p # ps) (s # ss) = ((is_wildcard p \<or> p = s) \<and> segments_match ps ss)"
| "segments_match _ _ = False"

definition pattern_matches :: "string \<Rightarrow> string \<Rightarrow> bool" where
  "pattern_matches pat path =
     segments_match (split_on (CHR ''/'') pat) (split_on (CHR ''/'') path)"

text \<open>The path of a request is its URL up to the query.\<close>

definition path_of :: "string \<Rightarrow> string" where
  "path_of u = takeWhile (\<lambda>c. c \<noteq> CHR ''?'') u"

definition first_route :: "string \<Rightarrow> string \<Rightarrow> string option" where
  "first_route m path =
     map_option (\<lambda>(_, _, h). h)
       (find (\<lambda>(m', pat, _). m' = m \<and> pattern_matches pat path) routes)"

section \<open>Matching against the compiled table\<close>

definition compiled :: "(string \<times> string option list) list" where
  "compiled =
     map (\<lambda>(m, pat, _). (m, map (\<lambda>s. if is_wildcard s then None else Some s) (split_on (CHR ''/'') pat)))
       routes"

fun compiled_match :: "string option list \<Rightarrow> string list \<Rightarrow> bool" where
  "compiled_match [] [] = True"
| "compiled_match (None # ps) (s # ss) = compiled_match ps ss"
| "compiled_match (Some p # ps) (s # ss) = (p = s \<and> compiled_match ps ss)"
| "compiled_match _ _ = False"

definition registered :: "string \<Rightarrow> string list \<Rightarrow> bool" where
  "registered m ss \<longleftrightarrow> list_ex (\<lambda>(m', ps). m' = m \<and> compiled_match ps ss) compiled"

lemma compiled_match_segments:
  "compiled_match (map (\<lambda>s. if is_wildcard s then None else Some s) ps) ss = segments_match ps ss"
  by (induction ps ss rule: segments_match.induct) auto

lemma registered_iff:
  "registered m (split_on (CHR ''/'') path) \<longleftrightarrow>
     (\<exists>pat h. (m, pat, h) \<in> set routes \<and> pattern_matches pat path)"
  by (force simp: registered_def compiled_def list_ex_iff compiled_match_segments pattern_matches_def)

lemma compiled_table:
  "compiled =
 [(''GET'', [Some [], Some ''ojs'', Some ''manifest'']),
   (''GET'', [Some [], Some ''ojs'', Some ''v1'', Some ''health'']),
   (''GET'', [Some [], Some ''healthz'']),
   (''GET'', [Some [], Some ''readyz'']),
   (''POST'', [Some [], Some ''ojs'', Some ''v1'', Some ''jobs'']),
   (''GET'', [Some [], Some ''ojs'', Some ''v1'', Some ''jobs'', None]),
   (''DELETE'', [Some [], Some ''ojs'', Some ''v1'', Some ''jobs'', None]),
   (''POST'',
    [Some [], Some ''ojs'', Some ''v1'', Some ''jobs'', Some ''batch'']),
   (''POST'',
    [Some [], Some ''ojs'', Some ''v1'', Some ''workers'', Some ''fetch'']),
   (''POST'',
    [Some [], Some ''ojs'', Some ''v1'', Some ''workers'', Some ''ack'']),
   (''POST'',
    [Some [], Some ''ojs'', Some ''v1'', Some ''workers'', Some ''nack'']),
   (''POST'',
    [Some [], Some ''ojs'', Some ''v1'', Some ''workers'',
     Some ''heartbeat'']),
   (''GET'', [Some [], Some ''ojs'', Some ''v1'', Some ''queues'']),
   (''GET'',
    [Some [], Some ''ojs'', Some ''v1'', Some ''queues'', None,
     Some ''stats'']),
   (''POST'',
    [Some [], Some ''ojs'', Some ''v1'', Some ''queues'', None,
     Some ''pause'']),
   (''POST'',
    [Some [], Some ''ojs'', Some ''v1'', Some ''queues'', None,
     Some ''resume'']),
   (''GET'', [Some [], Some ''ojs'', Some ''v1'', Some ''dead-letter'']),
   (''POST'',
    [Some [], Some ''ojs'', Some ''v1'', Some ''dead-letter'', None,
     Some ''retry'']),
   (''DELETE'',
    [Some [], Some ''ojs'', Some ''v1'', Some ''dead-letter'', None]),
   (''GET'', [Some [], Some ''ojs'', Some ''v1'', Some ''cron'']),
   (''POST'', [Some [], Some ''ojs'', Some ''v1'', Some ''cron'']),
   (''DELETE'', [Some [], Some ''ojs'', Some ''v1'', Some ''cron'', None]),
   (''POST'', [Some [], Some ''ojs'', Some ''v1'', Some ''workflows'']),
   (''GET'', [Some [], Some ''ojs'', Some ''v1'', Some ''workflows'', None]),
   (''DELETE'',
    [Some [], Some ''ojs'', Some ''v1'', Some ''workflows'', None]),
   (''POST'', [Some [], Some ''ojs'', Some ''v1'', Some ''schemas'']),
   (''GET'', [Some [], Some ''ojs'', Some ''v1'', Some ''schemas'', None]),
   (''GET'',
    [Some [], Some ''ojs'', Some ''v1'', Some ''schemas'', None,
     Some ''versions'']),
   (''GET'',
    [Some [], Some ''ojs'', Some ''v1'', Some ''schemas'', None,
     Some ''versions'', None]),
   (''POST'',
    [Some [], Some ''ojs'', Some ''v1'', Some ''schemas'', None,
     Some ''validate'']),
   (''PUT'',
    [Some [], Some ''ojs'', Some ''v1'', Some ''schemas'', None,
     Some ''compatibility'']),
   (''DELETE'',
    [Some [], Some ''ojs'', Some ''v1'', Some ''schemas'', None]),
   (''DELETE'',
    [Some [], Some ''ojs'', Some ''v1'', Some ''schemas'', None,
     Some ''versions'', None]),
   (''GET'',
    [Some [], Some ''ojs'', Some ''v1'', Some ''admin'', Some ''stats'']),
   (''GET'',
    [Some [], Some ''ojs'', Some ''v1'', Some ''admin'', Some ''queues'']),
   (''GET'',
    [Some [], Some ''ojs'', Some ''v1'', Some ''admin'', Some ''queues'',
     None]),
   (''POST'',
    [Some [], Some ''ojs'', Some ''v1'', Some ''admin'', Some ''queues'',
     None, Some ''pause'']),
   (''POST'',
    [Some [], Some ''ojs'', Some ''v1'', Some ''admin'', Some ''queues'',
     None, Some ''resume'']),
   (''GET'',
    [Some [], Some ''ojs'', Some ''v1'', Some ''admin'', Some ''jobs'']),
   (''GET'',
    [Some [], Some ''ojs'', Some ''v1'', Some ''admin'', Some ''jobs'',
     None]),
   (''POST'',
    [Some [], Some ''ojs'', Some ''v1'', Some ''admin'', Some ''jobs'', None,
     Some ''retry'']),
   (''POST'',
    [Some [], Some ''ojs'', Some ''v1'', Some ''admin'', Some ''jobs'', None,
     Some ''cancel'']),
   (''POST'',
    [Some [], Some ''ojs'', Some ''v1'', Some ''admin'', Some ''jobs'',
     Some ''bulk'', Some ''retry'']),
   (''GET'',
    [Some [], Some ''ojs'', Some ''v1'', Some ''admin'', Some ''workers'']),
   (''POST'',
    [Some [], Some ''ojs'', Some ''v1'', Some ''admin'', Some ''workers'',
     None, Some ''quiet'']),
   (''GET'',
    [Some [], Some ''ojs'', Some ''v1'', Some ''admin'',
     Some ''dead-letter'']),
   (''GET'',
    [Some [], Some ''ojs'', Some ''v1'', Some ''admin'',
     Some ''dead-letter'', Some ''stats'']),
   (''POST'',
    [Some [], Some ''ojs'', Some ''v1'', Some ''admin'',
     Some ''dead-letter'', None, Some ''retry'']),
   (''DELETE'',
    [Some [], Some ''ojs'', Some ''v1'', Some ''admin'',
     Some ''dead-letter'', None]),
   (''POST'',
    [Some [], Some ''ojs'', Some ''v1'', Some ''admin'',
     Some ''dead-letter'', Some ''retry'']),
   (''GET'',
    [Some [], Some ''ojs'', Some ''v1'', Some ''jobs'', None,
     Some ''events'']),
   (''GET'',
    [Some [], Some ''ojs'', Some ''v1'', Some ''queues'', None,
     Some ''events'']),
   (''GET'', [Some [], Some ''ojs'', Some ''v1'', Some ''ws'']),
   (''GET'',
    [Some [], Some ''ojs'', Some ''v1'', Some ''ws'', Some ''connect'']),
   (''POST'',
    [Some [], Some ''ojs'', Some ''v1'', Some ''ws'', Some ''subscribe'']),
   (''POST'',
    [Some [], Some ''ojs'', Some ''v1'', Some ''ws'',
     Some ''unsubscribe''])]"
  by code_simp

definition unrouted_call :: "api_call \<Rightarrow> bool" where
  "unrouted_call c \<longleftrightarrow>
     (case c of StatsHistory _ _ _ \<Rightarrow> True | PurgeQueue _ _ _ \<Rightarrow> True | DeregisterWorker _ \<Rightarrow> True
      | _ \<Rightarrow> False)"

lemma registered_eval:
  "registered m ss \<longleftrightarrow> list_ex (\<lambda>(m', ps). m' = m \<and> compiled_match ps ss) compiled"
  by (simp add: registered_def)

lemma path_of_append:
  "CHR ''?'' \<notin> set s \<Longrightarrow> path_of (s @ CHR ''?'' # t) = s"
  "CHR ''?'' \<notin> set s \<Longrightarrow> path_of s = s"
  unfolding path_of_def
  by (induction s) auto

definition call_path :: "api_call \<Rightarrow> string" where
  "call_path c = path_of (rq_url (api_request [] c))"

definition call_method :: "api_call \<Rightarrow> string" where
  "call_method c = rq_method (api_request [] c)"

lemma api_request_simps:
  "rq_url (api_request b c) = b @ fst (call_args c)"
  "rq_method (api_request b c) = nullish (Option.bind (snd (call_args c)) fi_method) ''GET''"
  by (simp_all add: api_request_def build_request_def Let_def)

lemma entity_call_path:
  assumes "entity_of c = Some (res, t, suf)"
  shows "split_on (CHR ''/'') (call_path c) = admin_root @ res # encodeURIComponent t # suf"
proof -
  have "CHR ''?'' \<notin> set (join_with ''/'' (admin_root @ res # encodeURIComponent t # suf))"
    using assms by (cases c) (auto simp: encode_no_delimiter)
  then have "call_path c = fst (call_args c)"
    by (simp add: call_path_def api_request_simps entity_path [OF assms] path_of_append)
  with entity_segments [OF assms] show ?thesis by simp
qed

lemma plain_call_path:
  "split_on (CHR ''/'') (call_path Manifest) = ['''', ''ojs'', ''manifest'']"
  "split_on (CHR ''/'') (call_path Health) = ['''', ''ojs'', ''v1'', ''health'']"
  "split_on (CHR ''/'') (call_path Stats) = admin_root @ [''stats'']"
  "split_on (CHR ''/'') (call_path (StatsHistory x y z)) = admin_root @ [''stats'', ''history'']"
  "split_on (CHR ''/'') (call_path (Queues i j)) = admin_root @ [''queues'']"
  "split_on (CHR ''/'') (call_path (Jobs f)) = admin_root @ [''jobs'']"
  "split_on (CHR ''/'') (call_path (BulkRetry v)) = admin_root @ [''jobs'', ''bulk'', ''retry'']"
  "split_on (CHR ''/'') (call_path (BulkCancel v)) = admin_root @ [''jobs'', ''bulk'', ''cancel'']"
  "split_on (CHR ''/'') (call_path (Workers i j)) = admin_root @ [''workers'']"
  "split_on (CHR ''/'') (call_path (DeadLetter f)) = admin_root @ [''dead-letter'']"
  "split_on (CHR ''/'') (call_path DeadLetterStats) = admin_root @ [''dead-letter'', ''stats'']"
  "split_on (CHR ''/'') (call_path (BulkRetryDeadLetter v)) = admin_root @ [''dead-letter'', ''retry'']"
  by (simp_all add: call_path_def api_request_simps client_defs path_of_def Let_def)

lemma registered_admin:
  "registered m (admin_root @ ss) \<longleftrightarrow> list_ex (\<lambda>(m', ps). m' = m \<and> compiled_match ps ss)
   [(''GET'', [Some ''stats'']),
    (''GET'', [Some ''queues'']),
    (''GET'', [Some ''queues'', None]),
    (''POST'', [Some ''queues'', None, Some ''pause'']),
    (''POST'', [Some ''queues'', None, Some ''resume'']),
    (''GET'', [Some ''jobs'']),
    (''GET'', [Some ''jobs'', None]),
    (''POST'', [Some ''jobs'', None, Some ''retry'']),
    (''POST'', [Some ''jobs'', None, Some ''cancel'']),
    (''POST'', [Some ''jobs'', Some ''bulk'', Some ''retry'']),
    (''GET'', [Some ''workers'']),
    (''POST'', [Some ''workers'', None, Some ''quiet'']),
    (''GET'', [Some ''dead-letter'']),
    (''GET'', [Some ''dead-letter'', Some ''stats'']),
    (''POST'', [Some ''dead-letter'', None, Some ''retry'']),
    (''DELETE'', [Some ''dead-letter'', None]),
    (''POST'', [Some ''dead-letter'', Some ''retry''])]"
  by (simp add: registered_eval compiled_table)

lemmas call_eval = call_method_def api_request_simps client_defs unrouted_call_def

lemma registered_entity:
  assumes "entity_of c = Some (res, t, suf)"
  shows "registered (call_method c) (admin_root @ res # encodeURIComponent t # suf) \<longleftrightarrow> \<not> unrouted_call c"
  unfolding registered_admin using assms by (cases c; clarsimp simp: call_eval)

lemma registered_call:
  "registered (call_method c) (split_on (CHR ''/'') (call_path c)) \<longleftrightarrow> \<not> unrouted_call c"
proof (cases "entity_of c")
  case None
  then show ?thesis
    by (cases c)
      (simp_all add: plain_call_path registered_eval compiled_table call_eval Let_def)
next
  case (Some e)
  then obtain res t suf where e: "entity_of c = Some (res, t, suf)" by (cases e) auto
  then show ?thesis
    unfolding entity_call_path [OF e] by (rule registered_entity)
qed

lemma encode_not_Nil: "t \<noteq> [] \<Longrightarrow> encodeURIComponent t \<noteq> []"
  by (cases t) (auto simp: encode_Cons percent_def)

lemma unrouted_under_admin: "unrouted_call c \<Longrightarrow> take 4 (split_on (CHR ''/'') (call_path c)) = admin_root"
  by (cases c) (auto simp: unrouted_call_def plain_call_path entity_call_path)

lemma call_segments_nonempty:
  assumes "\<And>res t suf. entity_of c = Some (res, t, suf) \<Longrightarrow> t \<noteq> []"
  shows "[] \<notin> set (tl (split_on (CHR ''/'') (call_path c)))"
proof (cases "entity_of c")
  case None
  then show ?thesis by (cases c) (simp_all add: plain_call_path)
next
  case (Some e)
  then obtain res t suf where e: "entity_of c = Some (res, t, suf)" by (cases e) auto
  then have "t \<noteq> []" "res \<noteq> []" "[] \<notin> set suf" using assms by (cases c; auto)+
  with e show ?thesis by (auto simp: entity_call_path [OF e] dest: encode_not_Nil)
qed

text \<open>C27: which calls of the dashboard's client the server can serve. For every router
  that dispatches a path under \<open>/ojs/v1/admin\<close> only to a registered route that
  matches it, and dispatches every path with non-empty segments that matches a
  registered route, a call is unrouted exactly when it is the statistics history,
  the queue purge or the removal of a worker.\<close>

theorem admin_calls_unrouted:
  fixes dispatch :: "string \<Rightarrow> string \<Rightarrow> string option"
  assumes sound: "\<And>m p h. dispatch m p = Some h \<Longrightarrow> take 4 (split_on (CHR ''/'') p) = admin_root
                    \<Longrightarrow> \<exists>pat. (m, pat, h) \<in> set routes \<and> pattern_matches pat p"
    and complete: "\<And>m pat h p. (m, pat, h) \<in> set routes \<Longrightarrow> pattern_matches pat p
                    \<Longrightarrow> [] \<notin> set (tl (split_on (CHR ''/'') p)) \<Longrightarrow> dispatch m p \<noteq> None"
    and ident: "\<And>res t suf. entity_of c = Some (res, t, suf) \<Longrightarrow> t \<noteq> []"
  shows "dispatch (call_method c) (call_path c) = None \<longleftrightarrow> unrouted_call c"
proof
  have ne: "[] \<notin> set (tl (split_on (CHR ''/'') (call_path c)))"
    by (rule call_segments_nonempty) (rule ident)
  assume "dispatch (call_method c) (call_path c) = None"
  with ne have "\<not> (\<exists>pat h. (call_method c, pat, h) \<in> set routes \<and> pattern_matches pat (call_path c))"
    using complete by blast
  then show "unrouted_call c"
    using registered_call registered_iff by blast
next
  assume u: "unrouted_call c"
  then have "\<not> (\<exists>pat h. (call_method c, pat, h) \<in> set routes \<and> pattern_matches pat (call_path c))"
    using registered_call registered_iff by blast
  then show "dispatch (call_method c) (call_path c) = None"
    using sound unrouted_under_admin [OF u] by (meson not_None_eq)
qed

lemma first_route_sound:
  "first_route m p = Some h \<Longrightarrow> \<exists>pat. (m, pat, h) \<in> set routes \<and> pattern_matches pat p"
  by (auto simp: first_route_def find_Some_iff) (metis nth_mem)

lemma first_route_complete:
  "(m, pat, h) \<in> set routes \<Longrightarrow> pattern_matches pat p \<Longrightarrow> first_route m p \<noteq> None"
  by (auto simp: first_route_def find_None_iff)

theorem admin_calls_unrouted_witness:
  "first_route (call_method (DeregisterWorker ''w1'')) (call_path (DeregisterWorker ''w1'')) = None"
proof -
  have "first_route (call_method (DeregisterWorker ''w1'')) (call_path (DeregisterWorker ''w1'')) = None
      \<longleftrightarrow> unrouted_call (DeregisterWorker ''w1'')"
    by (rule admin_calls_unrouted) (auto dest: first_route_sound first_route_complete)
  then show ?thesis by (simp add: unrouted_call_def)
qed

text \<open>The bulk cancellation has no route of its own: the only registered route its
  path matches is the cancellation of the single job \<open>bulk\<close>.\<close>

lemma bulk_cancel_misrouted:
  "(call_method (BulkCancel f), pat, h) \<in> set routes \<and> pattern_matches pat (call_path (BulkCancel f))
     \<longleftrightarrow> pat = ''/ojs/v1/admin/jobs/{id}/cancel'' \<and> h = ''adminHandler.CancelJob''"
proof -
  have "list_all (\<lambda>(m, pat, h). (m = ''POST'' \<and> pattern_matches pat ''/ojs/v1/admin/jobs/bulk/cancel'')
      \<longleftrightarrow> (m = ''POST'' \<and> pat = ''/ojs/v1/admin/jobs/{id}/cancel'' \<and> h = ''adminHandler.CancelJob'')) routes"
    by code_simp
  moreover have "(''POST'', ''/ojs/v1/admin/jobs/{id}/cancel'', ''adminHandler.CancelJob'') \<in> set routes"
    by (simp add: routes_def)
  moreover have "call_path (BulkCancel f) = ''/ojs/v1/admin/jobs/bulk/cancel''"
    "call_method (BulkCancel f) = ''POST''"
    by (simp_all add: call_path_def call_method_def api_request_simps client_defs path_of_def)
  ultimately show ?thesis by (auto simp: list_all_iff)
qed

end
