(* ===== verification/Sched_Heap.thy ===== *)
theory Sched_Heap
  imports Js_Number
begin

text \<open>
  The array heap of the React scheduler (\<open>push\<close>, \<open>peek\<close> and \<open>pop\<close>, the
  functions \<open>t\<close>, \<open>a\<close> and \<open>i\<close> of the bundled \<open>scheduler.production.js\<close>), for any
  comparison function; the interface \<open>heap_order\<close> lists what the comparison
  must satisfy, and the heap laws are proved once inside it.
\<close>

section \<open>The operations\<close>

text \<open>\<open>push\<close>: the loop that moves the new node up. The node already sits at index
  \<open>fe\<close>; its parent is at \<open>fe - 1 >>> 1\<close>.\<close>

function sift_up :: "('a \<Rightarrow> 'a \<Rightarrow> jnum) \<Rightarrow> 'a list \<Rightarrow> nat \<Rightarrow> 'a \<Rightarrow> 'a list" where
  "sift_up c V fe W =
     (if 0 < fe then
        let Ee = (fe - 1) div 2; ae = V ! Ee
        in if 0 < c ae W then sift_up c (V[Ee := W, fe := ae]) Ee W else V
      else V)"
  by pat_completeness auto
termination
  by (relation "measure (\<lambda>(c, V, fe, W). fe)") auto

declare sift_up.simps [simp del]

definition heap_push :: "('a \<Rightarrow> 'a \<Rightarrow> jnum) \<Rightarrow> 'a list \<Rightarrow> 'a \<Rightarrow> 'a list" where
  "heap_push c V W = sift_up c (V @ [W]) (length V) W"

definition heap_peek :: "'a list \<Rightarrow> 'a option" where
  "heap_peek V = (if V = [] then None else Some (V ! 0))"

text \<open>\<open>pop\<close>: the loop that moves the last node down from the root. \<open>ae\<close> is the length,
  \<open>q = ae >>> 1\<close> the first index without a child.\<close>

function sift_down :: "('a \<Rightarrow> 'a \<Rightarrow> jnum) \<Rightarrow> 'a list \<Rightarrow> nat \<Rightarrow> 'a \<Rightarrow> 'a list" where
  "sift_down c V Ee fe =
     (let ae = length V; q = ae div 2
      in if Ee < q then
           let I = 2 * (Ee + 1) - 1; ce = V ! I; ye = I + 1; Ue = V ! ye
           in if c ce fe < 0 then
                (if ye < ae \<and> c Ue ce < 0
                 then sift_down c (V[Ee := Ue, ye := fe]) ye fe
                 else sift_down c (V[Ee := ce, I := fe]) I fe)
              else if ye < ae \<and> c Ue fe < 0
              then sift_down c (V[Ee := Ue, ye := fe]) ye fe
              else V
         else V)"
  by pat_completeness auto
termination
  by (relation "measure (\<lambda>(c, V, Ee, fe). length V - Ee)") auto

declare sift_down.simps [simp del]

definition heap_pop :: "('a \<Rightarrow> 'a \<Rightarrow> jnum) \<Rightarrow> 'a list \<Rightarrow> 'a option \<times> 'a list" where
  "heap_pop c V =
     (if V = [] then (None, V)
      else let W = V ! 0; fe = last V; V' = butlast V
           in (Some W, if fe \<noteq> W then sift_down c (V'[0 := fe]) 0 fe else V'))"

section \<open>The heap order\<close>

definition parent :: "nat \<Rightarrow> nat" where
  "parent i = (i - 1) div 2"

definition is_heap :: "('a \<Rightarrow> 'a \<Rightarrow> jnum) \<Rightarrow> 'a list \<Rightarrow> bool" where
  "is_heap c V \<longleftrightarrow> (\<forall>i < length V. 0 < i \<longrightarrow> c (V ! parent i) (V ! i) \<le> 0)"

lemma parent_less [simp]: "0 < i \<Longrightarrow> parent i < i"
  unfolding parent_def by linarith

lemma parent_child:
  "0 < i \<Longrightarrow> parent i = k \<longleftrightarrow> i = 2 * k + 1 \<or> i = 2 * k + 2"
  unfolding parent_def by presburger

lemma mset_swap_update:
  assumes "i < length V" "j < length V" "V ! j = x"
  shows "mset (V[i := x, j := V ! i]) = mset V"
  using assms mset_swap [of i V j] by (metis list_update_id list_update_swap)

lemma sift_up_length [simp]: "length (sift_up c V fe W) = length V"
proof (induction c V fe W rule: sift_up.induct)
  case (1 c V fe W)
  then show ?case by (subst sift_up.simps) (simp add: Let_def)
qed

lemma sift_up_mset:
  "fe < length V \<Longrightarrow> V ! fe = W \<Longrightarrow> mset (sift_up c V fe W) = mset V"
proof (induction c V fe W rule: sift_up.induct)
  case (1 c V fe W)
  show ?case
  proof (cases "0 < fe \<and> 0 < c (V ! ((fe - 1) div 2)) W")
    case True
    define Ee where "Ee = (fe - 1) div 2"
    have Ee: "Ee < length V" "Ee \<noteq> fe" using True "1.prems"(1) unfolding Ee_def by auto
    have up: "sift_up c V fe W = sift_up c (V[Ee := W, fe := V ! Ee]) Ee W"
      using True unfolding Ee_def by (subst sift_up.simps) (simp add: Let_def)
    have "mset (sift_up c (V[Ee := W, fe := V ! Ee]) Ee W) = mset (V[Ee := W, fe := V ! Ee])"
      using "1.IH" [of Ee "V ! Ee"] True Ee unfolding Ee_def by simp
    also have "\<dots> = mset V"
      using mset_swap_update [of Ee V fe W] Ee "1.prems" by simp
    finally show ?thesis by (simp add: up)
  next
    case False
    then show ?thesis by (subst sift_up.simps) (auto simp: Let_def)
  qed
qed

lemma sift_down_length [simp]: "length (sift_down c V Ee fe) = length V"
proof (induction c V Ee fe rule: sift_down.induct)
  case (1 c V Ee fe)
  then show ?case by (subst sift_down.simps) (simp add: Let_def)
qed

lemma sift_down_cases:
  obtains (stop) "sift_down c V Ee fe = V" "2 * Ee + 1 < length V \<longrightarrow> 0 \<le> c (V ! (2 * Ee + 1)) fe"
      "2 * Ee + 2 < length V \<longrightarrow> 0 \<le> c (V ! (2 * Ee + 2)) fe"
  | (left) "2 * Ee + 1 < length V" "c (V ! (2 * Ee + 1)) fe < 0"
      "2 * Ee + 2 < length V \<longrightarrow> 0 \<le> c (V ! (2 * Ee + 2)) (V ! (2 * Ee + 1))"
      "sift_down c V Ee fe = sift_down c (V[Ee := V ! (2 * Ee + 1), 2 * Ee + 1 := fe]) (2 * Ee + 1) fe"
  | (right) "2 * Ee + 2 < length V" "c (V ! (2 * Ee + 2)) fe < 0"
      "c (V ! (2 * Ee + 2)) (V ! (2 * Ee + 1)) < 0 \<or> 0 \<le> c (V ! (2 * Ee + 1)) fe"
      "sift_down c V Ee fe = sift_down c (V[Ee := V ! (2 * Ee + 2), 2 * Ee + 2 := fe]) (2 * Ee + 2) fe"
  | (right') "2 * Ee + 2 < length V" "c (V ! (2 * Ee + 1)) fe < 0"
      "c (V ! (2 * Ee + 2)) (V ! (2 * Ee + 1)) < 0"
      "sift_down c V Ee fe = sift_down c (V[Ee := V ! (2 * Ee + 2), 2 * Ee + 2 := fe]) (2 * Ee + 2) fe"
proof -
  let ?l = "2 * Ee + 1" and ?r = "2 * Ee + 2"
  note sd = sift_down.simps [of c V Ee fe]
  show ?thesis
  proof (cases "Ee < length V div 2")
    case False
    then have "\<not> ?l < length V" "\<not> ?r < length V" by linarith+
    with False show ?thesis by (intro stop) (simp_all add: sd)
  next
    case True
    then have l: "?l < length V" by linarith
    show ?thesis
    proof (cases "c (V ! ?l) fe < 0")
      case a: True
      show ?thesis
      proof (cases "?r < length V \<and> c (V ! ?r) (V ! ?l) < 0")
        case True
        with a l \<open>Ee < length V div 2\<close> show ?thesis
          by (intro right') (simp_all add: sd Let_def)
      next
        case False
        with a l \<open>Ee < length V div 2\<close> show ?thesis
          by (intro left) (auto simp: sd Let_def)
      qed
    next
      case a: False
      show ?thesis
      proof (cases "?r < length V \<and> c (V ! ?r) fe < 0")
        case True
        with a l \<open>Ee < length V div 2\<close> show ?thesis
          by (intro right) (simp_all add: sd Let_def)
      next
        case False
        with a l \<open>Ee < length V div 2\<close> show ?thesis
          by (intro stop) (auto simp: sd Let_def)
      qed
    qed
  qed
qed

text \<open>One step of the downward loop moves the smaller child \<open>k\<close> up; both steps that
  take the right child are the same step.\<close>

lemma sift_down_step:
  obtains (stop) "sift_down c V Ee fe = V"
      "\<And>k. k < length V \<Longrightarrow> 0 < k \<Longrightarrow> parent k = Ee \<Longrightarrow> 0 \<le> c (V ! k) fe"
  | (step) k where "k < length V" "0 < k" "parent k = Ee" "Ee < k"
      "sift_down c V Ee fe = sift_down c (V[Ee := V ! k, k := fe]) k fe"
      "k = 2 * Ee + 1 \<and> c (V ! k) fe < 0 \<and> (2 * Ee + 2 < length V \<longrightarrow> 0 \<le> c (V ! (2 * Ee + 2)) (V ! k))
       \<or> k = 2 * Ee + 2 \<and> (c (V ! k) fe < 0 \<and> 0 \<le> c (V ! (2 * Ee + 1)) fe
            \<or> c (V ! k) (V ! (2 * Ee + 1)) < 0 \<and> (c (V ! k) fe < 0 \<or> c (V ! (2 * Ee + 1)) fe < 0))"
proof (cases c V Ee fe rule: sift_down_cases)
  case stop
  then show ?thesis
    by (intro that(1)) (auto simp: parent_child)
next
  case left
  then show ?thesis
    by (intro that(2) [of "2 * Ee + 1"]) (auto simp: parent_child)
next
  case right
  then show ?thesis
    by (intro that(2) [of "2 * Ee + 2"]) (auto simp: parent_child)
next
  case right'
  then show ?thesis
    by (intro that(2) [of "2 * Ee + 2"]) (auto simp: parent_child)
qed

lemma sift_down_mset:
  "Ee < length V \<Longrightarrow> V ! Ee = fe \<Longrightarrow> mset (sift_down c V Ee fe) = mset V"
proof (induction "length V - Ee" arbitrary: V Ee rule: less_induct)
  case less
  show ?case
  proof (rule sift_down_step [where c = c and V = V and Ee = Ee and fe = fe])
    assume "sift_down c V Ee fe = V"
    then show ?thesis by simp
  next
    fix k
    assume step: "k < length V" "0 < k" "parent k = Ee" "Ee < k"
      "sift_down c V Ee fe = sift_down c (V[Ee := V ! k, k := fe]) k fe"
    let ?V = "V[Ee := V ! k, k := fe]"
    have "mset (sift_down c ?V k fe) = mset ?V"
      using step less.prems by (intro less.hyps) auto
    also have "mset ?V = mset V"
      using mset_swap_update [of Ee V k] less.prems step(1) by simp
    finally show ?thesis using step(5) by simp
  qed
qed

section \<open>The interface of the comparison\<close>

locale heap_order =
  fixes c :: "'a \<Rightarrow> 'a \<Rightarrow> jnum"
  assumes c_sign: "c x y < 0 \<longleftrightarrow> 0 < c y x"
    and c_trans: "c x y \<le> 0 \<Longrightarrow> c y z \<le> 0 \<Longrightarrow> c x z \<le> 0"
begin

lemma c_refl: "c x x \<le> 0"
  using c_sign [of x x] by linarith

lemma c_total: "c x y \<le> 0 \<or> c y x \<le> 0"
  using c_sign [of x y] by linarith

lemma c_flip: "0 \<le> c x y \<longleftrightarrow> c y x \<le> 0"
  using c_sign [of x y] by linarith

definition up_ok :: "'a list \<Rightarrow> nat \<Rightarrow> bool" where
  "up_ok V fe \<longleftrightarrow>
     (\<forall>i < length V. 0 < i \<longrightarrow> i \<noteq> fe \<longrightarrow> c (V ! parent i) (V ! i) \<le> 0)
   \<and> (0 < fe \<longrightarrow> (\<forall>i < length V. 0 < i \<longrightarrow> parent i = fe \<longrightarrow> c (V ! parent fe) (V ! i) \<le> 0))"

definition down_ok :: "'a list \<Rightarrow> nat \<Rightarrow> bool" where
  "down_ok V Ee \<longleftrightarrow>
     (\<forall>i < length V. 0 < i \<longrightarrow> parent i \<noteq> Ee \<longrightarrow> c (V ! parent i) (V ! i) \<le> 0)
   \<and> (0 < Ee \<longrightarrow> (\<forall>i < length V. 0 < i \<longrightarrow> parent i = Ee \<longrightarrow> c (V ! parent Ee) (V ! i) \<le> 0))"

lemma up_ok_swap:
  assumes ok: "up_ok V fe" and fe: "0 < fe" "fe < length V" "V ! fe = W"
    and gt: "0 < c (V ! parent fe) W"
  shows "up_ok (V[parent fe := W, fe := V ! parent fe]) (parent fe)"
proof -
  let ?E = "parent fe" and ?V = "V[parent fe := W, fe := V ! parent fe]"
  have E: "?E < fe" "?E < length V" using fe parent_less [OF fe(1)] by linarith+
  have lt: "c W (V ! ?E) \<le> 0" using gt c_sign [of W "V ! ?E"] by linarith
  have other: "\<And>i. i < length V \<Longrightarrow> 0 < i \<Longrightarrow> i \<noteq> fe \<Longrightarrow> c (V ! parent i) (V ! i) \<le> 0"
    and child: "\<And>i. i < length V \<Longrightarrow> 0 < i \<Longrightarrow> parent i = fe \<Longrightarrow> c (V ! ?E) (V ! i) \<le> 0"
    using ok fe unfolding up_ok_def by auto
  have nth: "?V ! i = (if i = fe then V ! ?E else if i = ?E then W else V ! i)" if "i < length V" for i
    using that fe E by (simp add: nth_list_update)
  have 1: "c (?V ! parent i) (?V ! i) \<le> 0" if i: "i < length V" "0 < i" "i \<noteq> ?E" for i
  proof -
    have p: "parent i < length V" using i by (meson less_trans parent_less)
    consider "i = fe" | "i \<noteq> fe" "parent i = fe" | "i \<noteq> fe" "parent i = ?E" "parent i \<noteq> fe"
      | "i \<noteq> fe" "parent i \<noteq> fe" "parent i \<noteq> ?E" by blast
    then show ?thesis
    proof cases
      case 1
      then show ?thesis using E lt fe by (auto simp: nth c_refl)
    next
      case 2
      then show ?thesis using child i E fe by (simp add: nth)
    next
      case 3
      then show ?thesis using other [of i] lt i E by (auto simp: nth intro: c_trans)
    next
      case 4
      then show ?thesis using other [of i] i by (simp add: nth p)
    qed
  qed
  have 2: "c (?V ! parent ?E) (?V ! i) \<le> 0"
    if i: "0 < ?E" "i < length V" "0 < i" "parent i = ?E" for i
  proof -
    have pE: "parent ?E < ?E" using i by simp
    have g: "c (V ! parent ?E) (V ! ?E) \<le> 0" using other [of ?E] i E by simp
    have "i \<noteq> ?E" using i parent_less [of i] by auto
    with g show ?thesis
      using other [of i] i pE E by (auto simp: nth intro: c_trans)
  qed
  show ?thesis using 1 2 unfolding up_ok_def by auto
qed

lemma sift_up_heap:
  "up_ok V fe \<Longrightarrow> fe < length V \<Longrightarrow> V ! fe = W \<Longrightarrow> is_heap c (sift_up c V fe W)"
proof (induction fe arbitrary: V rule: less_induct)
  case (less fe)
  show ?case
  proof (cases "0 < fe \<and> 0 < c (V ! parent fe) W")
    case True
    then have "sift_up c V fe W = sift_up c (V[parent fe := W, fe := V ! parent fe]) (parent fe) W"
      by (subst sift_up.simps) (simp add: parent_def Let_def)
    moreover have "parent fe < length V" "parent fe \<noteq> fe"
      using True less.prems parent_less [of fe] by (auto simp del: parent_less)
    ultimately show ?thesis
      using True less.prems less.IH [of "parent fe"] up_ok_swap [of V fe W] by simp
  next
    case False
    then have "sift_up c V fe W = V"
      by (subst sift_up.simps) (auto simp: parent_def Let_def)
    with False less.prems show ?thesis
      unfolding is_heap_def up_ok_def by (metis not_less)
  qed
qed

lemma push_heap: "is_heap c V \<Longrightarrow> is_heap c (heap_push c V W)"
proof -
  assume h: "is_heap c V"
  have "parent i < length V" if "i < length V" "0 < i" for i
    using that by (meson less_trans parent_less)
  with h have "up_ok (V @ [W]) (length V)"
    unfolding up_ok_def is_heap_def by (auto simp: nth_append dest: parent_less)
  then show ?thesis unfolding heap_push_def by (intro sift_up_heap) auto
qed

lemma down_ok_swap:
  assumes ok: "down_ok V Ee" and E: "Ee < length V" "V ! Ee = fe"
    and k: "k < length V" "0 < k" "parent k = Ee"
    and small: "c (V ! k) fe \<le> 0"
    and sib: "\<And>i. i < length V \<Longrightarrow> 0 < i \<Longrightarrow> parent i = Ee \<Longrightarrow> c (V ! k) (V ! i) \<le> 0"
  shows "down_ok (V[Ee := V ! k, k := fe]) k"
proof -
  let ?V = "V[Ee := V ! k, k := fe]"
  have Ek: "Ee < k" using k parent_less by blast
  have other: "\<And>i. i < length V \<Longrightarrow> 0 < i \<Longrightarrow> parent i \<noteq> Ee \<Longrightarrow> c (V ! parent i) (V ! i) \<le> 0"
    and child: "\<And>i. 0 < Ee \<Longrightarrow> i < length V \<Longrightarrow> 0 < i \<Longrightarrow> parent i = Ee \<Longrightarrow> c (V ! parent Ee) (V ! i) \<le> 0"
    using ok unfolding down_ok_def by auto
  have nth: "?V ! i = (if i = k then fe else if i = Ee then V ! k else V ! i)" if "i < length V" for i
    using that E k Ek by (simp add: nth_list_update)
  have 1: "c (?V ! parent i) (?V ! i) \<le> 0" if i: "i < length V" "0 < i" "parent i \<noteq> k" for i
  proof -
    have p: "parent i < length V" using i by (meson less_trans parent_less)
    consider "i = k" | "i = Ee" | "i \<noteq> k" "i \<noteq> Ee" "parent i = Ee" | "i \<noteq> k" "i \<noteq> Ee" "parent i \<noteq> Ee" by blast
    then show ?thesis
    proof cases
      case 1
      then show ?thesis using small k Ek p by (simp add: nth)
    next
      case 2
      moreover have "parent Ee \<noteq> Ee" "parent Ee \<noteq> k" using 2 i Ek parent_less [of Ee] by (auto simp del: parent_less)
      ultimately show ?thesis using child [of k] k i Ek p by (simp add: nth)
    next
      case 3
      then show ?thesis using sib [of i] i Ek p by (simp add: nth)
    next
      case 4
      then show ?thesis using other [of i] i p by (simp add: nth)
    qed
  qed
  have 2: "c (?V ! parent k) (?V ! i) \<le> 0" if i: "i < length V" "0 < i" "parent i = k" for i
  proof -
    have "i \<noteq> k" "i \<noteq> Ee" using i Ek parent_less [of i] by (auto simp del: parent_less)
    then show ?thesis using other [of i] i k Ek E by (simp add: nth)
  qed
  show ?thesis using 1 2 unfolding down_ok_def by auto
qed

lemma sift_down_heap:
  "down_ok V Ee \<Longrightarrow> Ee < length V \<Longrightarrow> V ! Ee = fe \<Longrightarrow> is_heap c (sift_down c V Ee fe)"
proof (induction "length V - Ee" arbitrary: V Ee rule: less_induct)
  case less
  show ?case
  proof (rule sift_down_step [where c = c and V = V and Ee = Ee and fe = fe])
    assume "sift_down c V Ee fe = V"
      "\<And>k. k < length V \<Longrightarrow> 0 < k \<Longrightarrow> parent k = Ee \<Longrightarrow> 0 \<le> c (V ! k) fe"
    then show ?thesis
      using less.prems unfolding is_heap_def down_ok_def by (metis c_flip)
  next
    fix k
    assume step: "k < length V" "0 < k" "parent k = Ee" "Ee < k"
      "sift_down c V Ee fe = sift_down c (V[Ee := V ! k, k := fe]) k fe"
      "k = 2 * Ee + 1 \<and> c (V ! k) fe < 0 \<and> (2 * Ee + 2 < length V \<longrightarrow> 0 \<le> c (V ! (2 * Ee + 2)) (V ! k))
       \<or> k = 2 * Ee + 2 \<and> (c (V ! k) fe < 0 \<and> 0 \<le> c (V ! (2 * Ee + 1)) fe
            \<or> c (V ! k) (V ! (2 * Ee + 1)) < 0 \<and> (c (V ! k) fe < 0 \<or> c (V ! (2 * Ee + 1)) fe < 0))"
    have sib: "c (V ! k) (V ! i) \<le> 0" if "i < length V" "0 < i" "parent i = Ee" for i
    proof -
      from that have "i = 2 * Ee + 1 \<or> i = 2 * Ee + 2" by (simp add: parent_child)
      with step(6) that(1) show ?thesis
        using c_refl c_flip [of "V ! i" "V ! k"] c_trans [of "V ! k" fe "V ! i"] c_flip [of "V ! i" fe]
        by fastforce
    qed
    have small: "c (V ! k) fe \<le> 0"
      using step(6) c_trans [of "V ! k" "V ! (2 * Ee + 1)" fe] by auto
    have "down_ok (V[Ee := V ! k, k := fe]) k"
      using less.prems step(1-3) small sib by (intro down_ok_swap) auto
    with less.prems step show ?thesis
      using less.hyps [of "V[Ee := V ! k, k := fe]" k] by simp
  qed
qed

lemma butlast_heap: "is_heap c V \<Longrightarrow> is_heap c (butlast V)"
proof -
  assume "is_heap c V"
  moreover have "parent i < length V - 1" if "i < length V - 1" "0 < i" for i
    using that by (meson less_trans parent_less)
  ultimately show ?thesis unfolding is_heap_def by (auto simp: nth_butlast)
qed

lemma root_down_ok:
  assumes "is_heap c V" and "V \<noteq> []"
  shows "down_ok (V[0 := x]) 0"
proof -
  have "V[0 := x] ! parent i = V ! parent i" if "parent i \<noteq> 0" for i
    using that by simp
  with assms show ?thesis unfolding down_ok_def is_heap_def by auto
qed

lemma pop_heap: "is_heap c V \<Longrightarrow> is_heap c (snd (heap_pop c V))"
proof -
  assume h: "is_heap c V"
  show ?thesis
  proof (cases "V = [] \<or> last V = V ! 0")
    case True
    with h show ?thesis by (auto simp: heap_pop_def Let_def butlast_heap)
  next
    case False
    then have "butlast V \<noteq> []" by (cases V) (auto split: if_splits)
    moreover have "is_heap c (sift_down c ((butlast V)[0 := last V]) 0 (last V))"
      using calculation by (intro sift_down_heap root_down_ok butlast_heap h) (auto simp: length_greater_0_conv [symmetric] simp del: length_greater_0_conv)
    ultimately show ?thesis
      using False by (simp add: heap_pop_def Let_def)
  qed
qed

lemma root_min: "is_heap c V \<Longrightarrow> i < length V \<Longrightarrow> c (V ! 0) (V ! i) \<le> 0"
proof (induction i rule: less_induct)
  case (less i)
  show ?case
  proof (cases "i = 0")
    case True
    then show ?thesis by (simp add: c_refl)
  next
    case False
    then have p: "parent i < i" by simp
    then have "c (V ! 0) (V ! parent i) \<le> 0" using less by simp
    moreover have "c (V ! parent i) (V ! i) \<le> 0" using less.prems False by (simp add: is_heap_def)
    ultimately show ?thesis by (rule c_trans)
  qed
qed

lemma peek_min: "is_heap c V \<Longrightarrow> heap_peek V = Some x \<Longrightarrow> y \<in> set V \<Longrightarrow> c x y \<le> 0"
  by (auto simp: heap_peek_def in_set_conv_nth root_min split: if_splits)

end

section \<open>The contents\<close>

lemma push_mset: "mset (heap_push c V W) = add_mset W (mset V)"
  by (simp add: heap_push_def sift_up_mset)

lemma pop_mset:
  assumes "V \<noteq> []"
  shows "mset (snd (heap_pop c V)) = mset V - {#V ! 0#}"
proof -
  have V: "V = butlast V @ [last V]" using assms by simp
  have m: "mset V = add_mset (last V) (mset (butlast V))" by (subst V) simp
  show ?thesis
  proof (cases "last V = V ! 0")
    case True
    then show ?thesis using assms m by (simp add: heap_pop_def Let_def)
  next
    case False
    then obtain b where b: "butlast V = V ! 0 # b"
      using assms by (cases V) (auto split: if_splits)
    then have "mset ((butlast V)[0 := last V]) = add_mset (last V) (mset b)" by simp
    with False assms b m show ?thesis
      by (simp add: heap_pop_def Let_def sift_down_mset)
  qed
qed

lemma pop_result: "fst (heap_pop c V) = heap_peek V"
  by (simp add: heap_pop_def heap_peek_def Let_def)

lemma set_push [simp]: "set (heap_push c V W) = insert W (set V)"
  by (metis push_mset set_mset_add_mset_insert set_mset_mset)

lemma length_push [simp]: "length (heap_push c V W) = Suc (length V)"
  by (simp add: heap_push_def)

lemma length_pop [simp]: "length (snd (heap_pop c V)) = length V - 1"
  by (simp add: heap_pop_def Let_def)

lemma distinct_submset:
  assumes sub: "mset xs \<subseteq># mset ys" and "distinct ys"
  shows "distinct xs"
  unfolding distinct_count_atmost_1
proof
  fix a
  have "count (mset xs) a \<le> count (mset ys) a" using sub by (rule mset_subset_eq_count)
  also have "\<dots> \<le> 1" using assms(2) by (simp add: distinct_count_atmost_1)
  finally have "count (mset xs) a \<le> 1" .
  then have "count (mset xs) a = 0 \<or> count (mset xs) a = 1" by linarith
  moreover have "a \<in> set xs \<longleftrightarrow> count (mset xs) a \<noteq> 0"
    by (metis count_eq_zero_iff set_mset_mset)
  ultimately show "count (mset xs) a = (if a \<in> set xs then 1 else 0)" by presburger
qed

lemma pop_distinct: "distinct V \<Longrightarrow> distinct (snd (heap_pop c V))"
proof (cases "V = []")
  case False
  assume "distinct V"
  moreover have "mset (snd (heap_pop c V)) \<subseteq># mset V" using False by (simp add: pop_mset)
  ultimately show ?thesis by (rule distinct_submset [rotated])
qed (simp add: heap_pop_def)

lemma push_distinct: "distinct V \<Longrightarrow> W \<notin> set V \<Longrightarrow> distinct (heap_push c V W)"
proof -
  assume "distinct V" "W \<notin> set V"
  then have "distinct (W # V)" by simp
  moreover have "mset (heap_push c V W) \<subseteq># mset (W # V)" by (simp add: push_mset)
  ultimately show ?thesis by (rule distinct_submset [rotated])
qed

lemma pop_set: "distinct V \<Longrightarrow> set (snd (heap_pop c V)) = set V - {V ! 0}"
proof (cases "V = []")
  case False
  assume d: "distinct V"
  have "mset (snd (heap_pop c V)) = mset (remove1 (V ! 0) V)"
    using False by (simp add: pop_mset)
  then have "set (snd (heap_pop c V)) = set (remove1 (V ! 0) V)" by (rule mset_eq_setD)
  with d show ?thesis by simp
qed (simp add: heap_pop_def)

end
