(* ===== verification/Scheduler.thy ===== *)
theory Scheduler
  imports Sched_Heap
begin

text \<open>
  The React scheduler that drives the dashboard (\<open>scheduler.production.js\<close> in the
  bundle): a queue of ready tasks and a queue of delayed tasks, both heaps of
  task references, the host message loop and the host timer. Tasks are mutable
  objects shared by reference, so the state holds a store of tasks and the
  queues hold task numbers. A callback is an abstract value; what it does when
  it runs (the scheduler functions it calls, the time it takes, what it
  returns or that it throws) is a parameter \<open>behav\<close>.

  The clock is a field of the state: time passes while callbacks run and
  between host events. \<open>posted\<close> counts the messages posted to the host by \<open>Q\<close>;
  \<open>timers\<close> are the pending host timeouts with their delays.
\<close>

section \<open>Tasks and state\<close>

record 'cb task =
  t_id :: nat
  t_callback :: "'cb option"
  t_priorityLevel :: int
  t_startTime :: jnum
  t_expirationTime :: jnum
  t_sortIndex :: jnum

record 'cb sched =
  tasks :: "nat \<Rightarrow> 'cb task option"
  taskQueue :: "nat list"
  timerQueue :: "nat list"
  nextId :: nat
  currentTask :: "nat option"
  currentPriority :: int
  performingWork :: bool
  hostCallbackScheduled :: bool
  hostTimeoutScheduled :: bool
  needsPaint :: bool
  messageLoopRunning :: bool
  timeoutId :: int
  frameInterval :: jnum
  frameStart :: jnum
  clock :: jnum
  posted :: nat
  timers :: "(nat \<times> jnum) list"
  nextTimer :: nat

definition init_sched :: "jnum \<Rightarrow> 'cb sched" where
  "init_sched t0 =
     \<lparr>tasks = (\<lambda>_. None), taskQueue = [], timerQueue = [], nextId = 1, currentTask = None,
      currentPriority = 3, performingWork = False, hostCallbackScheduled = False,
      hostTimeoutScheduled = False, needsPaint = False, messageLoopRunning = False,
      timeoutId = -1, frameInterval = 5, frameStart = -1, clock = t0, posted = 0,
      timers = [], nextTimer = 0\<rparr>"

text \<open>Reading a task through its reference. A reference in a queue is always bound.\<close>

definition null_task :: "'cb task" where
  "null_task = \<lparr>t_id = 0, t_callback = None, t_priorityLevel = 0, t_startTime = 0,
      t_expirationTime = 0, t_sortIndex = 0\<rparr>"

definition deref :: "'cb sched \<Rightarrow> nat \<Rightarrow> 'cb task" where
  "deref s i = nullish (tasks s i) null_task"

definition write_task :: "nat \<Rightarrow> 'cb task \<Rightarrow> 'cb sched \<Rightarrow> 'cb sched" where
  "write_task i t s = s\<lparr>tasks := (tasks s)(i := Some t)\<rparr>"

text \<open>\<open>c(V, W)\<close>: by \<open>sortIndex\<close>, then by \<open>id\<close>.\<close>

definition compare_tasks :: "'cb task \<Rightarrow> 'cb task \<Rightarrow> jnum" where
  "compare_tasks V W =
     (let fe = js_sub (t_sortIndex V) (t_sortIndex W)
      in if fe \<noteq> 0 then fe else of_nat (t_id V) - of_nat (t_id W))"

definition cmp :: "'cb sched \<Rightarrow> nat \<Rightarrow> nat \<Rightarrow> jnum" where
  "cmp s i j = compare_tasks (deref s i) (deref s j)"

section \<open>Host operations\<close>

definition post_message :: "'cb sched \<Rightarrow> 'cb sched" where
  "post_message s = s\<lparr>posted := Suc (posted s)\<rparr>"

definition request_timeout :: "jnum \<Rightarrow> 'cb sched \<Rightarrow> 'cb sched" where
  "request_timeout W s =
     s\<lparr>timers := timers s @ [(nextTimer s, W)], timeoutId := int (nextTimer s),
       nextTimer := Suc (nextTimer s)\<rparr>"

definition clear_timeout :: "'cb sched \<Rightarrow> 'cb sched" where
  "clear_timeout s =
     s\<lparr>timers := filter (\<lambda>t. int (fst t) \<noteq> timeoutId s) (timers s), timeoutId := -1\<rparr>"

section \<open>advanceTimers\<close>

text \<open>Moves the delayed tasks whose start time has come to the ready queue and drops
  cancelled ones; stops at the first delayed task that is not due.\<close>

function advance_timers :: "jnum \<Rightarrow> 'cb sched \<Rightarrow> 'cb sched" where
  "advance_timers V s =
     (case heap_peek (timerQueue s) of
        None \<Rightarrow> s
      | Some W \<Rightarrow>
          if t_callback (deref s W) = None then
            advance_timers V (s\<lparr>timerQueue := snd (heap_pop (cmp s) (timerQueue s))\<rparr>)
          else if t_startTime (deref s W) \<le> V then
            (let s1 = s\<lparr>timerQueue := snd (heap_pop (cmp s) (timerQueue s))\<rparr>;
                 s2 = write_task W ((deref s1 W)\<lparr>t_sortIndex := t_expirationTime (deref s1 W)\<rparr>) s1
             in advance_timers V (s2\<lparr>taskQueue := heap_push (cmp s2) (taskQueue s2) W\<rparr>))
          else s)"
  by pat_completeness auto
termination
  by (relation "measure (\<lambda>(V, s). length (timerQueue s))")
    (auto simp: heap_peek_def write_task_def Let_def split: if_splits)

declare advance_timers.simps [simp del]

section \<open>handleTimeout, shouldYield\<close>

definition ensure_loop :: "'cb sched \<Rightarrow> 'cb sched" where
  "ensure_loop s =
     (if messageLoopRunning s then s else post_message (s\<lparr>messageLoopRunning := True\<rparr>))"

definition handle_timeout :: "jnum \<Rightarrow> 'cb sched \<Rightarrow> 'cb sched" where
  "handle_timeout V s =
     (let s1 = advance_timers V (s\<lparr>hostTimeoutScheduled := False\<rparr>)
      in if hostCallbackScheduled s1 then s1
         else if heap_peek (taskQueue s1) \<noteq> None
         then ensure_loop (s1\<lparr>hostCallbackScheduled := True\<rparr>)
         else (case heap_peek (timerQueue s1) of
                 None \<Rightarrow> s1
               | Some W \<Rightarrow> request_timeout (js_sub (t_startTime (deref s1 W)) V) s1))"

definition should_yield :: "'cb sched \<Rightarrow> bool" where
  "should_yield s = (if needsPaint s then True else \<not> (js_sub (clock s) (frameStart s) < frameInterval s))"

section \<open>The exported functions\<close>

definition cancelCallback :: "nat \<Rightarrow> 'cb sched \<Rightarrow> 'cb sched" where
  "cancelCallback i s = write_task i ((deref s i)\<lparr>t_callback := None\<rparr>) s"

definition forceFrameRate :: "jnum \<Rightarrow> 'cb sched \<Rightarrow> 'cb sched" where
  "forceFrameRate V s =
     (if V < 0 \<or> 125 < V then s
      else s\<lparr>frameInterval := (if 0 < V then of_int \<lfloor>js_div 1000 V\<rfloor> else 5)\<rparr>)"

definition requestPaint :: "'cb sched \<Rightarrow> 'cb sched" where
  "requestPaint s = s\<lparr>needsPaint := True\<rparr>"

text \<open>\<open>unstable_next\<close>, \<open>unstable_runWithPriority\<close> and \<open>unstable_wrapCallback\<close> run a
  function at another priority level and restore the old one in \<open>finally\<close>.\<close>

definition with_priority :: "int \<Rightarrow> ('cb sched \<Rightarrow> 'r \<times> 'cb sched) \<Rightarrow> 'cb sched \<Rightarrow> 'r \<times> 'cb sched" where
  "with_priority p f s =
     (let fe = currentPriority s; (r, s') = f (s\<lparr>currentPriority := p\<rparr>)
      in (r, s'\<lparr>currentPriority := fe\<rparr>))"

definition next_priority :: "'cb sched \<Rightarrow> int" where
  "next_priority s = (if currentPriority s \<in> {1, 2, 3} then 3 else currentPriority s)"

definition unstable_next :: "('cb sched \<Rightarrow> 'r \<times> 'cb sched) \<Rightarrow> 'cb sched \<Rightarrow> 'r \<times> 'cb sched" where
  "unstable_next f s = with_priority (next_priority s) f s"

definition runWithPriority :: "int \<Rightarrow> ('cb sched \<Rightarrow> 'r \<times> 'cb sched) \<Rightarrow> 'cb sched \<Rightarrow> 'r \<times> 'cb sched" where
  "runWithPriority V f s = with_priority (if V \<in> {1, 2, 3, 4, 5} then V else 3) f s"

definition wrapCallback :: "'cb sched \<Rightarrow> ('cb sched \<Rightarrow> 'r \<times> 'cb sched) \<Rightarrow> 'cb sched \<Rightarrow> 'r \<times> 'cb sched" where
  "wrapCallback s0 f s = with_priority (currentPriority s0) f s"

definition timeout_of :: "int \<Rightarrow> jnum" where
  "timeout_of V =
     (if V = 1 then -1 else if V = 2 then 250 else if V = 5 then 1073741823
      else if V = 4 then 10000 else 5000)"

text \<open>\<open>scheduleCallback(V, W, fe)\<close>; \<open>fe\<close> is the \<open>delay\<close> of the options, \<^const>\<open>None\<close> when
  there are no options or the delay is not a number.\<close>

definition scheduleCallback :: "int \<Rightarrow> 'cb \<Rightarrow> jnum option \<Rightarrow> 'cb sched \<Rightarrow> nat \<times> 'cb sched" where
  "scheduleCallback V W fe s =
     (let Ee = clock s;
          start = (case fe of Some d \<Rightarrow> if 0 < d then js_add Ee d else Ee | None \<Rightarrow> Ee);
          ae = js_add start (timeout_of V);
          i = nextId s;
          task = \<lparr>t_id = i, t_callback = Some W, t_priorityLevel = V, t_startTime = start,
                  t_expirationTime = ae, t_sortIndex = -1\<rparr>;
          s0 = s\<lparr>nextId := Suc i\<rparr>
      in if start > Ee then
           (let s1 = write_task i (task\<lparr>t_sortIndex := start\<rparr>) s0;
                s2 = s1\<lparr>timerQueue := heap_push (cmp s1) (timerQueue s1) i\<rparr>
            in if heap_peek (taskQueue s2) = None \<and> heap_peek (timerQueue s2) = Some i then
                 (i, request_timeout (js_sub start Ee)
                       (if hostTimeoutScheduled s2 then clear_timeout s2
                        else s2\<lparr>hostTimeoutScheduled := True\<rparr>))
               else (i, s2))
         else
           (let s1 = write_task i (task\<lparr>t_sortIndex := ae\<rparr>) s0;
                s2 = s1\<lparr>taskQueue := heap_push (cmp s1) (taskQueue s1) i\<rparr>
            in if hostCallbackScheduled s2 \<or> performingWork s2 then (i, s2)
               else (i, ensure_loop (s2\<lparr>hostCallbackScheduled := True\<rparr>))))"

section \<open>performWorkUntilDeadline\<close>

text \<open>What a callback does: calls of the scheduler, then its result.\<close>

datatype 'cb op =
    OpSchedule int 'cb "jnum option"
  | OpCancel nat
  | OpRequestPaint
  | OpForceFrameRate jnum

datatype 'cb result = Continuation 'cb | Finished | Thrown

type_synonym 'cb behaviour = "'cb \<Rightarrow> bool \<Rightarrow> 'cb sched \<Rightarrow> 'cb op list \<times> jnum \<times> 'cb result"

fun run_op :: "'cb op \<Rightarrow> 'cb sched \<Rightarrow> 'cb sched" where
  "run_op (OpSchedule p cb d) s = snd (scheduleCallback p cb d s)"
| "run_op (OpCancel i) s = (if tasks s i = None then s else cancelCallback i s)"
| "run_op OpRequestPaint s = requestPaint s"
| "run_op (OpForceFrameRate v) s = forceFrameRate v s"

definition run_callback :: "'cb behaviour \<Rightarrow> 'cb \<Rightarrow> bool \<Rightarrow> 'cb sched \<Rightarrow> 'cb result \<times> 'cb sched" where
  "run_callback behav cb didTimeout s =
     (let (ops, t, r) = behav cb didTimeout s
      in (r, (fold run_op ops s)\<lparr>clock := max (clock s) t\<rparr>))"

text \<open>The loop \<open>t:\<close>. \<open>Inl\<close> is a thrown exception; \<open>Inr b\<close> the value of \<open>W\<close> (more work)
  at its end. The log lists the tasks whose callbacks were called, with the
  argument passed. One unit of fuel per iteration; \<^const>\<open>None\<close> when it runs out.\<close>

fun work_loop :: "nat \<Rightarrow> 'cb behaviour \<Rightarrow> jnum \<Rightarrow> (nat \<times> bool) list \<Rightarrow> 'cb sched
    \<Rightarrow> ((unit + bool) \<times> (nat \<times> bool) list \<times> 'cb sched) option" where
  "work_loop 0 behav V lg s = None"
| "work_loop (Suc n) behav V lg s =
     (let more = Some (Inr True, lg, s) in
      case currentTask s of
        None \<Rightarrow>
          (case heap_peek (timerQueue s) of
             None \<Rightarrow> Some (Inr False, lg, s)
           | Some q \<Rightarrow> Some (Inr False, lg, request_timeout (js_sub (t_startTime (deref s q)) V) s))
      | Some S \<Rightarrow>
          if t_expirationTime (deref s S) > V \<and> should_yield s then more
          else (case t_callback (deref s S) of
              None \<Rightarrow>
                (let s1 = s\<lparr>taskQueue := snd (heap_pop (cmp s) (taskQueue s))\<rparr>
                 in work_loop n behav V lg (s1\<lparr>currentTask := heap_peek (taskQueue s1)\<rparr>))
            | Some Ee \<Rightarrow>
                (let s1 = (write_task S ((deref s S)\<lparr>t_callback := None\<rparr>) s)
                            \<lparr>currentPriority := t_priorityLevel (deref s S)\<rparr>;
                     late = (t_expirationTime (deref s S) \<le> V);
                     (r, s2) = run_callback behav Ee late s1;
                     lg' = lg @ [(S, late)];
                     V' = clock s2
                 in case r of
                      Thrown \<Rightarrow> Some (Inl (), lg', s2)
                    | Continuation cb \<Rightarrow>
                        Some (Inr True, lg',
                          advance_timers V' (write_task S ((deref s2 S)\<lparr>t_callback := Some cb\<rparr>) s2))
                    | Finished \<Rightarrow>
                        (let s3 = (if heap_peek (taskQueue s2) = Some S
                                   then s2\<lparr>taskQueue := snd (heap_pop (cmp s2) (taskQueue s2))\<rparr>
                                   else s2);
                             s4 = advance_timers V' s3
                         in work_loop n behav V' lg' (s4\<lparr>currentTask := heap_peek (taskQueue s4)\<rparr>)))))"

text \<open>\<open>oe\<close>, the handler of a posted message. An exception leaves \<open>W\<close> true, so the
  message is posted again before it propagates.\<close>

definition perform_work :: "nat \<Rightarrow> 'cb behaviour \<Rightarrow> 'cb sched
    \<Rightarrow> ((nat \<times> bool) list \<times> 'cb sched) option" where
  "perform_work n behav s =
     (let s0 = s\<lparr>needsPaint := False\<rparr> in
      if \<not> messageLoopRunning s0 then Some ([], s0)
      else
        (let V = clock s0;
             s1 = s0\<lparr>frameStart := V, hostCallbackScheduled := False\<rparr>;
             s2 = (if hostTimeoutScheduled s1
                   then clear_timeout (s1\<lparr>hostTimeoutScheduled := False\<rparr>) else s1);
             s3 = s2\<lparr>performingWork := True\<rparr>;
             fe = currentPriority s3;
             s4 = advance_timers V s3
         in case work_loop n behav V [] (s4\<lparr>currentTask := heap_peek (taskQueue s4)\<rparr>) of
              None \<Rightarrow> None
            | Some (W, lg, s5) \<Rightarrow>
                (let s6 = s5\<lparr>currentTask := None, currentPriority := fe, performingWork := False\<rparr>
                 in if W = Inr False then Some (lg, s6\<lparr>messageLoopRunning := False\<rparr>)
                    else Some (lg, post_message s6))))"

section \<open>The comparison is a heap order\<close>

lemma compare_tasks_sign:
  "compare_tasks V W < 0 \<longleftrightarrow>
     t_sortIndex V < t_sortIndex W \<or> t_sortIndex V = t_sortIndex W \<and> t_id V < t_id W"
  "0 < compare_tasks V W \<longleftrightarrow>
     t_sortIndex W < t_sortIndex V \<or> t_sortIndex V = t_sortIndex W \<and> t_id W < t_id V"
  by (auto simp: compare_tasks_def js_sub_def Let_def rnd_sign)

lemma compare_tasks_le:
  "compare_tasks V W \<le> 0 \<longleftrightarrow>
     t_sortIndex V < t_sortIndex W \<or> t_sortIndex V = t_sortIndex W \<and> t_id V \<le> t_id W"
  using compare_tasks_sign(2) [of V W] by (auto simp: not_less [symmetric])

interpretation task_order: heap_order "cmp s" for s :: "'cb sched"
  by unfold_locales (auto simp: cmp_def compare_tasks_sign compare_tasks_le)

lemma is_heap_cong:
  assumes "\<And>x y. x \<in> set V \<Longrightarrow> y \<in> set V \<Longrightarrow> c x y = c' x y"
  shows "is_heap c V = is_heap c' V"
proof -
  have "c (V ! parent i) (V ! i) = c' (V ! parent i) (V ! i)" if "i < length V" "0 < i" for i
    using that assms by (meson less_trans nth_mem parent_less)
  then show ?thesis unfolding is_heap_def by auto
qed

section \<open>Writing a task\<close>

lemma deref_write [simp]: "deref (write_task i t s) j = (if j = i then t else deref s j)"
  by (simp add: deref_def write_task_def)

lemma write_task_sel [simp]:
  "taskQueue (write_task i t s) = taskQueue s" "timerQueue (write_task i t s) = timerQueue s"
  "nextId (write_task i t s) = nextId s" "performingWork (write_task i t s) = performingWork s"
  "hostCallbackScheduled (write_task i t s) = hostCallbackScheduled s"
  "hostTimeoutScheduled (write_task i t s) = hostTimeoutScheduled s"
  "messageLoopRunning (write_task i t s) = messageLoopRunning s"
  "posted (write_task i t s) = posted s" "timers (write_task i t s) = timers s"
  "clock (write_task i t s) = clock s" "currentTask (write_task i t s) = currentTask s"
  "tasks (write_task i t s) = (tasks s)(i := Some t)"
  by (simp_all add: write_task_def)

lemma deref_queue [simp]:
  "deref (s\<lparr>taskQueue := q\<rparr>) i = deref s i" "deref (s\<lparr>timerQueue := q\<rparr>) i = deref s i"
  "deref (s\<lparr>nextId := n\<rparr>) i = deref s i"
  by (simp_all add: deref_def)

lemma cmp_queue [simp]:
  "cmp (s\<lparr>taskQueue := q\<rparr>) = cmp s" "cmp (s\<lparr>timerQueue := q\<rparr>) = cmp s"
  "cmp (s\<lparr>nextId := n\<rparr>) = cmp s"
  by (simp_all add: cmp_def fun_eq_iff)

section \<open>Well-formed queues\<close>

definition bound :: "'cb sched \<Rightarrow> nat \<Rightarrow> bool" where
  "bound s i \<longleftrightarrow> i < nextId s \<and> (case tasks s i of None \<Rightarrow> False | Some t \<Rightarrow> t_id t = i)"

definition queue_ok :: "'cb sched \<Rightarrow> bool" where
  "queue_ok s \<longleftrightarrow>
     distinct (taskQueue s @ timerQueue s)
   \<and> (\<forall>i \<in> set (taskQueue s) \<union> set (timerQueue s). bound s i)
   \<and> (\<forall>i \<in> set (taskQueue s). t_sortIndex (deref s i) = t_expirationTime (deref s i))
   \<and> (\<forall>i \<in> set (timerQueue s). t_sortIndex (deref s i) = t_startTime (deref s i))
   \<and> is_heap (cmp s) (taskQueue s) \<and> is_heap (cmp s) (timerQueue s)
   \<and> (\<forall>i \<ge> nextId s. tasks s i = None)"

lemma queue_ok_init: "queue_ok (init_sched t0)"
  by (simp add: queue_ok_def init_sched_def is_heap_def)

text \<open>Two states whose tasks differ only in their callbacks.\<close>

definition same_order :: "'cb sched \<Rightarrow> 'cb sched \<Rightarrow> bool" where
  "same_order s s' \<longleftrightarrow>
     taskQueue s' = taskQueue s \<and> timerQueue s' = timerQueue s \<and> nextId s' = nextId s
   \<and> (\<forall>i. (tasks s' i = None) = (tasks s i = None))
   \<and> (\<forall>i. t_id (deref s' i) = t_id (deref s i) \<and> t_sortIndex (deref s' i) = t_sortIndex (deref s i)
        \<and> t_startTime (deref s' i) = t_startTime (deref s i)
        \<and> t_expirationTime (deref s' i) = t_expirationTime (deref s i))"

lemma same_order_cmp: "same_order s s' \<Longrightarrow> cmp s' = cmp s"
  by (simp add: same_order_def cmp_def compare_tasks_def fun_eq_iff Let_def)

lemma bound_deref: "bound s i \<longleftrightarrow> i < nextId s \<and> tasks s i \<noteq> None \<and> t_id (deref s i) = i"
  by (auto simp: bound_def deref_def split: option.splits)

lemma same_order_queue_ok:
  assumes "same_order s s'" and "queue_ok s"
  shows "queue_ok s'"
proof -
  have "bound s' i = bound s i" for i
    using assms(1) by (simp add: bound_deref same_order_def)
  with assms show ?thesis
    by (auto simp: queue_ok_def same_order_cmp [OF assms(1)] same_order_def)
qed

lemma same_order_callback:
  "tasks s i \<noteq> None \<Longrightarrow> same_order s (write_task i ((deref s i)\<lparr>t_callback := x\<rparr>) s)"
  by (auto simp: same_order_def)

text \<open>Fields the queues do not depend on.\<close>

lemma same_order_fields:
  "same_order s (s\<lparr>currentPriority := p\<rparr>)" "same_order s (s\<lparr>clock := t\<rparr>)"
  "same_order s (s\<lparr>currentTask := ct\<rparr>)" "same_order s (s\<lparr>needsPaint := b\<rparr>)"
  "same_order s (s\<lparr>frameInterval := t\<rparr>)" "same_order s (s\<lparr>performingWork := b\<rparr>)"
  "same_order s (s\<lparr>messageLoopRunning := b\<rparr>)" "same_order s (s\<lparr>hostCallbackScheduled := b\<rparr>)"
  "same_order s (s\<lparr>hostTimeoutScheduled := b\<rparr>)" "same_order s (s\<lparr>frameStart := t\<rparr>)"
  "same_order s (s\<lparr>posted := n\<rparr>)" "same_order s (s\<lparr>timers := ts\<rparr>)"
  "same_order s (post_message s)" "same_order s (request_timeout d s)" "same_order s (clear_timeout s)"
  by (simp_all add: same_order_def deref_def post_message_def request_timeout_def clear_timeout_def)

lemma same_order_trans: "same_order s s' \<Longrightarrow> same_order s' s'' \<Longrightarrow> same_order s s''"
  by (auto simp: same_order_def)

section \<open>Popping and pushing keep the queues well-formed\<close>

lemma pop_task_ok:
  assumes "queue_ok s"
  shows "queue_ok (s\<lparr>taskQueue := snd (heap_pop (cmp s) (taskQueue s))\<rparr>)"
  using assms
  by (auto simp: queue_ok_def bound_def task_order.pop_heap pop_distinct pop_set)

lemma pop_timer_ok:
  assumes "queue_ok s"
  shows "queue_ok (s\<lparr>timerQueue := snd (heap_pop (cmp s) (timerQueue s))\<rparr>)"
  using assms
  by (auto simp: queue_ok_def bound_def task_order.pop_heap pop_distinct pop_set)

text \<open>A task not in a queue may be given a new sort index.\<close>

lemma is_heap_write:
  assumes "i \<notin> set V" and "is_heap (cmp s) V"
  shows "is_heap (cmp (write_task i t s)) V"
proof -
  have "cmp (write_task i t s) x y = cmp s x y" if "x \<in> set V" "y \<in> set V" for x y
    using that assms(1) by (auto simp: cmp_def)
  with assms(2) is_heap_cong [of V "cmp (write_task i t s)" "cmp s"] show ?thesis by blast
qed

lemma push_task_ok:
  assumes q: "queue_ok s" and i: "i \<notin> set (taskQueue s)" "i \<notin> set (timerQueue s)" "i < nextId s"
    and t: "t_id t = i" "t_sortIndex t = t_expirationTime t"
    and s1: "s1 = write_task i t s"
  shows "queue_ok (s1\<lparr>taskQueue := heap_push (cmp s1) (taskQueue s1) i\<rparr>)"
  using q i t unfolding s1
  by (auto simp: queue_ok_def bound_def task_order.push_heap push_distinct is_heap_write)

lemma push_timer_ok:
  assumes q: "queue_ok s" and i: "i \<notin> set (taskQueue s)" "i \<notin> set (timerQueue s)" "i < nextId s"
    and t: "t_id t = i" "t_sortIndex t = t_startTime t"
    and s1: "s1 = write_task i t s"
  shows "queue_ok (s1\<lparr>timerQueue := heap_push (cmp s1) (timerQueue s1) i\<rparr>)"
  using q i t unfolding s1
  by (auto simp: queue_ok_def bound_def task_order.push_heap push_distinct is_heap_write)

section \<open>advanceTimers\<close>

lemma heap_peek_Some: "heap_peek q = Some x \<Longrightarrow> q \<noteq> [] \<and> x = q ! 0 \<and> x \<in> set q"
  by (auto simp: heap_peek_def split: if_splits)

lemma heap_peek_None [simp]: "heap_peek q = None \<longleftrightarrow> q = []"
  by (simp add: heap_peek_def)

lemma advance_timers_step:
  obtains (stop) "advance_timers V s = s"
      "\<And>W. heap_peek (timerQueue s) = Some W \<Longrightarrow> V < t_startTime (deref s W)"
  | (drop) W s1 where "heap_peek (timerQueue s) = Some W" "t_callback (deref s W) = None"
      "s1 = s\<lparr>timerQueue := snd (heap_pop (cmp s) (timerQueue s))\<rparr>"
      "advance_timers V s = advance_timers V s1"
  | (move) W s1 s2 where "heap_peek (timerQueue s) = Some W" "t_callback (deref s W) \<noteq> None"
      "t_startTime (deref s W) \<le> V"
      "s1 = s\<lparr>timerQueue := snd (heap_pop (cmp s) (timerQueue s))\<rparr>"
      "s2 = write_task W ((deref s1 W)\<lparr>t_sortIndex := t_expirationTime (deref s1 W)\<rparr>) s1"
      "advance_timers V s = advance_timers V (s2\<lparr>taskQueue := heap_push (cmp s2) (taskQueue s2) W\<rparr>)"
proof (cases "heap_peek (timerQueue s)")
  case None
  then have "advance_timers V s = s" by (simp only: advance_timers.simps [of V s] option.case)
  with None show ?thesis by (intro stop) auto
next
  case (Some W)
  note u = advance_timers.simps [of V s]
  show ?thesis
  proof (cases "t_callback (deref s W) = None")
    case True
    with Some show ?thesis by (intro drop [OF Some True refl]) (simp add: u)
  next
    case cb: False
    show ?thesis
    proof (cases "t_startTime (deref s W) \<le> V")
      case True
      with Some cb show ?thesis
        by (intro move [OF Some cb True refl refl]) (auto simp: u Let_def)
    next
      case False
      with Some cb show ?thesis by (intro stop) (auto simp: u)
    qed
  qed
qed

lemma advance_timers_induct:
  assumes stop: "\<And>s. (\<And>W. heap_peek (timerQueue s) = Some W \<Longrightarrow> V < t_startTime (deref s W)) \<Longrightarrow> P s s"
    and drop: "\<And>s W r. heap_peek (timerQueue s) = Some W \<Longrightarrow> t_callback (deref s W) = None \<Longrightarrow>
       P (s\<lparr>timerQueue := snd (heap_pop (cmp s) (timerQueue s))\<rparr>) r \<Longrightarrow> P s r"
    and move: "\<And>s W s1 s2 r. heap_peek (timerQueue s) = Some W \<Longrightarrow> t_callback (deref s W) \<noteq> None \<Longrightarrow>
       t_startTime (deref s W) \<le> V \<Longrightarrow>
       s1 = s\<lparr>timerQueue := snd (heap_pop (cmp s) (timerQueue s))\<rparr> \<Longrightarrow>
       s2 = write_task W ((deref s W)\<lparr>t_sortIndex := t_expirationTime (deref s W)\<rparr>) s1 \<Longrightarrow>
       P (s2\<lparr>taskQueue := heap_push (cmp s2) (taskQueue s2) W\<rparr>) r \<Longrightarrow> P s r"
  shows "P s (advance_timers V s)"
proof (induction "length (timerQueue s)" arbitrary: s rule: less_induct)
  case less
  show ?case
  proof (rule advance_timers_step [of V s])
    assume "advance_timers V s = s"
      "\<And>W. heap_peek (timerQueue s) = Some W \<Longrightarrow> V < t_startTime (deref s W)"
    then show ?thesis using stop by simp
  next
    fix W s1
    assume a: "heap_peek (timerQueue s) = Some W" "t_callback (deref s W) = None"
      "s1 = s\<lparr>timerQueue := snd (heap_pop (cmp s) (timerQueue s))\<rparr>"
      "advance_timers V s = advance_timers V s1"
    have "P s1 (advance_timers V s1)"
      using a by (intro less.hyps) (auto dest: heap_peek_Some)
    then show ?thesis using drop a by simp
  next
    fix W s1 s2
    assume a: "heap_peek (timerQueue s) = Some W" "t_callback (deref s W) \<noteq> None"
      "t_startTime (deref s W) \<le> V"
      "s1 = s\<lparr>timerQueue := snd (heap_pop (cmp s) (timerQueue s))\<rparr>"
      "s2 = write_task W ((deref s1 W)\<lparr>t_sortIndex := t_expirationTime (deref s1 W)\<rparr>) s1"
      "advance_timers V s = advance_timers V (s2\<lparr>taskQueue := heap_push (cmp s2) (taskQueue s2) W\<rparr>)"
    have "P (s2\<lparr>taskQueue := heap_push (cmp s2) (taskQueue s2) W\<rparr>)
        (advance_timers V (s2\<lparr>taskQueue := heap_push (cmp s2) (taskQueue s2) W\<rparr>))"
      using a by (intro less.hyps) (auto dest: heap_peek_Some)
    then show ?thesis
      using move [OF a(1,2,3,4)] a(4,5,6) by simp
  qed
qed

lemma move_timer_ok:
  assumes ok: "queue_ok s" and W: "heap_peek (timerQueue s) = Some W"
    and s1: "s1 = s\<lparr>timerQueue := snd (heap_pop (cmp s) (timerQueue s))\<rparr>"
    and s2: "s2 = write_task W ((deref s W)\<lparr>t_sortIndex := t_expirationTime (deref s W)\<rparr>) s1"
  shows "queue_ok (s2\<lparr>taskQueue := heap_push (cmp s2) (taskQueue s2) W\<rparr>)"
proof -
  have w: "W \<in> set (timerQueue s)" "W = timerQueue s ! 0" using heap_peek_Some [OF W] by auto
  have d: "distinct (timerQueue s)" "W \<notin> set (taskQueue s)" "W < nextId s" "t_id (deref s W) = W"
    using ok w unfolding queue_ok_def by (auto simp: bound_deref)
  have "queue_ok s1" unfolding s1 using ok by (rule pop_timer_ok)
  moreover have "W \<notin> set (timerQueue s1)" unfolding s1 using d w by (simp add: pop_set)
  ultimately show ?thesis
    using d s1 by (intro push_task_ok [OF _ _ _ _ _ _ s2]) auto
qed

lemma advance_timers_ok: "queue_ok s \<Longrightarrow> queue_ok (advance_timers V s)"
  by (rule advance_timers_induct [where P = "\<lambda>s r. queue_ok s \<longrightarrow> queue_ok r", THEN mp])
    (blast intro: pop_timer_ok move_timer_ok)+

lemma advance_timers_frame:
  "nextId (advance_timers V s) = nextId s \<and> currentTask (advance_timers V s) = currentTask s
   \<and> currentPriority (advance_timers V s) = currentPriority s
   \<and> performingWork (advance_timers V s) = performingWork s
   \<and> hostCallbackScheduled (advance_timers V s) = hostCallbackScheduled s
   \<and> hostTimeoutScheduled (advance_timers V s) = hostTimeoutScheduled s
   \<and> messageLoopRunning (advance_timers V s) = messageLoopRunning s
   \<and> posted (advance_timers V s) = posted s \<and> timers (advance_timers V s) = timers s
   \<and> clock (advance_timers V s) = clock s \<and> needsPaint (advance_timers V s) = needsPaint s
   \<and> frameStart (advance_timers V s) = frameStart s"
  by (rule advance_timers_induct [where P = "\<lambda>s r. nextId r = nextId s \<and> currentTask r = currentTask s
     \<and> currentPriority r = currentPriority s \<and> performingWork r = performingWork s
     \<and> hostCallbackScheduled r = hostCallbackScheduled s \<and> hostTimeoutScheduled r = hostTimeoutScheduled s
     \<and> messageLoopRunning r = messageLoopRunning s \<and> posted r = posted s \<and> timers r = timers s
     \<and> clock r = clock s \<and> needsPaint r = needsPaint s \<and> frameStart r = frameStart s"])
    (auto simp: write_task_def)

lemma advance_timers_sel [simp]:
  "nextId (advance_timers V s) = nextId s" "currentTask (advance_timers V s) = currentTask s"
  "currentPriority (advance_timers V s) = currentPriority s"
  "performingWork (advance_timers V s) = performingWork s"
  "hostCallbackScheduled (advance_timers V s) = hostCallbackScheduled s"
  "hostTimeoutScheduled (advance_timers V s) = hostTimeoutScheduled s"
  "messageLoopRunning (advance_timers V s) = messageLoopRunning s"
  "posted (advance_timers V s) = posted s" "timers (advance_timers V s) = timers s"
  "clock (advance_timers V s) = clock s" "needsPaint (advance_timers V s) = needsPaint s"
  "frameStart (advance_timers V s) = frameStart s"
  using advance_timers_frame [of V s] by simp_all

section \<open>Scheduling and cancelling keep the queues well-formed\<close>

lemma same_order_sym: "same_order s s' \<Longrightarrow> same_order s' s"
  by (auto simp: same_order_def)

lemma same_order_iff: "same_order s s' \<Longrightarrow> queue_ok s' = queue_ok s"
  using same_order_queue_ok same_order_sym by blast

lemma queue_ok_fields [simp]:
  "queue_ok (s\<lparr>currentPriority := p\<rparr>) = queue_ok s" "queue_ok (s\<lparr>clock := t\<rparr>) = queue_ok s"
  "queue_ok (s\<lparr>currentTask := ct\<rparr>) = queue_ok s" "queue_ok (s\<lparr>needsPaint := b\<rparr>) = queue_ok s"
  "queue_ok (s\<lparr>frameInterval := t\<rparr>) = queue_ok s" "queue_ok (s\<lparr>performingWork := b\<rparr>) = queue_ok s"
  "queue_ok (s\<lparr>messageLoopRunning := b\<rparr>) = queue_ok s" "queue_ok (s\<lparr>hostCallbackScheduled := b\<rparr>) = queue_ok s"
  "queue_ok (s\<lparr>hostTimeoutScheduled := b\<rparr>) = queue_ok s" "queue_ok (s\<lparr>frameStart := t\<rparr>) = queue_ok s"
  "queue_ok (s\<lparr>posted := n\<rparr>) = queue_ok s" "queue_ok (s\<lparr>timers := ts\<rparr>) = queue_ok s"
  "queue_ok (post_message s) = queue_ok s" "queue_ok (request_timeout d s) = queue_ok s"
  "queue_ok (clear_timeout s) = queue_ok s"
  by (rule same_order_iff, rule same_order_fields)+

lemma ensure_loop_ok [simp]: "queue_ok (ensure_loop s) = queue_ok s"
  by (simp add: ensure_loop_def)

lemma queue_ok_fresh:
  assumes "queue_ok s"
  shows "nextId s \<notin> set (taskQueue s)" "nextId s \<notin> set (timerQueue s)"
    "queue_ok (s\<lparr>nextId := Suc (nextId s)\<rparr>)"
  using assms by (auto simp: queue_ok_def bound_def less_Suc_eq)

lemma scheduleCallback_ok:
  assumes "queue_ok s"
  shows "queue_ok (snd (scheduleCallback V W fe s))"
proof -
  note f = queue_ok_fresh [OF assms]
  let ?s = "s\<lparr>nextId := Suc (nextId s)\<rparr>"
  have t: "queue_ok ((write_task (nextId s) t ?s)
      \<lparr>taskQueue := heap_push (cmp (write_task (nextId s) t ?s)) (taskQueue s) (nextId s)\<rparr>)"
    if "t_id t = nextId s" "t_sortIndex t = t_expirationTime t" for t
    using push_task_ok [of ?s "nextId s" t] f that by simp
  have b: "queue_ok ((write_task (nextId s) t ?s)
      \<lparr>timerQueue := heap_push (cmp (write_task (nextId s) t ?s)) (timerQueue s) (nextId s)\<rparr>)"
    if "t_id t = nextId s" "t_sortIndex t = t_startTime t" for t
    using push_timer_ok [of ?s "nextId s" t] f that by simp
  show ?thesis
    unfolding scheduleCallback_def Let_def by (auto simp: t b)
qed

lemma cancelCallback_ok: "queue_ok s \<Longrightarrow> tasks s i \<noteq> None \<Longrightarrow> queue_ok (cancelCallback i s)"
  unfolding cancelCallback_def by (rule same_order_queue_ok [OF same_order_callback])

lemma run_op_ok: "queue_ok s \<Longrightarrow> queue_ok (run_op p s)"
  by (cases p) (auto simp: scheduleCallback_ok cancelCallback_ok requestPaint_def forceFrameRate_def)

lemma run_ops_ok: "queue_ok s \<Longrightarrow> queue_ok (fold run_op ops s)"
  by (induction ops arbitrary: s) (simp_all add: run_op_ok)

lemma handle_timeout_ok: "queue_ok s \<Longrightarrow> queue_ok (handle_timeout V s)"
  by (auto simp: handle_timeout_def Let_def advance_timers_ok split: option.splits)

section \<open>No wake-up is lost\<close>

text \<open>Between host events: work in the ready queue has a message posted for it, and
  work in the delayed queue has a message posted or a host timer pending.\<close>

definition wake_ok :: "'cb sched \<Rightarrow> bool" where
  "wake_ok s \<longleftrightarrow>
     (hostCallbackScheduled s \<longrightarrow> messageLoopRunning s)
   \<and> (taskQueue s \<noteq> [] \<longrightarrow> messageLoopRunning s)
   \<and> (timerQueue s \<noteq> [] \<longrightarrow> messageLoopRunning s \<or> timers s \<noteq> [])"

definition idle_ok :: "'cb sched \<Rightarrow> bool" where
  "idle_ok s \<longleftrightarrow> queue_ok s \<and> wake_ok s \<and> \<not> performingWork s \<and> posted s = of_bool (messageLoopRunning s)"

text \<open>While the message handler runs.\<close>

definition busy_ok :: "'cb sched \<Rightarrow> bool" where
  "busy_ok s \<longleftrightarrow> queue_ok s \<and> performingWork s \<and> messageLoopRunning s \<and> \<not> hostCallbackScheduled s
     \<and> posted s = 0"

lemma idle_ok_init: "idle_ok (init_sched t0)"
  by (simp add: idle_ok_def wake_ok_def queue_ok_init) (simp add: init_sched_def)

lemma push_empty [simp]: "heap_push c [] i = [i]" "heap_peek [i] = Some i"
  by (simp_all add: heap_push_def sift_up.simps heap_peek_def)

lemma scheduleCallback_wake:
  assumes "idle_ok s"
  shows "idle_ok (snd (scheduleCallback V W fe s))"
proof -
  have ok: "queue_ok (snd (scheduleCallback V W fe s))"
    using assms by (simp add: idle_ok_def scheduleCallback_ok)
  have "wake_ok (snd (scheduleCallback V W fe s)) \<and> \<not> performingWork (snd (scheduleCallback V W fe s))
      \<and> posted (snd (scheduleCallback V W fe s)) = of_bool (messageLoopRunning (snd (scheduleCallback V W fe s)))"
    using assms
    unfolding scheduleCallback_def Let_def idle_ok_def wake_ok_def
    by (auto simp: request_timeout_def clear_timeout_def ensure_loop_def post_message_def)
  with ok show ?thesis by (simp add: idle_ok_def)
qed

lemma scheduleCallback_busy:
  assumes "busy_ok s"
  shows "busy_ok (snd (scheduleCallback V W fe s))"
proof -
  have "queue_ok (snd (scheduleCallback V W fe s))"
    using assms by (simp add: busy_ok_def scheduleCallback_ok)
  with assms show ?thesis
    unfolding scheduleCallback_def Let_def busy_ok_def
    by (auto simp: request_timeout_def clear_timeout_def)
qed

lemma run_op_idle: "idle_ok s \<Longrightarrow> idle_ok (run_op p s)"
proof (cases p)
  case (OpCancel i)
  then show "idle_ok s \<Longrightarrow> ?thesis"
    using cancelCallback_ok [of s i]
    by (simp add: idle_ok_def wake_ok_def) (auto simp: cancelCallback_def)
qed (simp_all add: scheduleCallback_wake, simp_all add: requestPaint_def forceFrameRate_def idle_ok_def wake_ok_def)

lemma run_op_busy: "busy_ok s \<Longrightarrow> busy_ok (run_op p s)"
proof (cases p)
  case (OpCancel i)
  then show "busy_ok s \<Longrightarrow> ?thesis"
    using cancelCallback_ok [of s i]
    by (simp add: busy_ok_def) (simp add: cancelCallback_def)
qed (simp_all add: scheduleCallback_busy, simp_all add: requestPaint_def forceFrameRate_def busy_ok_def)

lemma run_ops_busy: "busy_ok s \<Longrightarrow> busy_ok (fold run_op ops s)"
  by (induction ops arbitrary: s) (simp_all add: run_op_busy)

section \<open>The store of tasks only grows\<close>

lemma run_op_grows: "dom (tasks s) \<subseteq> dom (tasks (run_op p s))"
  by (cases p) (auto simp: scheduleCallback_def Let_def request_timeout_def clear_timeout_def
      ensure_loop_def post_message_def cancelCallback_def requestPaint_def forceFrameRate_def)

lemma run_ops_grows: "dom (tasks s) \<subseteq> dom (tasks (fold run_op ops s))"
proof (induction ops arbitrary: s)
  case (Cons p ops)
  then show ?case using run_op_grows [of s p] by (simp add: order_trans)
qed simp

lemma run_callback_run:
  assumes "run_callback behav cb b s = (r, s')"
  obtains ops t where "behav cb b s = (ops, t, r)" "s' = (fold run_op ops s)\<lparr>clock := max (clock s) t\<rparr>"
  using assms by (auto simp: run_callback_def Let_def split: prod.splits)

lemma run_callback_busy:
  assumes "busy_ok s" and "run_callback behav cb b s = (r, s')"
  shows "busy_ok s'" "dom (tasks s) \<subseteq> dom (tasks s')"
proof -
  obtain ops t where s': "s' = (fold run_op ops s)\<lparr>clock := max (clock s) t\<rparr>"
    using run_callback_run [OF assms(2)] by blast
  show "busy_ok s'" using run_ops_busy [OF assms(1), of ops] by (simp add: s' busy_ok_def)
  show "dom (tasks s) \<subseteq> dom (tasks s')" using run_ops_grows [of s ops] by (simp add: s')
qed

section \<open>One iteration of the work loop\<close>

definition start_task :: "nat \<Rightarrow> 'cb sched \<Rightarrow> 'cb sched" where
  "start_task S s = (write_task S ((deref s S)\<lparr>t_callback := None\<rparr>) s)
     \<lparr>currentPriority := t_priorityLevel (deref s S)\<rparr>"

definition drop_head :: "'cb sched \<Rightarrow> 'cb sched" where
  "drop_head s = s\<lparr>taskQueue := snd (heap_pop (cmp s) (taskQueue s))\<rparr>"

definition reload :: "'cb sched \<Rightarrow> 'cb sched" where
  "reload s = s\<lparr>currentTask := heap_peek (taskQueue s)\<rparr>"

definition finish_task :: "nat \<Rightarrow> 'cb sched \<Rightarrow> 'cb sched" where
  "finish_task S s = reload (advance_timers (clock s)
     (if heap_peek (taskQueue s) = Some S then drop_head s else s))"

lemma work_loop_cases:
  assumes "work_loop (Suc n) behav V lg s = r"
  obtains (stop) "currentTask s = None" "timerQueue s = []" "r = Some (Inr False, lg, s)"
  | (wait) q where "currentTask s = None" "heap_peek (timerQueue s) = Some q"
      "r = Some (Inr False, lg, request_timeout (js_sub (t_startTime (deref s q)) V) s)"
  | (yield) S where "currentTask s = Some S" "V < t_expirationTime (deref s S)" "should_yield s"
      "r = Some (Inr True, lg, s)"
  | (skip) S where "currentTask s = Some S" "t_callback (deref s S) = None"
      "\<not> (V < t_expirationTime (deref s S) \<and> should_yield s)"
      "work_loop n behav V lg (reload (drop_head s)) = r"
  | (run) S cb late c s2 where "currentTask s = Some S" "t_callback (deref s S) = Some cb"
      "\<not> (V < t_expirationTime (deref s S) \<and> should_yield s)"
      "late = (t_expirationTime (deref s S) \<le> V)"
      "run_callback behav cb late (start_task S s) = (c, s2)"
      "(case c of
          Thrown \<Rightarrow> Some (Inl (), lg @ [(S, late)], s2)
        | Continuation cb' \<Rightarrow> Some (Inr True, lg @ [(S, late)],
            advance_timers (clock s2) (write_task S ((deref s2 S)\<lparr>t_callback := Some cb'\<rparr>) s2))
        | Finished \<Rightarrow> work_loop n behav (clock s2) (lg @ [(S, late)]) (finish_task S s2)) = r"
proof (cases "currentTask s")
  case None
  then show ?thesis
    using assms stop wait by (cases "heap_peek (timerQueue s)") auto
next
  case (Some S)
  show ?thesis
  proof (cases "V < t_expirationTime (deref s S) \<and> should_yield s")
    case True
    then show ?thesis using assms Some by (intro yield) auto
  next
    case no_yield: False
    show ?thesis
    proof (cases "t_callback (deref s S)")
      case None
      show ?thesis
        using assms Some no_yield None
        by (intro skip [OF Some None no_yield]) (auto simp: Let_def drop_head_def reload_def)
    next
      case cb: (Some cb)
      obtain c s2 where c: "run_callback behav cb (t_expirationTime (deref s S) \<le> V) (start_task S s) = (c, s2)"
        by fastforce
      show ?thesis
        using assms Some no_yield cb c
        by (intro run [OF Some cb no_yield refl c])
          (auto simp: Let_def drop_head_def reload_def finish_task_def start_task_def
            split: result.splits if_splits)
    qed
  qed
qed

lemmas work_loop_Suc = work_loop.simps(2)
declare work_loop.simps(2) [simp del]

section \<open>The message handler keeps the invariant\<close>

definition loop_ok :: "'cb sched \<Rightarrow> bool" where
  "loop_ok s \<longleftrightarrow> busy_ok s \<and> currentTask s = heap_peek (taskQueue s)"

definition drained :: "'cb sched \<Rightarrow> bool" where
  "drained s \<longleftrightarrow> taskQueue s = [] \<and> (timerQueue s \<noteq> [] \<longrightarrow> timers s \<noteq> [])"

lemma busy_ok_advance [simp]: "busy_ok s \<Longrightarrow> busy_ok (advance_timers V s)"
  by (simp add: busy_ok_def advance_timers_ok)

lemma loop_ok_reload: "busy_ok s \<Longrightarrow> loop_ok (reload s)"
  by (simp add: loop_ok_def busy_ok_def reload_def)

lemma busy_ok_drop_head [simp]: "busy_ok s \<Longrightarrow> busy_ok (drop_head s)"
  by (simp add: busy_ok_def pop_task_ok drop_head_def)

lemma busy_ok_callback:
  "busy_ok s \<Longrightarrow> tasks s i \<noteq> None \<Longrightarrow> busy_ok (write_task i ((deref s i)\<lparr>t_callback := x\<rparr>) s)"
  using same_order_queue_ok [OF same_order_callback [of s i x]] by (simp add: busy_ok_def)

lemma busy_ok_start: "busy_ok s \<Longrightarrow> tasks s i \<noteq> None \<Longrightarrow> busy_ok (start_task i s)"
  using busy_ok_callback [of s i None] by (simp add: start_task_def) (simp add: busy_ok_def)

lemma loop_ok_finish: "busy_ok s \<Longrightarrow> loop_ok (finish_task S s)"
  by (simp add: finish_task_def loop_ok_reload)

lemma loop_ok_current:
  assumes "loop_ok s" "currentTask s = Some i"
  shows "tasks s i \<noteq> None" "i \<in> set (taskQueue s)"
  using assms heap_peek_Some [of "taskQueue s" i]
  by (auto simp: loop_ok_def busy_ok_def queue_ok_def bound_deref)

lemma loop_ok_none: "loop_ok s \<Longrightarrow> currentTask s = None \<Longrightarrow> taskQueue s = []"
  by (metis heap_peek_None loop_ok_def)

lemma busy_ok_timeout [simp]: "busy_ok (request_timeout d s) = busy_ok s"
  by (simp add: busy_ok_def) (simp add: request_timeout_def)

lemma work_loop_ok:
  assumes "work_loop n behav V lg s = Some (W, lg', s')" and "loop_ok s"
  shows "busy_ok s' \<and> (W = Inr False \<longrightarrow> drained s')"
  using assms
proof (induction n arbitrary: V lg s)
  case (Suc n)
  have b: "busy_ok s" using Suc.prems(2) by (simp add: loop_ok_def)
  from Suc.prems(1) show ?case
  proof (cases rule: work_loop_cases)
    case stop
    then show ?thesis using b loop_ok_none [OF Suc.prems(2)] by (simp add: drained_def)
  next
    case (wait q)
    then show ?thesis using b loop_ok_none [OF Suc.prems(2)]
      by (simp add: drained_def) (simp add: request_timeout_def)
  next
    case (skip S)
    then show ?thesis using Suc.IH [OF skip(4)] b by (simp add: loop_ok_reload)
  next
    case (run S cb late c s2)
    have t: "tasks s S \<noteq> None" using loop_ok_current [OF Suc.prems(2) run(1)] by simp
    note r = run_callback_busy [OF busy_ok_start [OF b t] run(5)]
    have t2: "tasks s2 S \<noteq> None" using r(2) by (auto simp: start_task_def)
    show ?thesis
      using run(6) r(1) t2 Suc.IH [of "clock s2" _ "finish_task S s2"] loop_ok_finish
      by (cases c) (auto simp: busy_ok_callback)
  qed (use b in simp)
qed simp

text \<open>\<open>oe\<close> before and after the loop.\<close>

definition enter_work :: "'cb sched \<Rightarrow> 'cb sched" where
  "enter_work s =
     (let s1 = s\<lparr>needsPaint := False, frameStart := clock s, hostCallbackScheduled := False\<rparr>;
          s2 = (if hostTimeoutScheduled s1
                then clear_timeout (s1\<lparr>hostTimeoutScheduled := False\<rparr>) else s1)
      in reload (advance_timers (clock s) (s2\<lparr>performingWork := True\<rparr>)))"

definition leave_work :: "int \<Rightarrow> unit + bool \<Rightarrow> 'cb sched \<Rightarrow> 'cb sched" where
  "leave_work fe W s =
     (let s6 = s\<lparr>currentTask := None, currentPriority := fe, performingWork := False\<rparr>
      in if W = Inr False then s6\<lparr>messageLoopRunning := False\<rparr> else post_message s6)"

lemma perform_work_alt:
  "messageLoopRunning s \<Longrightarrow> perform_work n behav s =
     map_option (\<lambda>(W, lg, s5). (lg, leave_work (currentPriority s) W s5))
       (work_loop n behav (clock s) [] (enter_work s))"
  by (auto simp: perform_work_def enter_work_def leave_work_def Let_def reload_def clear_timeout_def
      split: option.splits)

lemma enter_work_frame:
  assumes "s3 = (if hostTimeoutScheduled s
      then clear_timeout (s\<lparr>needsPaint := False, frameStart := clock s, hostCallbackScheduled := False,
             hostTimeoutScheduled := False\<rparr>)
      else s\<lparr>needsPaint := False, frameStart := clock s, hostCallbackScheduled := False\<rparr>)
    \<lparr>performingWork := True\<rparr>"
  shows "enter_work s = reload (advance_timers (clock s) s3)" "queue_ok s3 = queue_ok s"
    "taskQueue s3 = taskQueue s" "timerQueue s3 = timerQueue s" "deref s3 = deref s" "clock s3 = clock s"
    "messageLoopRunning s3 = messageLoopRunning s" "posted s3 = posted s"
    "\<not> hostCallbackScheduled s3" "performingWork s3"
  by (simp_all add: assms enter_work_def Let_def) (simp_all add: clear_timeout_def deref_def fun_eq_iff)

lemma enter_work_ok:
  assumes "idle_ok s" "0 < posted s"
  shows "loop_ok (enter_work (s\<lparr>posted := posted s - 1\<rparr>))"
proof -
  note f = enter_work_frame [OF refl, of "s\<lparr>posted := posted s - 1\<rparr>"]
  show ?thesis unfolding f(1)
    using assms f(2-)
    by (intro loop_ok_reload busy_ok_advance) (simp add: busy_ok_def idle_ok_def split: if_splits)
qed

lemma perform_work_idle:
  assumes r: "perform_work n behav (s\<lparr>posted := posted s - 1\<rparr>) = Some (lg, s')"
    and i: "idle_ok s" and p: "0 < posted s"
  shows "idle_ok s'" "currentPriority s' = currentPriority s" "currentTask s' = None"
proof -
  have m: "messageLoopRunning s" using i p by (auto simp: idle_ok_def)
  then obtain W s5 where
    w: "work_loop n behav (clock s) [] (enter_work (s\<lparr>posted := posted s - 1\<rparr>)) = Some (W, lg, s5)"
    and s': "s' = leave_work (currentPriority s) W s5"
    using r by (auto simp: perform_work_alt)
  have "busy_ok s5 \<and> (W = Inr False \<longrightarrow> drained s5)"
    using work_loop_ok [OF w enter_work_ok [OF i p]] .
  then show "idle_ok s'" "currentPriority s' = currentPriority s" "currentTask s' = None"
    unfolding s' leave_work_def Let_def
    by (auto simp: idle_ok_def busy_ok_def wake_ok_def drained_def) (auto simp: post_message_def)
qed

lemma handle_timeout_idle:
  assumes i: "idle_ok s" and t: "timers s \<noteq> []"
  shows "idle_ok (handle_timeout V (s\<lparr>timers := ts\<rparr>))"
proof -
  define s1 where "s1 = advance_timers V (s\<lparr>timers := ts, hostTimeoutScheduled := False\<rparr>)"
  have q: "queue_ok s1" "\<not> performingWork s1" "posted s1 = of_bool (messageLoopRunning s1)"
    "hostCallbackScheduled s1 \<longrightarrow> messageLoopRunning s1"
    using i by (simp_all add: s1_def idle_ok_def wake_ok_def advance_timers_ok)
  show ?thesis
    using q unfolding handle_timeout_def
    by (simp add: s1_def [symmetric] Let_def idle_ok_def wake_ok_def split: option.split)
      (auto simp: ensure_loop_def post_message_def request_timeout_def)
qed

section \<open>The host\<close>

text \<open>One host event at a time: the program calls the scheduler, time passes, the host
  delivers a posted message, or one of the pending timeouts fires.\<close>

inductive host_step :: "'cb behaviour \<Rightarrow> 'cb sched \<Rightarrow> 'cb sched \<Rightarrow> bool" for behav where
  host_call: "host_step behav s (run_op p s)"
| host_tick: "clock s \<le> t \<Longrightarrow> host_step behav s (s\<lparr>clock := t\<rparr>)"
| host_message: "0 < posted s \<Longrightarrow> perform_work n behav (s\<lparr>posted := posted s - 1\<rparr>) = Some (lg, s')
    \<Longrightarrow> host_step behav s s'"
| host_timer: "k < length (timers s)
    \<Longrightarrow> host_step behav s (handle_timeout (clock s) (s\<lparr>timers := take k (timers s) @ drop (Suc k) (timers s)\<rparr>))"

inductive reachable :: "'cb behaviour \<Rightarrow> jnum \<Rightarrow> 'cb sched \<Rightarrow> bool" for behav t0 where
  reach_init: "reachable behav t0 (init_sched t0)"
| reach_step: "reachable behav t0 s \<Longrightarrow> host_step behav s s' \<Longrightarrow> reachable behav t0 s'"

lemma host_step_idle: "host_step behav s s' \<Longrightarrow> idle_ok s \<Longrightarrow> idle_ok s'"
proof (induction rule: host_step.induct)
  case (host_tick s t)
  then show ?case by (simp add: idle_ok_def wake_ok_def)
next
  case (host_timer k s)
  then show ?case by (intro handle_timeout_idle) auto
qed (auto intro: run_op_idle perform_work_idle)

lemma reachable_idle: "reachable behav t0 s \<Longrightarrow> idle_ok s"
  by (induction rule: reachable.induct) (auto intro: idle_ok_init host_step_idle)

text \<open>C1: The scheduler never loses a wake-up. In every state the host can reach, for every
  behaviour of the callbacks (including callbacks that throw), ready work has exactly one
  message posted for it, delayed work has that message or a pending host timer, and no
  message is posted twice.\<close>

theorem no_lost_wakeup:
  assumes "reachable behav t0 s"
  shows "(taskQueue s \<noteq> [] \<longrightarrow> posted s = 1)
    \<and> (timerQueue s \<noteq> [] \<longrightarrow> posted s = 1 \<or> timers s \<noteq> []) \<and> posted s \<le> 1"
  using reachable_idle [OF assms] by (auto simp: idle_ok_def wake_ok_def)

theorem no_lost_wakeup_witness:
  "(\<lambda>s :: nat sched. taskQueue s = [1] \<and> posted s = 1) (run_op (OpSchedule 3 7 None) (init_sched 0))"
proof -
  let ?s = "run_op (OpSchedule 3 7 None) (init_sched 0) :: nat sched"
  have "reachable (\<lambda>_ _ _. ([], 0, Finished)) 0 ?s"
    by (rule reach_step [OF reach_init host_call])
  note no_lost_wakeup [OF this]
  moreover have "taskQueue ?s = [1]"
    by (simp add: scheduleCallback_def init_sched_def ensure_loop_def post_message_def Let_def)
  ultimately show ?thesis by simp
qed

section \<open>What advanceTimers moves\<close>

lemma timer_peek_min:
  assumes q: "queue_ok s" and W: "heap_peek (timerQueue s) = Some W" and i: "i \<in> set (timerQueue s)"
  shows "t_startTime (deref s W) \<le> t_startTime (deref s i)"
proof -
  have "cmp s W i \<le> 0" using q W i by (intro task_order.peek_min) (auto simp: queue_ok_def)
  moreover have "W \<in> set (timerQueue s)" using heap_peek_Some [OF W] by simp
  ultimately show ?thesis using q i by (auto simp: queue_ok_def cmp_def compare_tasks_le)
qed

lemma advance_timers_keeps [simp]:
  "t_callback (deref (advance_timers V s) i) = t_callback (deref s i)"
  "t_startTime (deref (advance_timers V s) i) = t_startTime (deref s i)"
  "t_expirationTime (deref (advance_timers V s) i) = t_expirationTime (deref s i)"
  "t_priorityLevel (deref (advance_timers V s) i) = t_priorityLevel (deref s i)"
proof -
  have "t_callback (deref (advance_timers V s) i) = t_callback (deref s i)
    \<and> t_startTime (deref (advance_timers V s) i) = t_startTime (deref s i)
    \<and> t_expirationTime (deref (advance_timers V s) i) = t_expirationTime (deref s i)
    \<and> t_priorityLevel (deref (advance_timers V s) i) = t_priorityLevel (deref s i)"
    by (rule advance_timers_induct [where P = "\<lambda>s r. t_callback (deref r i) = t_callback (deref s i)
      \<and> t_startTime (deref r i) = t_startTime (deref s i)
      \<and> t_expirationTime (deref r i) = t_expirationTime (deref s i)
      \<and> t_priorityLevel (deref r i) = t_priorityLevel (deref s i)"]) auto
  then show "t_callback (deref (advance_timers V s) i) = t_callback (deref s i)"
    "t_startTime (deref (advance_timers V s) i) = t_startTime (deref s i)"
    "t_expirationTime (deref (advance_timers V s) i) = t_expirationTime (deref s i)"
    "t_priorityLevel (deref (advance_timers V s) i) = t_priorityLevel (deref s i)" by blast+
qed

text \<open>The tasks that are due at a time, and those that are not.\<close>

definition due :: "jnum \<Rightarrow> 'cb sched \<Rightarrow> nat set" where
  "due V s = {i \<in> set (timerQueue s). t_callback (deref s i) \<noteq> None \<and> t_startTime (deref s i) \<le> V}"

definition not_due :: "jnum \<Rightarrow> 'cb sched \<Rightarrow> nat set" where
  "not_due V s = {i \<in> set (timerQueue s). t_callback (deref s i) \<noteq> None \<and> V < t_startTime (deref s i)}"

definition advanced :: "jnum \<Rightarrow> 'cb sched \<Rightarrow> 'cb sched \<Rightarrow> bool" where
  "advanced V s r \<longleftrightarrow> set (taskQueue r) = set (taskQueue s) \<union> due V s
     \<and> not_due V s \<subseteq> set (timerQueue r) \<and> set (timerQueue r) \<subseteq> set (timerQueue s)
     \<and> (\<forall>i \<in> set (timerQueue r). V < t_startTime (deref r i))"

lemma advance_timers_advanced: "queue_ok s \<Longrightarrow> advanced V s (advance_timers V s)"
proof (rule advance_timers_induct [where P = "\<lambda>s r. queue_ok s \<longrightarrow> advanced V s r", THEN mp])
  fix s :: "'a sched"
  assume h: "\<And>W. heap_peek (timerQueue s) = Some W \<Longrightarrow> V < t_startTime (deref s W)"
  show "queue_ok s \<longrightarrow> advanced V s s"
  proof
    assume ok: "queue_ok s"
    have "V < t_startTime (deref s i)" if "i \<in> set (timerQueue s)" for i
    proof -
      from that obtain W where "heap_peek (timerQueue s) = Some W"
        by (cases "heap_peek (timerQueue s)") auto
      then show ?thesis using h timer_peek_min [OF ok _ that] by fastforce
    qed
    then show "advanced V s s" by (force simp: advanced_def due_def not_due_def)
  qed
next
  fix s :: "'a sched" and W r
  assume W: "heap_peek (timerQueue s) = Some W" "t_callback (deref s W) = None"
    and IH: "queue_ok (s\<lparr>timerQueue := snd (heap_pop (cmp s) (timerQueue s))\<rparr>) \<longrightarrow>
      advanced V (s\<lparr>timerQueue := snd (heap_pop (cmp s) (timerQueue s))\<rparr>) r"
  show "queue_ok s \<longrightarrow> advanced V s r"
  proof
    assume ok: "queue_ok s"
    have "set (snd (heap_pop (cmp s) (timerQueue s))) = set (timerQueue s) - {W}"
      using ok heap_peek_Some [OF W(1)] by (auto simp: queue_ok_def pop_set)
    with IH ok W show "advanced V s r"
      by (auto simp: advanced_def due_def not_due_def pop_timer_ok)
  qed
next
  fix s :: "'a sched" and W s1 s2 r
  assume W: "heap_peek (timerQueue s) = Some W" "t_callback (deref s W) \<noteq> None" "t_startTime (deref s W) \<le> V"
    and s1: "s1 = s\<lparr>timerQueue := snd (heap_pop (cmp s) (timerQueue s))\<rparr>"
    and s2: "s2 = write_task W ((deref s W)\<lparr>t_sortIndex := t_expirationTime (deref s W)\<rparr>) s1"
    and IH: "queue_ok (s2\<lparr>taskQueue := heap_push (cmp s2) (taskQueue s2) W\<rparr>) \<longrightarrow>
      advanced V (s2\<lparr>taskQueue := heap_push (cmp s2) (taskQueue s2) W\<rparr>) r"
  show "queue_ok s \<longrightarrow> advanced V s r"
  proof
    assume ok: "queue_ok s"
    have p: "set (timerQueue s1) = set (timerQueue s) - {W}" "W \<in> set (timerQueue s)"
      using ok heap_peek_Some [OF W(1)] by (auto simp: queue_ok_def pop_set s1)
    have "queue_ok (s2\<lparr>taskQueue := heap_push (cmp s2) (taskQueue s2) W\<rparr>)"
      by (rule move_timer_ok [OF ok W(1) s1 s2])
    with IH have a: "advanced V (s2\<lparr>taskQueue := heap_push (cmp s2) (taskQueue s2) W\<rparr>) r" by blast
    let ?t = "s2\<lparr>taskQueue := heap_push (cmp s2) (taskQueue s2) W\<rparr>"
    have d: "t_callback (deref ?t i) = t_callback (deref s i)"
      "t_startTime (deref ?t i) = t_startTime (deref s i)" for i
      by (simp_all add: s2 s1)
    have q: "set (timerQueue ?t) = set (timerQueue s) - {W}" "set (taskQueue ?t) = insert W (set (taskQueue s))"
      using p by (simp_all add: s2) (simp add: s1)
    have "due V s = insert W (due V ?t)" "not_due V ?t = not_due V s"
      unfolding due_def not_due_def d q using p(2) W(2,3) by auto
    then show "advanced V s r" using a unfolding advanced_def q by blast
  qed
qed

section \<open>Which callback runs\<close>

lemma work_loop_log:
  "work_loop n behav V lg s = Some (W, lg', s') \<Longrightarrow> \<exists>l. lg' = lg @ l"
proof (induction n arbitrary: V lg s)
  case (Suc n)
  from Suc.prems show ?case
  proof (cases rule: work_loop_cases)
    case (run S cb late c s2)
    then show ?thesis using Suc.IH [of "clock s2" "lg @ [(S, late)]"] by (cases c) auto
  qed (use Suc.IH in auto)
qed simp

text \<open>The order in which ready tasks run.\<close>

definition urgent :: "'cb sched \<Rightarrow> nat \<Rightarrow> nat \<Rightarrow> bool" where
  "urgent s i j \<longleftrightarrow> t_expirationTime (deref s i) < t_expirationTime (deref s j)
     \<or> t_expirationTime (deref s i) = t_expirationTime (deref s j) \<and> i \<le> j"

lemma task_peek_urgent:
  assumes q: "queue_ok s" and S: "heap_peek (taskQueue s) = Some S" and j: "j \<in> set (taskQueue s)"
  shows "urgent s S j"
proof -
  have "cmp s S j \<le> 0" using q S j by (intro task_order.peek_min) (auto simp: queue_ok_def)
  moreover have "S \<in> set (taskQueue s)" using heap_peek_Some [OF S] by simp
  ultimately show ?thesis
    using q j by (simp add: queue_ok_def cmp_def compare_tasks_le urgent_def bound_deref)
qed

lemma drop_head_set:
  assumes "queue_ok s" "heap_peek (taskQueue s) = Some S"
  shows "set (taskQueue (drop_head s)) = set (taskQueue s) - {S}"
  using assms heap_peek_Some [OF assms(2)] by (auto simp: drop_head_def queue_ok_def pop_set)

lemma work_loop_first:
  assumes "work_loop n behav V [] s = Some (W, (i, late) # l, s')" and "loop_ok s"
  shows "i \<in> set (taskQueue s) \<and> t_callback (deref s i) \<noteq> None
    \<and> late = (t_expirationTime (deref s i) \<le> V)
    \<and> (\<forall>j \<in> set (taskQueue s). t_callback (deref s j) \<noteq> None \<longrightarrow> urgent s i j)"
  using assms
proof (induction n arbitrary: s)
  case (Suc n)
  have q: "queue_ok s" "busy_ok s" using Suc.prems(2) by (auto simp: loop_ok_def busy_ok_def)
  from Suc.prems(1) show ?case
  proof (cases rule: work_loop_cases)
    case (skip S)
    have pk: "heap_peek (taskQueue s) = Some S" using Suc.prems(2) skip(1) by (simp add: loop_ok_def)
    have d: "deref (reload (drop_head s)) j = deref s j" for j
      by (simp add: deref_def reload_def drop_head_def)
    have u: "urgent (reload (drop_head s)) = urgent s"
      "taskQueue (reload (drop_head s)) = taskQueue (drop_head s)"
      by (simp_all add: urgent_def fun_eq_iff d) (simp add: reload_def)
    note IH = Suc.IH [OF skip(4) loop_ok_reload [OF busy_ok_drop_head [OF q(2)]],
        unfolded d u drop_head_set [OF q(1) pk]]
    have "urgent s i j" if "j \<in> set (taskQueue s)" "t_callback (deref s j) \<noteq> None" for j
      using IH that skip(2) by (metis Diff_iff singletonD)
    with IH show ?thesis by simp
  next
    case (run S cb lt c s2)
    have pk: "heap_peek (taskQueue s) = Some S" using Suc.prems(2) run(1) by (simp add: loop_ok_def)
    have "(S, lt) = (i, late)"
      using run(6) work_loop_log [of n behav "clock s2" "[(S, lt)]" "finish_task S s2" W "(i, late) # l" s']
      by (cases c) auto
    then show ?thesis
      using run(2,4) task_peek_urgent [OF q(1) pk] heap_peek_Some [OF pk] by auto
  qed simp_all
qed simp

lemma enter_work_tasks:
  assumes "queue_ok s"
  shows "set (taskQueue (enter_work s)) = set (taskQueue s) \<union> due (clock s) s"
    "t_callback (deref (enter_work s) i) = t_callback (deref s i)"
    "t_expirationTime (deref (enter_work s) i) = t_expirationTime (deref s i)"
    "clock (enter_work s) = clock s"
proof -
  note f = enter_work_frame [OF refl, of s]
  have r: "taskQueue (reload t) = taskQueue t" "deref (reload t) = deref t" "clock (reload t) = clock t" for t :: "'a sched"
    by (simp_all add: reload_def deref_def fun_eq_iff)
  show "set (taskQueue (enter_work s)) = set (taskQueue s) \<union> due (clock s) s"
    unfolding f(1) r using advance_timers_advanced [OF f(2) [THEN iffD2, OF assms], of "clock s"]
    unfolding advanced_def due_def f(3-5) by blast
  show "t_callback (deref (enter_work s) i) = t_callback (deref s i)"
    "t_expirationTime (deref (enter_work s) i) = t_expirationTime (deref s i)"
    "clock (enter_work s) = clock s"
    unfolding f(1) r advance_timers_keeps advance_timers_sel f(5,6) by (rule refl)+
qed

lemma due_posted [simp]: "due V (s\<lparr>posted := n\<rparr>) = due V s" "deref (s\<lparr>posted := n\<rparr>) = deref s"
  by (simp_all add: due_def deref_def fun_eq_iff)

lemma perform_work_enter:
  assumes "perform_work n behav (s\<lparr>posted := posted s - 1\<rparr>) = Some (lg, s')"
    and "idle_ok s" "0 < posted s"
  obtains s4 W s5 where "loop_ok s4" "work_loop n behav (clock s) [] s4 = Some (W, lg, s5)"
    "taskQueue s' = taskQueue s5" "deref s' = deref s5" "clock s' = clock s5" "clock s4 = clock s"
    "set (taskQueue s4) = set (taskQueue s) \<union> due (clock s) s"
    "\<And>i. t_callback (deref s4 i) = t_callback (deref s i)"
    "\<And>i. t_expirationTime (deref s4 i) = t_expirationTime (deref s i)"
proof -
  let ?s = "s\<lparr>posted := posted s - 1\<rparr>"
  have m: "messageLoopRunning s" "queue_ok ?s" using assms by (auto simp: idle_ok_def)
  obtain W s5 where w: "work_loop n behav (clock s) [] (enter_work ?s) = Some (W, lg, s5)"
    and s': "s' = leave_work (currentPriority s) W s5"
    using assms(1) m by (auto simp: perform_work_alt)
  have s5: "taskQueue s' = taskQueue s5" "deref s' = deref s5" "clock s' = clock s5"
    by (simp_all add: s' leave_work_def Let_def post_message_def deref_def fun_eq_iff)
  show ?thesis
    using that [OF enter_work_ok [OF assms(2,3)] w s5] enter_work_tasks [OF m(2)] by simp
qed

text \<open>C7: A message handler starts with the most urgent work. The first callback it calls belongs
  to a task that is ready or whose delay has passed, that has not been cancelled, and that is
  least by expiration time, then by age, among all such tasks; the callback is told that it
  timed out exactly if the task's expiration time has been reached.\<close>

theorem perform_work_most_urgent:
  assumes "reachable behav t0 s" and "0 < posted s"
    and "perform_work n behav (s\<lparr>posted := posted s - 1\<rparr>) = Some ((i, late) # lg, s')"
  shows "i \<in> set (taskQueue s) \<union> due (clock s) s \<and> t_callback (deref s i) \<noteq> None
    \<and> late = (t_expirationTime (deref s i) \<le> clock s)
    \<and> (\<forall>j \<in> set (taskQueue s) \<union> due (clock s) s. t_callback (deref s j) \<noteq> None \<longrightarrow> urgent s i j)"
proof -
  obtain s4 W s5 where s4: "loop_ok s4" "work_loop n behav (clock s) [] s4 = Some (W, (i, late) # lg, s5)"
    "set (taskQueue s4) = set (taskQueue s) \<union> due (clock s) s"
    "\<And>i. t_callback (deref s4 i) = t_callback (deref s i)"
    "\<And>i. t_expirationTime (deref s4 i) = t_expirationTime (deref s i)"
    using perform_work_enter [OF assms(3) reachable_idle [OF assms(1)] assms(2)] by metis
  have "urgent s4 = urgent s" by (simp add: urgent_def fun_eq_iff s4(5))
  then show ?thesis using work_loop_first [OF s4(2,1)] unfolding s4(3,4,5) by simp
qed

definition ready_example :: "nat sched" where
  "ready_example = run_op (OpSchedule 2 8 None) (run_op (OpSchedule 3 7 None) (init_sched 0))"

definition idle_behaviour :: "nat behaviour" where
  "idle_behaviour = (\<lambda>_ _ _. ([], 0, Finished))"

lemmas sched_eval = perform_work_def scheduleCallback_def init_sched_def Let_def js_add_def js_sub_def
  timeout_of_def write_task_def heap_push_def sift_up.simps cmp_def deref_def compare_tasks_def
  ensure_loop_def post_message_def advance_timers.simps heap_peek_def work_loop_Suc nullish_def
  run_callback_def should_yield_def heap_pop_def sift_down.simps eval_nat_numeral

lemma ready_example_reachable: "reachable idle_behaviour 0 ready_example"
  unfolding ready_example_def by (intro reach_step [OF reach_step [OF reach_init host_call] host_call])

lemma ready_example_run:
  "\<exists>s'. perform_work 5 idle_behaviour (ready_example\<lparr>posted := posted ready_example - 1\<rparr>)
     = Some ([(2, False), (1, False)], s')"
  by (simp add: ready_example_def idle_behaviour_def sched_eval)

lemma ready_example_posted: "0 < posted ready_example" "taskQueue ready_example = [2, 1]"
  by (simp_all add: ready_example_def sched_eval)

theorem perform_work_most_urgent_witness:
  "2 \<in> set (taskQueue ready_example) \<union> due (clock ready_example) ready_example
   \<and> urgent ready_example 2 1 \<and> 0 < posted ready_example"
proof -
  obtain s' where r: "perform_work 5 idle_behaviour (ready_example\<lparr>posted := posted ready_example - 1\<rparr>)
     = Some ([(2, False), (1, False)], s')" using ready_example_run by blast
  have "t_callback (deref ready_example 1) \<noteq> None"
    by (simp add: ready_example_def sched_eval)
  then show ?thesis
    using perform_work_most_urgent [OF ready_example_reachable ready_example_posted(1) r]
      ready_example_posted by simp
qed

section \<open>Expired work is not left for the next frame\<close>

definition finishing :: "'cb behaviour \<Rightarrow> bool" where
  "finishing behav \<longleftrightarrow> (\<forall>cb b s. snd (snd (behav cb b s)) = Finished)"

lemma finish_task_clock [simp]: "clock (finish_task S s) = clock s"
  by (simp add: finish_task_def reload_def drop_head_def)

lemma work_loop_expired:
  assumes "work_loop n behav V lg s = Some (W, lg', s')" and "loop_ok s" and "finishing behav" and "V = clock s"
  shows "\<forall>i \<in> set (taskQueue s'). clock s' < t_expirationTime (deref s' i)"
  using assms
proof (induction n arbitrary: V lg s)
  case (Suc n)
  have q: "queue_ok s" "busy_ok s" using Suc.prems(2) by (auto simp: loop_ok_def busy_ok_def)
  from Suc.prems(1) show ?case
  proof (cases rule: work_loop_cases)
    case (yield S)
    have pk: "heap_peek (taskQueue s) = Some S" using Suc.prems(2) yield(1) by (simp add: loop_ok_def)
    have "V < t_expirationTime (deref s i)" if "i \<in> set (taskQueue s)" for i
      using yield(2) task_peek_urgent [OF q(1) pk that] by (auto simp: urgent_def)
    then show ?thesis using yield(4) Suc.prems(4) by simp
  next
    case (skip S)
    have "clock (reload (drop_head s)) = clock s" by (simp add: reload_def drop_head_def)
    then show ?thesis
      using Suc.IH [OF skip(4) loop_ok_reload [OF busy_ok_drop_head [OF q(2)]] Suc.prems(3)] Suc.prems(4) by simp
  next
    case (run S cb late c s2)
    obtain ops t where "behav cb late (start_task S s) = (ops, t, c)"
      using run_callback_run [OF run(5)] by blast
    then have "c = Finished" using Suc.prems(3) by (metis finishing_def snd_conv)
    moreover have "busy_ok s2"
      using run_callback_busy(1) [OF busy_ok_start [OF q(2) loop_ok_current(1) [OF Suc.prems(2) run(1)]] run(5)] .
    ultimately have "work_loop n behav (clock s2) (lg @ [(S, late)]) (finish_task S s2) = Some (W, lg', s')"
      "loop_ok (finish_task S s2)" using run(6) by (simp_all add: loop_ok_finish)
    then show ?thesis using Suc.IH Suc.prems(3) finish_task_clock by metis
  next
    case stop
    then show ?thesis using loop_ok_none [OF Suc.prems(2)] by simp
  next
    case (wait q)
    then show ?thesis using loop_ok_none [OF Suc.prems(2)] by (simp add: request_timeout_def)
  qed
qed simp


definition slow_behaviour :: "nat behaviour" where
  "slow_behaviour = (\<lambda>_ _ _. ([], 300, Finished))"

lemma slow_example_run:
  "\<exists>s'. perform_work 5 slow_behaviour (ready_example\<lparr>posted := posted ready_example - 1\<rparr>)
     = Some ([(2, False)], s') \<and> taskQueue s' = [1] \<and> clock s' = 300"
  by (simp add: ready_example_def slow_behaviour_def sched_eval)


section \<open>The work loop ends\<close>

text \<open>When the callbacks schedule nothing, each iteration takes a task out of the queues.\<close>

fun schedules :: "'cb op \<Rightarrow> bool" where
  "schedules (OpSchedule p cb d) = True"
| "schedules op = False"

definition quiet :: "'cb behaviour \<Rightarrow> bool" where
  "quiet behav \<longleftrightarrow> (\<forall>cb b s. \<forall>op \<in> set (fst (behav cb b s)). \<not> schedules op)"

definition pending :: "'cb sched \<Rightarrow> nat" where
  "pending s = length (taskQueue s) + length (timerQueue s)"

lemma quiet_op: "\<not> schedules op \<Longrightarrow> taskQueue (run_op op s) = taskQueue s \<and> timerQueue (run_op op s) = timerQueue s"
  by (cases op) (simp_all add: cancelCallback_def requestPaint_def forceFrameRate_def)

lemma quiet_ops:
  "\<forall>op \<in> set ops. \<not> schedules op \<Longrightarrow>
   taskQueue (fold run_op ops s) = taskQueue s \<and> timerQueue (fold run_op ops s) = timerQueue s"
  by (induction ops arbitrary: s) (simp_all add: quiet_op)

lemma timer_peek_length: "heap_peek q = Some W \<Longrightarrow> length q = Suc (length q - Suc 0)"
  by (cases q) (simp_all add: heap_peek_def)

lemma pending_advance: "pending (advance_timers V s) \<le> pending s"
  by (rule advance_timers_induct [where P = "\<lambda>s r. pending r \<le> pending s"])
    (auto simp: pending_def dest: timer_peek_length)

lemma pending_drop_head: "taskQueue s \<noteq> [] \<Longrightarrow> pending (drop_head s) < pending s"
  by (cases "taskQueue s") (simp_all add: pending_def drop_head_def)

lemma pending_reload [simp]: "pending (reload s) = pending s"
  by (simp add: pending_def reload_def)

lemma work_loop_returns:
  assumes "quiet behav" and "loop_ok s" and "pending s < n"
  shows "work_loop n behav V lg s \<noteq> None"
  using assms(2,3)
proof (induction n arbitrary: V lg s)
  case (Suc n)
  have b: "busy_ok s" using Suc.prems(1) by (simp add: loop_ok_def)
  obtain r where r: "work_loop (Suc n) behav V lg s = r" by simp
  then show ?case
  proof (cases rule: work_loop_cases)
    case (skip S)
    have "pending (drop_head s) < pending s"
      using loop_ok_current(2) [OF Suc.prems(1) skip(1)] by (intro pending_drop_head) auto
    then show ?thesis
      using Suc.IH [OF loop_ok_reload [OF busy_ok_drop_head [OF b]]] Suc.prems(2) skip(4)
        r by auto
  next
    case (run S cb late c s2)
    obtain ops t where o: "behav cb late (start_task S s) = (ops, t, c)"
      "s2 = (fold run_op ops (start_task S s))\<lparr>clock := max (clock (start_task S s)) t\<rparr>"
      using run_callback_run [OF run(5)] by blast
    have "\<forall>op \<in> set ops. \<not> schedules op" using assms(1) o(1) by (metis fst_conv quiet_def)
    then have q: "taskQueue s2 = taskQueue s" "timerQueue s2 = timerQueue s"
      using quiet_ops [of ops "start_task S s"] o(2) by (simp_all add: start_task_def)
    have pk: "heap_peek (taskQueue s2) = Some S" using Suc.prems(1) run(1) q by (simp add: loop_ok_def)
    have "pending (drop_head s2) < pending s2"
      using heap_peek_Some [OF pk] by (intro pending_drop_head) auto
    moreover have "pending s2 = pending s" by (simp add: pending_def q)
    ultimately have "pending (finish_task S s2) < n"
      using pk Suc.prems(2) pending_advance [of "clock s2" "drop_head s2"] by (simp add: finish_task_def)
    moreover have "busy_ok s2"
      using run_callback_busy(1) [OF busy_ok_start [OF b loop_ok_current(1) [OF Suc.prems(1) run(1)]] run(5)] .
    ultimately show ?thesis
      using Suc.IH [of "finish_task S s2" "clock s2"] run(6) r
      by (cases c) (auto simp: loop_ok_finish)
  qed (use r in auto)
qed simp

text \<open>C15: A message handler ends. If the callbacks schedule no new work (they may cancel tasks, throw
  or ask to be continued), handling a message takes at most one loop iteration for every
  task in the two queues, plus one.\<close>

theorem perform_work_returns:
  assumes "reachable behav t0 s" and "0 < posted s" and "quiet behav"
    and "length (taskQueue s) + length (timerQueue s) < n"
  shows "\<exists>lg s'. perform_work n behav (s\<lparr>posted := posted s - 1\<rparr>) = Some (lg, s')"
proof -
  let ?s = "s\<lparr>posted := posted s - 1\<rparr>"
  have i: "idle_ok s" by (rule reachable_idle [OF assms(1)])
  have m: "messageLoopRunning ?s" using i assms(2) by (simp add: idle_ok_def split: if_splits)
  note f = enter_work_frame [OF refl, of ?s]
  have "pending (enter_work ?s) \<le> pending s"
    unfolding f(1) pending_reload
    by (rule order_trans [OF pending_advance]) (simp only: pending_def f(3,4), simp)
  then have "work_loop n behav (clock ?s) [] (enter_work ?s) \<noteq> None"
    using assms(3,4) by (intro work_loop_returns enter_work_ok [OF i assms(2)]) (auto simp: pending_def)
  then show ?thesis unfolding perform_work_alt [OF m] by auto
qed

theorem perform_work_returns_witness:
  "\<exists>lg s'. perform_work 3 idle_behaviour (ready_example\<lparr>posted := posted ready_example - 1\<rparr>) = Some (lg, s')"
proof -
  have "quiet idle_behaviour" by (simp add: quiet_def idle_behaviour_def)
  moreover have "length (taskQueue ready_example) + length (timerQueue ready_example) < 3"
    by (simp add: ready_example_def sched_eval)
  ultimately show ?thesis
    by (intro perform_work_returns [OF ready_example_reachable ready_example_posted(1)])
qed

section \<open>The heap and the timers\<close>

text \<open>C31: The queues are priority queues. Pushing a task on a heap of tasks gives a heap with that task
  added; popping a non-empty heap returns a task that compares least with all others and
  leaves a heap of exactly the remaining tasks, each as often as before.\<close>

theorem task_heap_correct:
  assumes "is_heap (cmp s) V"
  shows "is_heap (cmp s) (heap_push (cmp s) V i) \<and> mset (heap_push (cmp s) V i) = add_mset i (mset V)
    \<and> (V \<noteq> [] \<longrightarrow> (\<exists>x V'. heap_pop (cmp s) V = (Some x, V') \<and> is_heap (cmp s) V'
         \<and> mset V = add_mset x (mset V') \<and> (\<forall>y \<in> set V. cmp s x y \<le> 0)))"
proof (intro conjI impI)
  show "is_heap (cmp s) (heap_push (cmp s) V i)" using assms by (rule task_order.push_heap)
  show "mset (heap_push (cmp s) V i) = add_mset i (mset V)" by (rule push_mset)
  assume V: "V \<noteq> []"
  let ?p = "heap_pop (cmp s) V"
  have "fst ?p = Some (V ! 0)" using V by (simp add: pop_result heap_peek_def)
  moreover have "is_heap (cmp s) (snd ?p)" using assms by (rule task_order.pop_heap)
  moreover have "mset V = add_mset (V ! 0) (mset (snd ?p))"
    using V pop_mset [of V "cmp s"] by simp
  moreover have "\<forall>y \<in> set V. cmp s (V ! 0) y \<le> 0"
    using task_order.peek_min [OF assms] V by (simp add: heap_peek_def)
  ultimately show "\<exists>x V'. ?p = (Some x, V') \<and> is_heap (cmp s) V'
         \<and> mset V = add_mset x (mset V') \<and> (\<forall>y \<in> set V. cmp s x y \<le> 0)"
    by (metis prod.collapse)
qed

theorem task_heap_correct_witness:
  "\<exists>x V'. heap_pop (cmp ready_example) [2, 1] = (Some x, V') \<and> x = 2 \<and> mset V' = {#1#}
     \<and> (\<forall>y \<in> {1, 2}. cmp ready_example x y \<le> 0)"
proof -
  have h: "is_heap (cmp ready_example) [2, 1]"
    using reachable_idle [OF ready_example_reachable] ready_example_posted
    by (simp add: idle_ok_def queue_ok_def)
  have "fst (heap_pop (cmp ready_example) [2, 1]) = Some 2" by (simp add: pop_result heap_peek_def)
  then show ?thesis using task_heap_correct [OF h, of 5] by auto
qed

text \<open>\<open>advanceTimers\<close> makes ready exactly the delayed tasks that are due. In every reachable state
  the ready queue gains the delayed tasks that have started and are not cancelled; every
  delayed task that has not started stays delayed unless it was cancelled, and nothing that
  has started stays in the delayed queue.\<close>

lemma advance_timers_exact:
  assumes "reachable behav t0 s"
  shows "set (taskQueue (advance_timers V s)) = set (taskQueue s)
      \<union> {i \<in> set (timerQueue s). t_callback (deref s i) \<noteq> None \<and> t_startTime (deref s i) \<le> V}
    \<and> {i \<in> set (timerQueue s). t_callback (deref s i) \<noteq> None \<and> V < t_startTime (deref s i)}
      \<subseteq> set (timerQueue (advance_timers V s))
    \<and> set (timerQueue (advance_timers V s)) \<subseteq> {i \<in> set (timerQueue s). V < t_startTime (deref s i)}"
proof -
  have "queue_ok s" using reachable_idle [OF assms] by (simp add: idle_ok_def)
  from advance_timers_advanced [OF this, of V] show ?thesis
    unfolding advanced_def due_def not_due_def advance_timers_keeps by blast
qed

definition delayed_example :: "nat sched" where
  "delayed_example = run_op (OpSchedule 3 8 (Some 50)) (run_op (OpSchedule 3 7 (Some 10)) (init_sched 0))"

end
