(* ===== verification/React_Lanes.thy ===== *)
theory React_Lanes
  imports Js_Number
begin

text \<open>
  The lanes of the React renderer: priorities as bits of a 32-bit word. Which
  lanes a root renders next, how updates, suspension, pings and finished
  renders change the sets of a root, and when a lane expires. A loop over the
  lanes of a set, which clears the highest bit while the set is positive, is a
  fold over \<open>lane_list\<close>.
\<close>

unbundle bit_operations_syntax

type_synonym lanes = "32 word"

section \<open>Bits\<close>

definition clz32 :: "lanes \<Rightarrow> nat" where
  "clz32 l = (if l = 0 then 32 else 31 - log2n (unat l))"

text \<open>\<open>31 - fr(l)\<close> for a set that is not empty, and \<open>1 << i\<close>.\<close>

definition lane_index :: "lanes \<Rightarrow> nat" where
  "lane_index l = 31 - clz32 l"

definition lane_bit :: "nat \<Rightarrow> lanes" where
  "lane_bit i = push_bit i 1"

definition low_bit :: "lanes \<Rightarrow> lanes" where
  "low_bit l = l AND - l"

section \<open>Choosing lanes\<close>

text \<open>\<open>it\<close>.\<close>

definition getHighestPriorityLanes :: "lanes \<Rightarrow> lanes" where
  "getHighestPriorityLanes l =
     (let o' = l AND 42; b = low_bit l
      in if o' \<noteq> 0 then o'
         else if b \<in> set [1, 2, 4, 8, 16, 32, 64, 128] then b
         else if b \<in> set [256, 512, 1024, 2048, 4096, 8192, 16384, 32768, 65536, 131072] then l AND 261888
         else if b \<in> set [262144, 524288, 1048576, 2097152] then l AND 3932160
         else if b \<in> set [4194304, 8388608, 16777216, 33554432] then l AND 62914560
         else if b \<in> set [67108864, 134217728, 268435456, 536870912] then b
         else if b = 1073741824 then 0
         else l)"

text \<open>The fields of a root that the lanes and its task concern. An expiration time of -1 means none; hidden
  updates are positions in \<open>updateLanes\<close>, the lanes of the update objects.\<close>

record root =
  pendingLanes :: lanes
  suspendedLanes :: lanes
  pingedLanes :: lanes
  warmLanes :: lanes
  expiredLanes :: lanes
  entangledLanes :: lanes
  errorRecoveryDisabledLanes :: lanes
  shellSuspendCounter :: nat
  entanglements :: "lanes list"
  expirationTimes :: "jnum list"
  hiddenUpdates :: "nat option list option list"
  updateLanes :: "lanes list"
  root_tag :: nat
  callbackNode :: "nat option"
  callbackPriority :: lanes
  cancelPendingCommit :: bool
  timeoutHandle :: int

text \<open>\<open>Je\<close>; \<open>o\<close> are the lanes that are being rendered, \<open>f\<close> says that a commit is pending.\<close>

definition selected_lanes :: "root \<Rightarrow> bool \<Rightarrow> lanes" where
  "selected_lanes l f =
     (let p = pendingLanes l; s = suspendedLanes l; j = pingedLanes l; w = warmLanes l; Y = p AND 134217727
      in if Y \<noteq> 0
         then (if Y AND NOT s \<noteq> 0 then getHighestPriorityLanes (Y AND NOT s)
               else if j AND Y \<noteq> 0 then getHighestPriorityLanes (j AND Y)
               else if f then 0
               else if Y AND NOT w \<noteq> 0 then getHighestPriorityLanes (Y AND NOT w) else 0)
         else (if p AND NOT s \<noteq> 0 then getHighestPriorityLanes (p AND NOT s)
               else if j \<noteq> 0 then getHighestPriorityLanes j
               else if f then 0
               else if p AND NOT w \<noteq> 0 then getHighestPriorityLanes (p AND NOT w) else 0))"

definition getNextLanes :: "root \<Rightarrow> lanes \<Rightarrow> bool \<Rightarrow> lanes" where
  "getNextLanes l o' f =
     (if pendingLanes l = 0 then 0
      else (let x = selected_lanes l f; b = low_bit x; g = low_bit o'
            in if x = 0 then 0
               else if o' \<noteq> 0 \<and> o' \<noteq> x \<and> o' AND suspendedLanes l = 0 \<and> (sint g \<le> sint b \<or> b = 32 \<and> g AND 4194048 \<noteq> 0)
                    then o' else x))"

text \<open>\<open>Tt\<close>.\<close>

definition checkIfRootIsPrerendering :: "root \<Rightarrow> lanes \<Rightarrow> bool" where
  "checkIfRootIsPrerendering l o' \<longleftrightarrow>
     pendingLanes l AND NOT (suspendedLanes l AND NOT (pingedLanes l)) AND o' = 0"

text \<open>\<open>yt\<close>.\<close>

definition computeExpirationTime :: "lanes \<Rightarrow> jnum \<Rightarrow> jnum" where
  "computeExpirationTime l o' =
     (if l \<in> set [1, 2, 4, 8, 64] then js_add o' 250
      else if l \<in> set [16, 32, 128, 256, 512, 1024, 2048, 4096, 8192, 16384, 32768, 65536, 131072, 262144, 524288,
          1048576, 2097152] then js_add o' 5000
      else -1)"

text \<open>\<open>Pr\<close>: the retry lanes are handed out in turn; the next one is the second result.\<close>

definition claimNextRetryLane :: "lanes \<Rightarrow> lanes \<times> lanes" where
  "claimNextRetryLane z = (z, let z' = push_bit 1 z in if z' AND 62914560 = 0 then 4194304 else z')"

text \<open>\<open>ai\<close>.\<close>

definition createLaneMap :: "'a \<Rightarrow> 'a list" where
  "createLaneMap v = replicate 31 v"

section \<open>Changing the sets of a root\<close>

text \<open>\<open>Gu\<close>.\<close>

definition markRootUpdated :: "root \<Rightarrow> lanes \<Rightarrow> root" where
  "markRootUpdated l o' =
     (let l1 = l\<lparr>pendingLanes := pendingLanes l OR o'\<rparr>
      in if o' \<noteq> 268435456 then l1\<lparr>suspendedLanes := 0, pingedLanes := 0, warmLanes := 0\<rparr> else l1)"

text \<open>The positions of the lanes of a set from the highest to the lowest, and those a loop visits that runs
  while the set is positive.\<close>

function lane_list :: "lanes \<Rightarrow> nat list" where
  "lane_list x =
     (if x \<noteq> 0 then lane_index x # lane_list (x AND NOT (lane_bit (lane_index x))) else [])"
  by auto

definition pos_lanes :: "lanes \<Rightarrow> nat list" where
  "pos_lanes x = (if 0 < sint x then lane_list x else [])"

lemma index_bounds: "x \<noteq> 0 \<Longrightarrow> 2 ^ lane_index x \<le> unat x \<and> unat x < 2 ^ Suc (lane_index x) \<and> lane_index x < 32"
proof -
  assume "x \<noteq> 0"
  then have p: "0 < unat x" by (simp add: unat_gt_0)
  note b = log2n_bounds [OF p]
  have "unat x < 2 ^ 32" using unsigned_less [where 'a = nat and w = x] by simp
  then have "(2::nat) ^ log2n (unat x) < 2 ^ 32" using b by linarith
  then have "log2n (unat x) < 32" by (rule power_less_imp_less_exp [rotated]) simp
  moreover from this have "lane_index x = log2n (unat x)" using \<open>x \<noteq> 0\<close> by (simp add: lane_index_def clz32_def)
  ultimately show ?thesis using b by simp
qed

lemma bit_unat: "bit (x :: lanes) n \<longleftrightarrow> odd (unat x div 2 ^ n)"
proof -
  have "bit (unat x) n \<longleftrightarrow> bit x n" by (auto simp: bit_unsigned_iff possible_bit_def dest: bit_imp_le_length)
  then show ?thesis by (simp add: bit_iff_odd [of "unat x"])
qed

lemma bit_index: "x \<noteq> 0 \<Longrightarrow> bit x (lane_index x)"
proof -
  assume "x \<noteq> 0"
  then have "unat x div 2 ^ lane_index x = 1" using index_bounds [of x] by (intro div_nat_eqI) simp_all
  then show ?thesis by (simp add: bit_unat)
qed

lemma no_bit_above: "x \<noteq> 0 \<Longrightarrow> lane_index x < n \<Longrightarrow> \<not> bit x n"
proof -
  assume "x \<noteq> 0" "lane_index x < n"
  then have "unat x < 2 ^ n" using index_bounds [of x] power_increasing [of "Suc (lane_index x)" n "2::nat"] by simp
  then show ?thesis by (simp add: bit_unat)
qed

lemma bit_lane_bit [simp]: "bit (lane_bit k) n \<longleftrightarrow> n = k \<and> n < 32"
  by (auto simp: lane_bit_def bit_simps)

lemma sint_pos: "0 < sint (x :: lanes) \<longleftrightarrow> x \<noteq> 0 \<and> \<not> bit x 31"
proof -
  have "0 \<le> sint x \<longleftrightarrow> \<not> bit x 31" by (simp add: sint_uint bit_unsigned_iff)
  moreover have "sint x = 0 \<longleftrightarrow> x = 0" by (metis signed_0 signed_word_eqI)
  ultimately show ?thesis by auto
qed

definition bits :: "lanes \<Rightarrow> nat set" where
  "bits x = {n. bit x n}"

lemma bits_finite [simp]: "finite (bits x)"
  by (rule finite_subset [of _ "{..<32}"]) (auto simp: bits_def dest: bit_imp_le_length)

lemma bits_clear: "bits (x AND NOT (lane_bit k)) = bits x - {k}"
  by (auto simp: bits_def bit_simps dest: bit_imp_le_length)

termination lane_list
proof (relation "measure (\<lambda>x. card (bits x))")
  fix x :: lanes
  assume "x \<noteq> 0"
  then have "lane_index x \<in> bits x" using bit_index by (simp add: bits_def)
  then show "(x AND NOT (lane_bit (lane_index x)), x) \<in> measure (\<lambda>x. card (bits x))"
    using card_Diff1_less [OF bits_finite] by (simp add: bits_clear del: card_Diff_insert card_Diff_singleton)
qed simp

declare lane_list.simps [simp del]

lemma set_lane_list: "set (lane_list x) = bits x \<and> distinct (lane_list x)"
proof (induction x rule: lane_list.induct)
  case (1 x)
  show ?case
  proof (cases "x = 0")
    case True
    then show ?thesis by (simp add: lane_list.simps [of 0] bits_def)
  next
    case False
    have "lane_index x \<in> bits x" using bit_index False by (simp add: bits_def)
    then show ?thesis using 1 False by (simp add: lane_list.simps [of x] bits_clear insert_absorb)
  qed
qed

lemma set_pos_lanes: "\<not> bit x 31 \<Longrightarrow> set (pos_lanes x) = bits x" "distinct (pos_lanes x)"
  using set_lane_list [of x] by (auto simp: pos_lanes_def sint_pos bits_def)

lemma low_bit_odd: "odd (y :: lanes) \<Longrightarrow> y AND - y = 1"
proof -
  assume o: "odd y"
  have "unset_bit 0 y AND 1 = 0" by (auto intro!: bit_eqI simp: bit_simps)
  then have "unset_bit 0 y + 1 = unset_bit 0 y OR 1" by (simp add: disjunctive_add_eq_or)
  also have "\<dots> = y" using o by (auto intro!: bit_eqI simp: bit_simps bit_0 dest: bit_imp_le_length)
  finally have "y - 1 = unset_bit 0 y" by (simp add: algebra_simps)
  then have "- y = NOT (unset_bit 0 y)" by (simp add: minus_eq_not_minus_1)
  then show ?thesis using o
    by (auto intro!: bit_eqI simp: bit_simps bit_0 even_and_iff even_not_iff_int even_unset_bit_iff dest: bit_imp_le_length)
qed

lemma low_bit_cases:
  assumes "x \<noteq> 0"
  obtains k where "k < 32" "low_bit x = lane_bit k" "bit x k" "\<And>j. j < k \<Longrightarrow> \<not> bit x j"
proof -
  define k where "k = (LEAST n. bit x n)"
  have e: "\<exists>n. bit x n" using assms bit_eqI by (metis bit_0_eq bot_apply bot_bool_def)
  have k: "bit x k" "\<And>j. j < k \<Longrightarrow> \<not> bit x j" unfolding k_def using e LeastI_ex not_less_Least by blast+
  then have l: "k < 32" by (auto dest: bit_imp_le_length)
  let ?y = "drop_bit k x"
  have x: "x = push_bit k ?y"
  proof (rule bit_eqI)
    fix n
    have "bit x n \<Longrightarrow> k \<le> n" using k(2) by (meson not_less)
    then show "bit x n = bit (push_bit k (drop_bit k x)) n" by (auto simp: bit_simps dest: bit_imp_le_length)
  qed
  have "odd ?y" using k(1) by (simp add: bit_iff_odd_drop_bit)
  then have "low_bit x = push_bit k 1"
    unfolding low_bit_def by (subst (1 2) x) (simp add: low_bit_odd flip: push_bit_minus push_bit_and)
  then show ?thesis using that [of k] k l by (simp add: lane_bit_def)
qed

section \<open>The other operations on a root\<close>

text \<open>\<open>id\<close>.\<close>

definition markSpawnedDeferredLane :: "root \<Rightarrow> lanes \<Rightarrow> lanes \<Rightarrow> root" where
  "markSpawnedDeferredLane l o' f =
     (let p = lane_index o'
      in l\<lparr>pendingLanes := pendingLanes l OR o', suspendedLanes := suspendedLanes l AND NOT o',
           entangledLanes := entangledLanes l OR o',
           entanglements := (entanglements l)[p := entanglements l ! p OR 1073741824 OR f AND 261930]\<rparr>)"

text \<open>\<open>ps\<close>: the lanes that are no longer pending are reset one by one.\<close>

definition reset_lane :: "root \<Rightarrow> nat \<Rightarrow> root" where
  "reset_lane l i =
     (let l1 = l\<lparr>entanglements := (entanglements l)[i := 0], expirationTimes := (expirationTimes l)[i := -1]\<rparr>
      in case hiddenUpdates l ! i of
           None \<Rightarrow> l1
         | Some us \<Rightarrow>
             l1\<lparr>hiddenUpdates := (hiddenUpdates l)[i := None],
                updateLanes := fold (\<lambda>u ls. case u of None \<Rightarrow> ls | Some n \<Rightarrow> ls[n := ls ! n AND (- 536870913)]) us (updateLanes l)\<rparr>)"

definition markRootFinished :: "root \<Rightarrow> lanes \<Rightarrow> lanes \<Rightarrow> lanes \<Rightarrow> lanes \<Rightarrow> lanes \<Rightarrow> root" where
  "markRootFinished l o' f p x s =
     (let j = pendingLanes l;
          l1 = l\<lparr>pendingLanes := f, suspendedLanes := 0, pingedLanes := 0, warmLanes := 0,
                 expiredLanes := expiredLanes l AND f, entangledLanes := entangledLanes l AND f,
                 errorRecoveryDisabledLanes := errorRecoveryDisabledLanes l AND f, shellSuspendCounter := 0\<rparr>;
          l2 = fold (\<lambda>i l. reset_lane l i) (pos_lanes (j AND NOT f)) l1;
          l3 = (if p \<noteq> 0 then markSpawnedDeferredLane l2 p 0 else l2)
      in if s \<noteq> 0 \<and> x = 0 \<and> root_tag l \<noteq> 0
         then l3\<lparr>suspendedLanes := suspendedLanes l3 OR s AND NOT (j AND NOT o')\<rparr> else l3)"

text \<open>\<open>ll\<close>.\<close>

definition markRootEntangled :: "root \<Rightarrow> lanes \<Rightarrow> root" where
  "markRootEntangled l o' =
     (let f = entangledLanes l OR o'
      in l\<lparr>entangledLanes := f,
           entanglements := fold (\<lambda>p es. if lane_bit p AND o' OR es ! p AND o' \<noteq> 0 then es[p := es ! p OR o'] else es)
             (lane_list f) (entanglements l)\<rparr>)"

text \<open>\<open>fp\<close> and \<open>ja\<close>.\<close>

definition getBumpedLane :: "lanes \<Rightarrow> lanes" where
  "getBumpedLane l =
     (if l = 2 then 1 else if l = 8 then 4 else if l = 32 then 16
      else if l \<in> set [256, 512, 1024, 2048, 4096, 8192, 16384, 32768, 65536, 131072, 262144, 524288, 1048576, 2097152,
          4194304, 8388608, 16777216, 33554432] then 128
      else if l = 268435456 then 134217728 else 0)"

definition getBumpedLaneForHydration :: "root \<Rightarrow> lanes \<Rightarrow> lanes" where
  "getBumpedLaneForHydration l o' =
     (let f0 = low_bit o'; f = (if f0 AND 42 \<noteq> 0 then 1 else getBumpedLane f0)
      in if f AND (suspendedLanes l OR o') \<noteq> 0 then 0 else f)"

text \<open>\<open>Ov\<close>.\<close>

definition lanesToEventPriority :: "lanes \<Rightarrow> lanes" where
  "lanesToEventPriority l =
     (let b = low_bit l
      in if 2 < sint b then if 8 < sint b then if b AND 134217727 \<noteq> 0 then 32 else 268435456 else 8 else 2)"

text \<open>\<open>Au\<close>; \<open>pinged\<close> and \<open>updated\<close> are the lanes of the current render that were pinged and updated.\<close>

definition markRootSuspended :: "lanes \<Rightarrow> lanes \<Rightarrow> root \<Rightarrow> lanes \<Rightarrow> lanes \<Rightarrow> bool \<Rightarrow> root" where
  "markRootSuspended pinged updated l o0 f p =
     (let o' = o0 AND NOT pinged AND NOT updated;
          l1 = l\<lparr>suspendedLanes := suspendedLanes l OR o', pingedLanes := pingedLanes l AND NOT o',
                 warmLanes := (if p then warmLanes l OR o' else warmLanes l),
                 expirationTimes := fold (\<lambda>i ts. ts[i := -1]) (pos_lanes o') (expirationTimes l)\<rparr>
      in if f \<noteq> 0 then markSpawnedDeferredLane l1 f o' else l1)"

text \<open>\<open>t0\<close>: first the expiration of the pending lanes, then the task of the root. \<open>wip\<close> are the lanes being
  rendered if this root is, \<open>busy\<close> says that its render waits for data; the scheduler is called through the
  effects, with \<open>node\<close> the task it returns.\<close>

definition starve_lane :: "jnum \<Rightarrow> root \<Rightarrow> nat \<Rightarrow> root" where
  "starve_lane now l j =
     (let Y = lane_bit j; te = expirationTimes l ! j
      in if te = -1
         then (if Y AND suspendedLanes l = 0 \<or> Y AND pingedLanes l \<noteq> 0
               then l\<lparr>expirationTimes := (expirationTimes l)[j := computeExpirationTime Y now]\<rparr> else l)
         else if te \<le> now then l\<lparr>expiredLanes := expiredLanes l OR Y\<rparr> else l)"

definition markStarvedLanes :: "jnum \<Rightarrow> root \<Rightarrow> root" where
  "markStarvedLanes now l = fold (\<lambda>j l. starve_lane now l j) (pos_lanes (pendingLanes l AND (- 62914561))) l"

datatype task_effect = CancelTask nat | ScheduleTask nat nat

definition task_priority :: "lanes \<Rightarrow> nat" where
  "task_priority e = (if e = 2 \<or> e = 8 then 2 else if e = 32 then 3 else if e = 268435456 then 5 else 3)"

definition scheduleTaskForRoot :: "lanes option \<Rightarrow> bool \<Rightarrow> nat \<Rightarrow> jnum \<Rightarrow> root \<Rightarrow> root \<times> task_effect list \<times> lanes" where
  "scheduleTaskForRoot wip busy node now l0 =
     (let l = markStarvedLanes now l0;
          f = getNextLanes l (case wip of None \<Rightarrow> 0 | Some w \<Rightarrow> w) (cancelPendingCommit l \<or> timeoutHandle l \<noteq> -1);
          cancel = (case callbackNode l of None \<Rightarrow> [] | Some n \<Rightarrow> [CancelTask n])
      in if f = 0 \<or> wip \<noteq> None \<and> busy \<or> cancelPendingCommit l
         then (l\<lparr>callbackNode := None, callbackPriority := 0\<rparr>, cancel, 0)
         else if f AND 3 = 0 \<or> checkIfRootIsPrerendering l f
         then (let o' = low_bit f
               in if o' = callbackPriority l then (l, [], o')
                  else (l\<lparr>callbackPriority := o', callbackNode := Some node\<rparr>,
                        cancel @ [ScheduleTask (task_priority (lanesToEventPriority f)) node], o'))
         else (l\<lparr>callbackPriority := 2, callbackNode := None\<rparr>, cancel, 2))"

section \<open>Properties\<close>

lemma bit_less: "bit (x :: lanes) k \<Longrightarrow> k < 32"
  by (auto dest: bit_imp_le_length)

lemma subset_iff: "(a :: lanes) AND NOT b = 0 \<longleftrightarrow> (\<forall>k. bit a k \<longrightarrow> bit b k)"
proof
  assume e: "a AND NOT b = 0"
  have "bit (a AND NOT b) k = (bit a k \<and> \<not> bit b k)" for k by (auto simp: bit_simps dest: bit_less)
  then show "\<forall>k. bit a k \<longrightarrow> bit b k" by (simp add: e)
qed (auto intro!: bit_eqI simp: bit_simps)

lemma disjoint_iff: "(a :: lanes) AND b = 0 \<longleftrightarrow> (\<forall>k. bit a k \<longrightarrow> \<not> bit b k)"
proof
  assume e: "a AND b = 0"
  have "bit (a AND b) k = (bit a k \<and> bit b k)" for k by (simp add: bit_simps)
  then show "\<forall>k. bit a k \<longrightarrow> \<not> bit b k" by (simp add: e)
qed (auto intro!: bit_eqI simp: bit_simps)

lemma low_bit_subset: "bit (low_bit l) k \<Longrightarrow> bit l k"
  by (simp add: low_bit_def bit_and_iff)

lemma highest_subset: "bit (getHighestPriorityLanes l) k \<Longrightarrow> bit l k"
proof -
  have "getHighestPriorityLanes l \<in> {l AND 42, low_bit l, l AND 261888, l AND 3932160, l AND 62914560, 0, l}"
    by (simp add: getHighestPriorityLanes_def Let_def)
  then show "bit (getHighestPriorityLanes l) k \<Longrightarrow> bit l k"
    using low_bit_subset [of l k] by (elim insertE) (simp_all add: bit_and_iff)
qed

lemma highest_nonzero:
  assumes "bit l i" "i < 30"
  shows "getHighestPriorityLanes l \<noteq> 0"
proof -
  have "l \<noteq> 0" using assms(1) by auto
  then obtain k where k: "low_bit l = lane_bit k" "bit l k" "\<And>j. j < k \<Longrightarrow> \<not> bit l j" using low_bit_cases by metis
  have "k < 30" using assms k(3) [of i] by (cases "i < k") auto
  then have "k \<in> set [0..<30]" by simp
  moreover have nz: "l AND m \<noteq> 0" if "bit m k" for m using that k(2) disjoint_iff [of l m] by blast
  ultimately show ?thesis unfolding getHighestPriorityLanes_def k(1)
    by (simp add: upt_rec) (elim disjE; simp add: lane_bit_def Let_def)
qed

lemma nonIdle_bit:
  assumes "k < 27"
  shows "bit (134217727 :: lanes) k"
proof -
  have "k \<in> set [0..<27]" using assms by simp
  then show ?thesis by (simp add: upt_rec) (elim disjE; simp)
qed

lemma bit_nonzero: "bit (x :: lanes) k \<Longrightarrow> x \<noteq> 0"
  by auto

lemma selected_unsuspended:
  assumes "bit (pendingLanes l) k" "\<not> bit (suspendedLanes l) k" "k < 27"
  shows "selected_lanes l f \<noteq> 0 \<and> (\<forall>i. bit (selected_lanes l f) i \<longrightarrow> bit (pendingLanes l) i \<and> \<not> bit (suspendedLanes l) i)"
proof -
  let ?Y = "pendingLanes l AND 134217727"
  have y: "bit (?Y AND NOT (suspendedLanes l)) k" using assms nonIdle_bit by (simp add: bit_and_iff bit_not_iff bit_less)
  then have "bit ?Y k" by (simp add: bit_and_iff)
  then have "?Y \<noteq> 0" "?Y AND NOT (suspendedLanes l) \<noteq> 0" using bit_nonzero y by blast+
  then have e: "selected_lanes l f = getHighestPriorityLanes (?Y AND NOT (suspendedLanes l))"
    by (simp add: selected_lanes_def Let_def)
  have "bit (pendingLanes l) i \<and> \<not> bit (suspendedLanes l) i" if "bit (selected_lanes l f) i" for i
    using highest_subset [OF that [unfolded e]] by (simp add: bit_and_iff bit_not_iff)
  then show ?thesis using highest_nonzero [OF y] assms(3) by (auto simp: e)
qed


definition empty_root :: root where
  "empty_root =
     \<lparr>pendingLanes = 0, suspendedLanes = 0, pingedLanes = 0, warmLanes = 0, expiredLanes = 0, entangledLanes = 0,
      errorRecoveryDisabledLanes = 0, shellSuspendCounter = 0, entanglements = createLaneMap 0,
      expirationTimes = createLaneMap (-1), hiddenUpdates = createLaneMap None, updateLanes = [], root_tag = 1,
      callbackNode = None, callbackPriority = 0, cancelPendingCommit = False, timeoutHandle = -1\<rparr>"


section \<open>Expiration\<close>

text \<open>What can happen to a root while lane \<open>k\<close> waits: updates, pings, other lanes that suspend, and further
  passes of the scheduler at any time.\<close>

inductive waits :: "nat \<Rightarrow> root \<Rightarrow> root \<Rightarrow> bool" for k where
  stay: "waits k l l"
| update: "waits k l l' \<Longrightarrow> \<not> bit o' 31 \<Longrightarrow> waits k l (markRootUpdated l' o')"
| ping: "waits k l l' \<Longrightarrow> waits k l (l'\<lparr>pingedLanes := x\<rparr>)"
| suspend: "waits k l l' \<Longrightarrow> \<not> bit (o0 AND NOT pinged AND NOT updated) k \<Longrightarrow> \<not> bit o0 31 \<Longrightarrow>
    waits k l (markRootSuspended pinged updated l' o0 0 p)"
| pass: "waits k l l' \<Longrightarrow> waits k l (markStarvedLanes now l')"

definition watched :: "root \<Rightarrow> nat list" where
  "watched l = pos_lanes (pendingLanes l AND (- 62914561))"

lemma watched_iff:
  assumes "\<not> bit (pendingLanes l) 31"
  shows "k \<in> set (watched l) \<longleftrightarrow> bit (pendingLanes l) k \<and> bit (- 62914561 :: lanes) k" "distinct (watched l)"
  using set_pos_lanes [of "pendingLanes l AND (- 62914561)"] assms
  by (simp_all add: watched_def bits_def bit_and_iff)

lemma starve_lane_frame:
  "pendingLanes (starve_lane now l j) = pendingLanes l" "suspendedLanes (starve_lane now l j) = suspendedLanes l"
  "pingedLanes (starve_lane now l j) = pingedLanes l" "length (expirationTimes (starve_lane now l j)) = length (expirationTimes l)"
  "i \<noteq> j \<Longrightarrow> expirationTimes (starve_lane now l j) ! i = expirationTimes l ! i"
  "bit (expiredLanes l) i \<Longrightarrow> bit (expiredLanes (starve_lane now l j)) i"
  by (auto simp: starve_lane_def Let_def bit_or_iff)

lemma starve_lane_keeps:
  "expirationTimes l ! i \<noteq> -1 \<Longrightarrow> expirationTimes (starve_lane now l j) ! i = expirationTimes l ! i"
  by (cases "i = j") (auto simp: starve_lane_def Let_def)

lemma starve_fold_frame:
  "pendingLanes (fold (\<lambda>j l. starve_lane now l j) js l) = pendingLanes l
   \<and> suspendedLanes (fold (\<lambda>j l. starve_lane now l j) js l) = suspendedLanes l
   \<and> pingedLanes (fold (\<lambda>j l. starve_lane now l j) js l) = pingedLanes l
   \<and> length (expirationTimes (fold (\<lambda>j l. starve_lane now l j) js l)) = length (expirationTimes l)
   \<and> (k \<notin> set js \<or> expirationTimes l ! k \<noteq> -1 \<longrightarrow>
        expirationTimes (fold (\<lambda>j l. starve_lane now l j) js l) ! k = expirationTimes l ! k)
   \<and> (bit (expiredLanes l) k \<longrightarrow> bit (expiredLanes (fold (\<lambda>j l. starve_lane now l j) js l)) k)"
  by (induction js arbitrary: l) (auto simp: starve_lane_frame starve_lane_keeps)

lemma starve_fold_at:
  assumes "k \<in> set js" "distinct js"
  obtains l1 where "pendingLanes l1 = pendingLanes l" "suspendedLanes l1 = suspendedLanes l" "pingedLanes l1 = pingedLanes l"
    "length (expirationTimes l1) = length (expirationTimes l)" "expirationTimes l1 ! k = expirationTimes l ! k"
    "expirationTimes (fold (\<lambda>j l. starve_lane now l j) js l) ! k = expirationTimes (starve_lane now l1 k) ! k"
    "bit (expiredLanes (starve_lane now l1 k)) k \<Longrightarrow> bit (expiredLanes (fold (\<lambda>j l. starve_lane now l j) js l)) k"
proof -
  obtain pre post where js: "js = pre @ k # post" "k \<notin> set pre" "k \<notin> set post"
    using assms by (metis distinct.simps(2) distinct_append insert_iff list.set(2) not_distinct_conv_prefix split_list split_list_first)
  let ?l1 = "fold (\<lambda>j l. starve_lane now l j) pre l"
  show thesis
    using starve_fold_frame [where now = now and js = pre and l = l and k = k] js(2,3)
      starve_fold_frame [where now = now and js = post and l = "starve_lane now ?l1 k" and k = k]
    by (intro that [of ?l1]) (simp_all add: js(1))
qed

lemma expiring_lane:
  assumes "k < 22"
  shows "bit (- 62914561 :: lanes) k" "0 \<le> t \<Longrightarrow> computeExpirationTime (lane_bit k) t \<noteq> -1"
proof -
  have k: "k \<in> set [0..<22]" using assms by simp
  then show "bit (- 62914561 :: lanes) k" by (simp add: upt_rec) (elim disjE; simp)
  have "0 < js_add t 250" "0 < js_add t 5000" if "0 \<le> t" using that by (simp_all add: js_add_def rnd_sign)
  then have n: "js_add t 250 \<noteq> -1" "js_add t 5000 \<noteq> -1" if "0 \<le> t" using that by fastforce+
  show "computeExpirationTime (lane_bit k) t \<noteq> -1" if "0 \<le> t"
    using k n [OF that] by (simp add: upt_rec) (elim disjE; simp add: lane_bit_def computeExpirationTime_def)
qed

lemma lane_bit_disjoint: "k < 32 \<Longrightarrow> lane_bit k AND x = 0 \<longleftrightarrow> \<not> bit x k"
  by (auto simp: disjoint_iff)

text \<open>Lane \<open>k\<close> is pending with the deadline \<open>d\<close>.\<close>

definition due_at :: "nat \<Rightarrow> jnum \<Rightarrow> root \<Rightarrow> bool" where
  "due_at k d l \<longleftrightarrow> bit (pendingLanes l) k \<and> \<not> bit (pendingLanes l) 31 \<and> length (expirationTimes l) = 31
     \<and> expirationTimes l ! k = d"

lemma pass_keeps_due: "d \<noteq> -1 \<Longrightarrow> due_at k d l \<Longrightarrow> due_at k d (markStarvedLanes now l)"
  using starve_fold_frame [where now = now and js = "watched l" and l = l and k = k]
  by (simp add: due_at_def markStarvedLanes_def watched_def)

lemma first_pass_due:
  assumes "due_at k (-1) l" "k < 22" "\<not> bit (suspendedLanes l) k \<or> bit (pingedLanes l) k"
  shows "due_at k (computeExpirationTime (lane_bit k) now) (markStarvedLanes now l)"
proof -
  have w: "k \<in> set (watched l)" "distinct (watched l)"
    using assms(1) watched_iff [of l] expiring_lane(1) [OF assms(2)] by (simp_all add: due_at_def)
  obtain l1 where l1: "suspendedLanes l1 = suspendedLanes l" "pingedLanes l1 = pingedLanes l"
    "length (expirationTimes l1) = length (expirationTimes l)" "expirationTimes l1 ! k = expirationTimes l ! k"
    "expirationTimes (fold (\<lambda>j l. starve_lane now l j) (watched l) l) ! k = expirationTimes (starve_lane now l1 k) ! k"
    using starve_fold_at [OF w, where l = l and now = now] by metis
  moreover have "expirationTimes (starve_lane now l1 k) ! k = computeExpirationTime (lane_bit k) now"
    using assms l1 lane_bit_disjoint [of k] by (auto simp: starve_lane_def Let_def due_at_def)
  ultimately show ?thesis
    using assms(1) starve_fold_frame [where now = now and js = "watched l" and l = l and k = k]
    by (simp add: due_at_def markStarvedLanes_def watched_def)
qed

lemma late_pass_expires:
  assumes "due_at k d l" "d \<noteq> -1" "d \<le> now" "k < 22"
  shows "bit (expiredLanes (markStarvedLanes now l)) k"
proof -
  have w: "k \<in> set (watched l)" "distinct (watched l)"
    using assms(1) watched_iff [of l] expiring_lane(1) [OF assms(4)] by (simp_all add: due_at_def)
  obtain l1 where l1: "expirationTimes l1 ! k = expirationTimes l ! k"
    "bit (expiredLanes (starve_lane now l1 k)) k \<Longrightarrow> bit (expiredLanes (fold (\<lambda>j l. starve_lane now l j) (watched l) l)) k"
    using starve_fold_at [OF w, where l = l and now = now] by metis
  moreover have "bit (expiredLanes (starve_lane now l1 k)) k"
    using assms l1(1) by (simp add: starve_lane_def Let_def due_at_def bit_or_iff)
  ultimately show ?thesis by (simp add: markStarvedLanes_def watched_def)
qed

lemma fold_clear_nth: "k \<notin> set js \<Longrightarrow> fold (\<lambda>i ts. ts[i := v]) js ts ! k = ts ! k \<and> length (fold (\<lambda>i ts. ts[i := v]) js ts) = length ts"
  by (induction js arbitrary: ts) auto

lemma waits_due: "waits k l l' \<Longrightarrow> d \<noteq> -1 \<Longrightarrow> due_at k d l \<Longrightarrow> due_at k d l'"
proof (induction rule: waits.induct)
  case (update l l' o')
  then show ?case by (auto simp: due_at_def markRootUpdated_def Let_def bit_or_iff)
next
  case (suspend l l' o0 pinged updated p)
  then have "\<not> bit (o0 AND NOT pinged AND NOT updated) 31" by (simp add: bit_and_iff)
  then have "k \<notin> set (pos_lanes (o0 AND NOT pinged AND NOT updated))"
    using suspend.hyps(2) set_pos_lanes(1) by (simp add: bits_def)
  from fold_clear_nth [OF this, of "-1" "expirationTimes l'"] show ?case using suspend by (auto simp: due_at_def markRootSuspended_def Let_def)
next
  case (ping l l' x)
  then show ?case by (simp add: due_at_def)
qed (simp_all add: pass_keeps_due)



end
