(* ===== verification/React_Children.thy ===== *)
theory React_Children
  imports Prelude
begin

text \<open>
  Elements and children of React: the functions that create and clone an
  element, and \<open>Children.map\<close>, \<open>forEach\<close>, \<open>count\<close>, \<open>toArray\<close> and \<open>only\<close>, which
  flatten nested children and give every element a key from its path. The
  router reads its routes with them.
\<close>

section \<open>Elements\<close>

text \<open>The value of a prop; \<open>str\<close> below is the conversion to a string.\<close>

datatype 'v pval = PUndefined | PVal 'v | PArray "'v pval list"

record ('t, 'v) element =
  el_type :: 't
  el_key :: "string option"
  el_ref :: "'v pval option"
  el_props :: "(string \<times> 'v pval) list"

definition prop_of :: "string \<Rightarrow> (string \<times> 'v pval) list \<Rightarrow> 'v pval" where
  "prop_of k ps = (case map_of ps k of None \<Rightarrow> PUndefined | Some v \<Rightarrow> v)"

text \<open>\<open>F\<close> and \<open>re\<close>.\<close>

definition reactElement :: "'t \<Rightarrow> string option \<Rightarrow> (string \<times> 'v pval) list \<Rightarrow> ('t, 'v) element" where
  "reactElement q I ce =
     \<lparr>el_type = q, el_key = I, el_ref = (if prop_of ''ref'' ce \<noteq> PUndefined then Some (prop_of ''ref'' ce) else None),
      el_props = ce\<rparr>"

definition cloneAndReplaceKey :: "('t, 'v) element \<Rightarrow> string \<Rightarrow> ('t, 'v) element" where
  "cloneAndReplaceKey q I = reactElement (el_type q) (Some I) (el_props q)"

definition key_of :: "('v pval \<Rightarrow> string) \<Rightarrow> (string \<times> 'v pval) list \<Rightarrow> string option" where
  "key_of str c = (if prop_of ''key'' c \<noteq> PUndefined then Some (str (prop_of ''key'' c)) else None)"

text \<open>\<open>jsx\<close> of the runtime.\<close>

definition jsx_element :: "('v pval \<Rightarrow> string) \<Rightarrow> 't \<Rightarrow> (string \<times> 'v pval) list \<Rightarrow> 'v pval \<Rightarrow> ('t, 'v) element" where
  "jsx_element str i c s =
     (let h0 = (if s \<noteq> PUndefined then Some (str s) else None);
          h = (case key_of str c of Some k \<Rightarrow> Some k | None \<Rightarrow> h0);
          props = (if map_of c ''key'' \<noteq> None then filter (\<lambda>p. fst p \<noteq> ''key'') c else c)
      in reactElement i h props)"

definition with_children :: "'v pval list \<Rightarrow> (string \<times> 'v pval) list \<Rightarrow> (string \<times> 'v pval) list" where
  "with_children cs ps =
     (case cs of [] \<Rightarrow> ps | [c] \<Rightarrow> obj_set ''children'' c ps | _ \<Rightarrow> obj_set ''children'' (PArray cs) ps)"

definition createElement :: "('v pval \<Rightarrow> string) \<Rightarrow> ('t \<Rightarrow> (string \<times> 'v pval) list) \<Rightarrow> 't
    \<Rightarrow> (string \<times> 'v pval) list option \<Rightarrow> 'v pval list \<Rightarrow> ('t, 'v) element" where
  "createElement str defaultProps q I cs =
     (let I' = nullish I [];
          ps0 = foldl (\<lambda>ps (k, v). if k \<in> set [''key'', ''__self'', ''__source''] then ps else obj_set k v ps) [] I';
          ps1 = with_children cs ps0;
          ps2 = foldl (\<lambda>ps (k, v). if prop_of k ps = PUndefined then obj_set k v ps else ps) ps1 (defaultProps q)
      in reactElement q (key_of str I') ps2)"

definition cloneElement :: "('v pval \<Rightarrow> string) \<Rightarrow> ('t, 'v) element \<Rightarrow> (string \<times> 'v pval) list option \<Rightarrow> 'v pval list
    \<Rightarrow> ('t, 'v) element" where
  "cloneElement str q I cs =
     (let I' = nullish I [];
          key = (case key_of str I' of Some k \<Rightarrow> Some k | None \<Rightarrow> el_key q);
          ps = foldl (\<lambda>ps (k, v). if k \<in> set [''key'', ''__self'', ''__source''] \<or> k = ''ref'' \<and> v = PUndefined
                       then ps else obj_set k v ps) (el_props q) I'
      in reactElement (el_type q) key (with_children cs ps))"

section \<open>Children\<close>

text \<open>A child. Text stands for strings, numbers and bigints; a lazy child is given by what it resolves to,
  and so is a promise that is fulfilled.\<close>

datatype 'e child =
    CNull
  | CUndefined
  | CBool bool
  | CText string
  | CElem "string option" 'e
  | CPortal "string option"
  | CLazy "'e child"
  | CArray "'e child list"
  | CIterable "'e child list"
  | CFulfilled "'e child"
  | CRejected
  | CPending
  | CObject string

datatype children_failure = InvalidChild string | Rejection | Suspension | NotOneElement

text \<open>\<open>Q\<close> and \<open>ge\<close>.\<close>

definition escape_key :: "string \<Rightarrow> string" where
  "escape_key q = CHR ''$'' # concat (map (\<lambda>c. if c = CHR ''='' then ''=0'' else if c = CHR '':'' then ''=2'' else [c]) q)"

definition digit36 :: "nat \<Rightarrow> char" where
  "digit36 n = (if n < 10 then char_of (48 + n) else char_of (87 + n))"

fun show36 :: "nat \<Rightarrow> string" where
  "show36 n = (if n < 36 then [digit36 n] else show36 (n div 36) @ [digit36 (n mod 36)])"

declare show36.simps [simp del]

fun child_key :: "'e child \<Rightarrow> string option" where
  "child_key (CElem k e) = k"
| "child_key (CPortal k) = k"
| "child_key _ = None"

definition getElementKey :: "'e child \<Rightarrow> nat \<Rightarrow> string" where
  "getElementKey q I = (case child_key q of Some k \<Rightarrow> escape_key k | None \<Rightarrow> show36 I)"

text \<open>\<open>replace(/\/+/g, "$&/")\<close>: a slash after every run of slashes.\<close>

fun double_slash :: "string \<Rightarrow> string" where
  "double_slash (c # d # s) =
     (if c = CHR ''/'' \<and> d \<noteq> CHR ''/'' then ''//'' @ double_slash (d # s) else c # double_slash (d # s))"
| "double_slash [c] = (if c = CHR ''/'' then ''//'' else [c])"
| "double_slash [] = []"

text \<open>The leaves of \<open>V\<close> are nothing, text, elements and portals. What the callback returned for one is pushed
  with its new key.\<close>

text \<open>\<open>undefined\<close> and booleans become \<open>null\<close>.\<close>

definition leaf_value :: "'e child \<Rightarrow> 'e child" where
  "leaf_value q = (case q of CUndefined \<Rightarrow> CNull | CBool _ \<Rightarrow> CNull | _ \<Rightarrow> q)"

definition leaf_name :: "'e child \<Rightarrow> string \<Rightarrow> string" where
  "leaf_name q ye = (if ye = [] then CHR ''.'' # getElementKey q 0 else ye)"

definition pushed_child :: "'e child \<Rightarrow> 'e child \<Rightarrow> string \<Rightarrow> string \<Rightarrow> 'e child list" where
  "pushed_child q U ce Le =
     (case U of
        CNull \<Rightarrow> []
      | CUndefined \<Rightarrow> []
      | CElem k e \<Rightarrow>
          [CElem (Some (ce @ (case k of None \<Rightarrow> [] | Some k' \<Rightarrow>
               if (case q of CElem kq _ \<Rightarrow> kq = k | CPortal kq \<Rightarrow> kq = k | _ \<Rightarrow> False) then [] else double_slash k' @ ''/'') @ Le)) e]
      | _ \<Rightarrow> [U])"

text \<open>\<open>V\<close> with the identity as callback, then with any callback; \<open>n\<close> counts the calls of the callback. An array
  the callback returns is flattened with the identity.\<close>

fun flatten_child :: "'e child \<Rightarrow> string \<Rightarrow> string \<Rightarrow> children_failure + 'e child list"
  and flatten_children :: "'e child list \<Rightarrow> nat \<Rightarrow> string \<Rightarrow> string \<Rightarrow> children_failure + 'e child list" where
  "flatten_child (CArray qs) ce ye = flatten_children qs 0 ce (if ye = [] then ''.'' else ye @ '':'')"
| "flatten_child (CIterable qs) ce ye = flatten_children qs 0 ce (if ye = [] then ''.'' else ye @ '':'')"
| "flatten_child (CLazy q) ce ye = flatten_child q ce ye"
| "flatten_child (CFulfilled q) ce ye = flatten_child q ce ye"
| "flatten_child CRejected ce ye = Inl Rejection"
| "flatten_child CPending ce ye = Inl Suspension"
| "flatten_child (CObject s) ce ye = Inl (InvalidChild s)"
| "flatten_child q ce ye = Inr (pushed_child (leaf_value q) (leaf_value q) ce (leaf_name (leaf_value q) ye))"
| "flatten_children [] we ce Ve = Inr []"
| "flatten_children (q # qs) we ce Ve =
     (case flatten_child q ce (Ve @ getElementKey q we) of
        Inl e \<Rightarrow> Inl e
      | Inr out \<Rightarrow> (case flatten_children qs (Suc we) ce Ve of Inl e \<Rightarrow> Inl e | Inr rest \<Rightarrow> Inr (out @ rest)))"

definition map_leaf :: "('e child \<Rightarrow> nat \<Rightarrow> 'e child) \<Rightarrow> 'e child \<Rightarrow> string \<Rightarrow> string \<Rightarrow> nat
    \<Rightarrow> children_failure + 'e child list \<times> nat" where
  "map_leaf f q0 ce ye n =
     (let q = leaf_value q0; U = f q n; Le = leaf_name q ye
      in case U of
           CArray us \<Rightarrow>
             (case flatten_child U (double_slash Le @ ''/'') [] of Inl e \<Rightarrow> Inl e | Inr out \<Rightarrow> Inr (out, Suc n))
         | _ \<Rightarrow> Inr (pushed_child q U ce Le, Suc n))"

fun map_into :: "('e child \<Rightarrow> nat \<Rightarrow> 'e child) \<Rightarrow> 'e child \<Rightarrow> string \<Rightarrow> string \<Rightarrow> nat \<Rightarrow> children_failure + 'e child list \<times> nat"
  and map_list :: "('e child \<Rightarrow> nat \<Rightarrow> 'e child) \<Rightarrow> 'e child list \<Rightarrow> nat \<Rightarrow> string \<Rightarrow> string \<Rightarrow> nat
    \<Rightarrow> children_failure + 'e child list \<times> nat" where
  "map_into f (CArray qs) ce ye n = map_list f qs 0 ce (if ye = [] then ''.'' else ye @ '':'') n"
| "map_into f (CIterable qs) ce ye n = map_list f qs 0 ce (if ye = [] then ''.'' else ye @ '':'') n"
| "map_into f (CLazy q) ce ye n = map_into f q ce ye n"
| "map_into f (CFulfilled q) ce ye n = map_into f q ce ye n"
| "map_into f CRejected ce ye n = Inl Rejection"
| "map_into f CPending ce ye n = Inl Suspension"
| "map_into f (CObject s) ce ye n = Inl (InvalidChild s)"
| "map_into f q ce ye n = map_leaf f q ce ye n"
| "map_list f [] we ce Ve n = Inr ([], n)"
| "map_list f (q # qs) we ce Ve n =
     (case map_into f q ce (Ve @ getElementKey q we) n of
        Inl e \<Rightarrow> Inl e
      | Inr (out, n1) \<Rightarrow>
          (case map_list f qs (Suc we) ce Ve n1 of Inl e \<Rightarrow> Inl e | Inr (rest, n2) \<Rightarrow> Inr (out @ rest, n2)))"

text \<open>\<open>W\<close> and the methods of \<open>Children\<close>; \<^const>\<open>None\<close> is the value \<open>null\<close> or \<open>undefined\<close> it returns unchanged.\<close>

definition mapChildren :: "'e child \<Rightarrow> ('e child \<Rightarrow> nat \<Rightarrow> 'e child) \<Rightarrow> children_failure + 'e child list option" where
  "mapChildren q f =
     (if q = CNull \<or> q = CUndefined then Inr None
      else (case map_into f q [] [] 0 of Inl e \<Rightarrow> Inl e | Inr (out, _) \<Rightarrow> Inr (Some out)))"

definition children_count :: "'e child \<Rightarrow> children_failure + nat" where
  "children_count q =
     (if q = CNull \<or> q = CUndefined then Inr 0
      else (case map_into (\<lambda>_ _. CUndefined) q [] [] 0 of Inl e \<Rightarrow> Inl e | Inr (_, n) \<Rightarrow> Inr n))"

definition toArray :: "'e child \<Rightarrow> children_failure + 'e child list" where
  "toArray q = (case mapChildren q (\<lambda>u _. u) of Inl e \<Rightarrow> Inl e | Inr r \<Rightarrow> Inr (nullish r []))"

definition only :: "'e child \<Rightarrow> children_failure + 'e child" where
  "only q = (case q of CElem _ _ \<Rightarrow> Inr q | _ \<Rightarrow> Inl NotOneElement)"

section \<open>Keys from paths\<close>

fun segments :: "'e child list \<Rightarrow> nat \<Rightarrow> string list" where
  "segments [] we = []"
| "segments (q # qs) we = getElementKey q we # segments qs (Suc we)"

definition explicit_keys :: "'e child list \<Rightarrow> string list" where
  "explicit_keys qs = map the (filter (\<lambda>k. k \<noteq> None) (map child_key qs))"

text \<open>No two children of the same array have the same explicit key.\<close>

fun keys_ok :: "'e child \<Rightarrow> bool" where
  "keys_ok (CArray qs) = (distinct (explicit_keys qs) \<and> list_all keys_ok qs)"
| "keys_ok (CIterable qs) = (distinct (explicit_keys qs) \<and> list_all keys_ok qs)"
| "keys_ok (CLazy q) = keys_ok q"
| "keys_ok (CFulfilled q) = keys_ok q"
| "keys_ok _ = True"

definition element_keys :: "'e child list \<Rightarrow> string option list" where
  "element_keys out = map child_key (filter (\<lambda>q. case q of CElem _ _ \<Rightarrow> True | _ \<Rightarrow> False) out)"

lemma element_keys_append [simp]: "element_keys (a @ b) = element_keys a @ element_keys b"
  by (simp add: element_keys_def)

lemma of_char_digit36: "n < 36 \<Longrightarrow> (of_char (digit36 n) :: nat) = (if n < 10 then 48 + n else 87 + n)"
  by (simp add: digit36_def of_char_of)

lemma digit36_inj: "m < 36 \<Longrightarrow> n < 36 \<Longrightarrow> digit36 m = digit36 n \<longleftrightarrow> m = n"
proof -
  assume b: "m < 36" "n < 36"
  have "m = n" if e: "digit36 m = digit36 n"
  proof -
    have "(of_char (digit36 m) :: nat) = of_char (digit36 n)" by (simp only: e)
    then show ?thesis unfolding of_char_digit36 [OF b(1)] of_char_digit36 [OF b(2)] using b by (simp split: if_splits)
  qed
  then show "digit36 m = digit36 n \<longleftrightarrow> m = n" by blast
qed

lemma digit36_plain: "n < 36 \<Longrightarrow> digit36 n \<noteq> CHR '':'' \<and> digit36 n \<noteq> CHR ''$''"
  using of_char_digit36 [of n] by (auto split: if_splits)

lemma show36_chars: "c \<in> set (show36 n) \<Longrightarrow> \<exists>d < 36. c = digit36 d"
proof (induction n rule: show36.induct)
  case (1 n)
  then show ?case by (auto simp: show36.simps [of n] split: if_splits) (metis mod_less_divisor zero_less_numeral)
qed

lemma show36_not_Nil [simp]: "show36 n \<noteq> []" "[] \<noteq> show36 n"
  by (subst show36.simps, simp)+

lemma show36_inj [simp]: "show36 m = show36 n \<longleftrightarrow> m = n"
proof (induction m arbitrary: n rule: show36.induct)
  case (1 m)
  show ?case
  proof
    assume e: "show36 m = show36 n"
    show "m = n"
    proof (cases "m < 36 \<or> n < 36")
      case True
      then show ?thesis using e
        by (auto simp: show36.simps [of m] show36.simps [of n] digit36_inj split: if_splits)
    next
      case False
      then have "show36 (m div 36) = show36 (n div 36)" "digit36 (m mod 36) = digit36 (n mod 36)"
        using e by (simp_all add: show36.simps [of m] show36.simps [of n])
      moreover from this have "m div 36 = n div 36" using 1 [of "n div 36"] False by blast
      ultimately have "m div 36 = n div 36" "m mod 36 = n mod 36" by (simp_all add: digit36_inj)
      then show ?thesis by (metis div_mult_mod_eq)
    qed
  qed simp
qed

lemma escape_key_Cons:
  "escape_key (c # q) = CHR ''$'' # (if c = CHR ''='' then ''=0'' else if c = CHR '':'' then ''=2'' else [c]) @ tl (escape_key q)"
  by (simp add: escape_key_def)

lemma escape_key_inj [simp]: "escape_key a = escape_key b \<longleftrightarrow> a = b"
proof (induction a arbitrary: b)
  case Nil
  then show ?case by (cases b) (auto simp: escape_key_def split: if_splits)
next
  case (Cons c a)
  have t: "tl (escape_key x) = tl (escape_key y) \<longleftrightarrow> escape_key x = escape_key y" for x y by (simp add: escape_key_def)
  show ?case
  proof (cases b)
    case Nil
    then show ?thesis by (auto simp: escape_key_def split: if_splits)
  next
    case (Cons d b')
    show ?thesis unfolding Cons escape_key_Cons using Cons.IH t by (auto split: if_splits)
  qed
qed

lemma segment_plain: "CHR '':'' \<notin> set (getElementKey q n)"
proof (cases "child_key q")
  case None
  then have "getElementKey q n = show36 n" by (simp add: getElementKey_def)
  then show ?thesis using digit36_plain show36_chars [of "CHR '':''" n] by metis
next
  case (Some k)
  then show ?thesis by (auto simp: getElementKey_def escape_key_def split: if_splits)
qed

lemma escape_not_index: "escape_key k \<noteq> show36 n"
proof
  assume "escape_key k = show36 n"
  then have "set (show36 n) = set (escape_key k)" by simp
  then have "CHR ''$'' \<in> set (show36 n)" by (simp add: escape_key_def)
  then obtain d where "d < 36" "CHR ''$'' = digit36 d" using show36_chars by blast
  then show False using digit36_plain [of d] by simp
qed

lemma segments_cases:
  "s \<in> set (segments qs we) \<Longrightarrow> (\<exists>k \<in> set (explicit_keys qs). s = escape_key k) \<or> (\<exists>n \<ge> we. s = show36 n)"
proof (induction qs arbitrary: we)
  case (Cons q qs)
  have e: "set (explicit_keys (q # qs)) = (case child_key q of None \<Rightarrow> {} | Some k \<Rightarrow> {k}) \<union> set (explicit_keys qs)"
    by (auto simp: explicit_keys_def split: option.split)
  show ?case
  proof (cases "s = getElementKey q we")
    case True
    then show ?thesis by (cases "child_key q") (auto simp: e getElementKey_def)
  next
    case False
    then have "s \<in> set (segments qs (Suc we))" using Cons.prems by simp
    from Cons.IH [OF this] show ?thesis by (auto simp: e)
  qed
qed simp

lemma segments_distinct: "distinct (explicit_keys qs) \<Longrightarrow> distinct (segments qs we)"
proof (induction qs arbitrary: we)
  case (Cons q qs)
  have d: "distinct (explicit_keys qs)" "\<And>k. child_key q = Some k \<Longrightarrow> k \<notin> set (explicit_keys qs)"
    using Cons.prems by (auto simp: explicit_keys_def split: if_splits option.splits)
  have "getElementKey q we \<notin> set (segments qs (Suc we))"
  proof
    assume "getElementKey q we \<in> set (segments qs (Suc we))"
    from segments_cases [OF this] d(2) show False
      using escape_not_index by (cases "child_key q") (auto simp: getElementKey_def, metis)
  qed
  then show ?case using Cons.IH [OF d(1)] by simp
qed simp

definition path_name :: "string list \<Rightarrow> string" where
  "path_name P = (if P = [] then [] else CHR ''.'' # join_with '':'' P)"

lemma path_name_snoc: "(if path_name P = [] then ''.'' else path_name P @ '':'') @ s = path_name (P @ [s])"
proof (cases "P = []")
  case False
  have "Q \<noteq> [] \<Longrightarrow> join_with '':'' (Q @ [s]) = join_with '':'' Q @ '':'' @ s" for Q
    by (induction Q rule: list_nonempty_induct) (simp_all add: join_with_Cons)
  then show ?thesis using False by (simp add: path_name_def)
qed (simp add: path_name_def)

definition plain_path :: "string list \<Rightarrow> bool" where
  "plain_path P \<longleftrightarrow> P \<noteq> [] \<and> list_all (\<lambda>s. CHR '':'' \<notin> set s) P"

lemma path_name_inj: "plain_path P \<Longrightarrow> plain_path Q \<Longrightarrow> path_name P = path_name Q \<Longrightarrow> P = Q"
proof -
  assume p: "plain_path P" "plain_path Q" and e: "path_name P = path_name Q"
  then have j: "join_with '':'' P = join_with '':'' Q" by (simp add: path_name_def plain_path_def)
  have "split_on (CHR '':'') (join_with '':'' P) = P" "split_on (CHR '':'') (join_with '':'' Q) = Q"
    using p by (intro split_join; simp add: plain_path_def list_all_iff)+
  then show "P = Q" by (metis j)
qed

text \<open>The paths of the elements that a child contributes.\<close>

definition keyed_by :: "string list \<Rightarrow> string option list \<Rightarrow> string list list \<Rightarrow> bool" where
  "keyed_by P ks Rs \<longleftrightarrow> ks = map (\<lambda>R. Some (path_name (P @ R))) Rs \<and> distinct Rs \<and> list_all (list_all (\<lambda>s. CHR '':'' \<notin> set s)) Rs"

lemma leaf_keyed:
  "\<exists>Rs. keyed_by P (element_keys (pushed_child q q [] (leaf_name q (path_name P)))) Rs \<and> (P = [] \<longrightarrow> [] \<notin> set Rs)"
proof (cases q)
  case (CElem k e)
  show ?thesis
  proof (cases "P = []")
    case True
    then have "keyed_by P (element_keys (pushed_child q q [] (leaf_name q (path_name P)))) [[getElementKey q 0]]"
      using segment_plain [of q 0]
      by (simp add: CElem keyed_by_def pushed_child_def leaf_name_def path_name_def element_keys_def split: option.split)
    then show ?thesis by (intro exI [of _ "[[getElementKey q 0]]"]) simp
  next
    case False
    then have "path_name P \<noteq> []" by (simp add: path_name_def)
    then have "keyed_by P (element_keys (pushed_child q q [] (leaf_name q (path_name P)))) [[]]"
      by (simp add: CElem keyed_by_def pushed_child_def leaf_name_def element_keys_def split: option.split)
    then show ?thesis using False by blast
  qed
qed (rule exI [of _ "[]"], simp add: keyed_by_def pushed_child_def element_keys_def)+

lemma keyed_shift: "keyed_by (P @ [s]) ks Rs \<Longrightarrow> CHR '':'' \<notin> set s \<Longrightarrow> keyed_by P ks (map ((#) s) Rs)"
  by (auto simp: keyed_by_def distinct_map inj_on_def list_all_iff)

lemma flatten_keyed:
  "flatten_child q ce ye = Inr out \<Longrightarrow> ce = [] \<Longrightarrow> ye = path_name P \<Longrightarrow> keys_ok q \<Longrightarrow>
     \<exists>Rs. keyed_by P (element_keys out) Rs \<and> (P = [] \<longrightarrow> [] \<notin> set Rs)"
  "flatten_children qs we ce Ve = Inr out \<Longrightarrow> ce = [] \<Longrightarrow> Ve = (if path_name P = [] then ''.'' else path_name P @ '':'') \<Longrightarrow>
     distinct (segments qs we) \<Longrightarrow> list_all keys_ok qs \<Longrightarrow>
     \<exists>Rs. keyed_by P (element_keys out) Rs \<and> [] \<notin> set Rs \<and> hd ` set Rs \<subseteq> set (segments qs we)"
proof (induction q ce ye and qs we ce Ve arbitrary: out P and out P rule: flatten_child_flatten_children.induct)
  case (1 qs ce ye)
  then have "distinct (segments qs 0)" by (simp add: segments_distinct)
  then show ?case using 1 by fastforce
next
  case (2 qs ce ye)
  then have "distinct (segments qs 0)" by (simp add: segments_distinct)
  then show ?case using 2 by fastforce
next
  case (10 q qs we ce Ve)
  obtain o1 o2 where o: "flatten_child q ce (Ve @ getElementKey q we) = Inr o1" "flatten_children qs (Suc we) ce Ve = Inr o2"
    "out = o1 @ o2" using 10(3) by (auto split: sum.splits)
  let ?s = "getElementKey q we"
  have n: "Ve @ ?s = path_name (P @ [?s])" using path_name_snoc [of P ?s] 10(5) by simp
  have d: "?s \<notin> set (segments qs (Suc we))" "distinct (segments qs (Suc we))" using 10(6) by simp_all
  obtain R1 where R1: "keyed_by (P @ [?s]) (element_keys o1) R1" using 10(1) [OF o(1) 10(4) n] 10(7) by auto
  obtain R2 where R2: "keyed_by P (element_keys o2) R2" "[] \<notin> set R2" "hd ` set R2 \<subseteq> set (segments qs (Suc we))"
    using 10(2) [OF o(1,2) 10(4,5) d(2)] 10(7) by auto
  let ?R = "map ((#) ?s) R1 @ R2"
  have "set (map ((#) ?s) R1) \<inter> set R2 = {}" using R2(3) d(1) by force
  then have "keyed_by P (element_keys out) ?R"
    using keyed_shift [OF R1 segment_plain] R2(1) by (auto simp: keyed_by_def o(3))
  moreover have "[] \<notin> set ?R" "hd ` set ?R \<subseteq> set (segments (q # qs) we)"
    using R2(2,3) by auto
  ultimately show ?case by blast
next
  case (9 we ce Ve)
  then show ?case by (intro exI [of _ "[]"]) (simp add: keyed_by_def element_keys_def)
qed (use leaf_keyed in auto)

text \<open>With the identity as callback the general function is the first one.\<close>

definition same_result :: "children_failure + 'e child list \<times> nat \<Rightarrow> children_failure + 'e child list \<Rightarrow> bool" where
  "same_result a b = (case a of Inl e \<Rightarrow> b = Inl e | Inr (out, _) \<Rightarrow> b = Inr out)"

lemma map_identity:
  "f = (\<lambda>u _. u) \<Longrightarrow> same_result (map_into f q ce ye n) (flatten_child q ce ye)"
  "f = (\<lambda>u _. u) \<Longrightarrow> same_result (map_list f qs we ce Ve n) (flatten_children qs we ce Ve)"
proof (induction f q ce ye n and f qs we ce Ve n rule: map_into_map_list.induct)
  case (10 f q qs we ce Ve n)
  show ?case
  proof (cases "map_into f q ce (Ve @ getElementKey q we) n")
    case (Inl e)
    then show ?thesis using 10(1,3) by (simp add: same_result_def)
  next
    case (Inr r)
    obtain o1 n1 where r: "r = (o1, n1)" by force
    have "flatten_child q ce (Ve @ getElementKey q we) = Inr o1" using 10(1,3) Inr r by (simp add: same_result_def)
    moreover have "same_result (map_list f qs (Suc we) ce Ve n1) (flatten_children qs (Suc we) ce Ve)"
      using 10(2) [OF Inr r [symmetric]] 10(3) r by simp
    ultimately show ?thesis using Inr r by (auto simp: same_result_def split: sum.splits)
  qed
qed (auto simp: same_result_def map_leaf_def leaf_value_def Let_def)

lemma toArray_flatten: "toArray q = Inr out \<Longrightarrow> out = [] \<or> flatten_child q [] [] = Inr out"
  using map_identity(1) [of "\<lambda>u _. u" q "[]" "[]" 0]
  by (auto simp: toArray_def mapChildren_def same_result_def split: sum.splits if_splits)

text \<open>C16: \<open>Children.toArray\<close> gives every element a key of its own. However deep the arrays are nested, and whatever
  characters the explicit keys have, two elements of the result have different keys, as long
  as no array has two children with the same explicit key.\<close>

theorem toArray_keys_distinct:
  assumes "keys_ok q" and "toArray q = Inr out"
  shows "distinct (element_keys out) \<and> None \<notin> set (element_keys out)"
proof (cases "out = []")
  case False
  then have "flatten_child q [] [] = Inr out" using toArray_flatten [OF assms(2)] by simp
  from flatten_keyed(1) [OF this refl _ assms(1), of "[]"] obtain Rs
    where R: "keyed_by [] (element_keys out) Rs" "[] \<notin> set Rs" by (auto simp: path_name_def)
  then have "\<forall>P \<in> set Rs. plain_path P" by (auto simp: keyed_by_def plain_path_def list_all_iff)
  then have "inj_on (\<lambda>P. Some (path_name P)) (set Rs)" using path_name_inj by (intro inj_onI) simp
  then show ?thesis using R(1) by (auto simp: keyed_by_def distinct_map)
qed (simp add: element_keys_def)

theorem toArray_keys_distinct_witness:
  "case toArray (CArray [CElem (Some ''a:b'') (), CArray [CElem (Some ''a'') (), CText ''x'', CElem None ()], CElem None ()]) of
     Inl _ \<Rightarrow> False | Inr out \<Rightarrow> distinct (element_keys out) \<and> length (element_keys out) = 4"
proof -
  let ?q = "CArray [CElem (Some ''a:b'') (), CArray [CElem (Some ''a'') (), CText ''x'', CElem None ()], CElem None ()]"
  have k: "keys_ok ?q" by (simp add: explicit_keys_def)
  have t: "case toArray ?q of Inl _ \<Rightarrow> False | Inr out \<Rightarrow> length (element_keys out) = 4"
    by (simp add: toArray_def mapChildren_def map_leaf_def Let_def leaf_value_def pushed_child_def element_keys_def)
  then obtain out where "toArray ?q = Inr out" by (auto split: sum.splits)
  then show ?thesis using toArray_keys_distinct [OF k] t by simp
qed

text \<open>The two ways to create an element agree.\<close>

lemma obj_set_new: "k \<notin> fst ` set ps \<Longrightarrow> obj_set k v ps = ps @ [(k, v)]"
  by (induction ps) auto

lemma copy_props:
  "distinct (map fst (acc @ c)) \<Longrightarrow>
    foldl (\<lambda>ps (k, v). if k \<in> S then ps else obj_set k v ps) acc c = acc @ filter (\<lambda>p. fst p \<notin> S) c"
proof (induction c arbitrary: acc)
  case (Cons p c)
  obtain k v where p: "p = (k, v)" by force
  then have "obj_set k v acc = acc @ [(k, v)]" using Cons.prems by (intro obj_set_new) auto
  then show ?case using Cons.IH [of acc] Cons.IH [of "acc @ [(k, v)]"] Cons.prems by (auto simp: p)
qed simp

lemma createElement_jsx:
  assumes "distinct (map fst c)" "''__self'' \<notin> fst ` set c" "''__source'' \<notin> fst ` set c"
  shows "createElement str (\<lambda>_. []) t (Some c) [] = jsx_element str t c PUndefined"
proof -
  have f: "foldl (\<lambda>ps (k, v). if k \<in> set [''key'', ''__self'', ''__source''] then ps else obj_set k v ps) [] c
      = filter (\<lambda>p. fst p \<noteq> ''key'') c"
  proof -
    have "fst p \<notin> set [''key'', ''__self'', ''__source''] \<longleftrightarrow> fst p \<noteq> ''key''" if "p \<in> set c" for p
    proof -
      have "fst p \<noteq> ''__self''" "fst p \<noteq> ''__source''" using imageI [OF that, of fst] assms(2,3) by metis+
      then show ?thesis by simp
    qed
    then show ?thesis
      using copy_props [of "[]" c "set [''key'', ''__self'', ''__source'']"] assms(1) by (simp cong: filter_cong)
  qed
  have "filter (\<lambda>p. fst p \<noteq> ''key'') c = c" if "map_of c ''key'' = None"
    using that by (intro filter_True) (force simp: map_of_eq_None_iff)
  then show ?thesis
    unfolding createElement_def jsx_element_def nullish_simps f Let_def
    by (auto simp: with_children_def split: option.split)
qed

end
