(* ===== verification/Router_Paths.thy ===== *)
theory Router_Paths
  imports Js_Uri Js_Number
begin

text \<open>
  The path functions of the router in the bundle (react-router): parsing and
  printing of paths, joining, resolving relative links and stripping the
  basename. Regular-expression replacements are written as the string
  functions they denote. Lower-casing is the ASCII one: pathnames come from
  the browser percent-encoded.
\<close>

section \<open>Slashes\<close>

text \<open>\<open>s.replace(/\/\/+/g, "/")\<close>.\<close>

fun collapse_slashes :: "string \<Rightarrow> string" where
  "collapse_slashes (c # d # s) =
     (if c = CHR ''/'' \<and> d = CHR ''/'' then collapse_slashes (d # s) else c # collapse_slashes (d # s))"
| "collapse_slashes s = s"

text \<open>\<open>s.replace(/^\/*/, "")\<close> and \<open>s.replace(/\/+$/, "")\<close>.\<close>

definition drop_leading :: "string \<Rightarrow> string" where
  "drop_leading s = dropWhile (\<lambda>c. c = CHR ''/'') s"

definition drop_trailing :: "string \<Rightarrow> string" where
  "drop_trailing s = rev (dropWhile (\<lambda>c. c = CHR ''/'') (rev s))"

definition joinPaths :: "string list \<Rightarrow> string" where
  "joinPaths e = collapse_slashes (join_with ''/'' e)"

definition normalizePathname :: "string \<Rightarrow> string" where
  "normalizePathname e = CHR ''/'' # drop_leading (drop_trailing e)"

definition normalizeSearch :: "string \<Rightarrow> string" where
  "normalizeSearch e = (if e = [] \<or> e = ''?'' then [] else if starts_with e ''?'' then e else CHR ''?'' # e)"

definition normalizeHash :: "string \<Rightarrow> string" where
  "normalizeHash e = (if e = [] \<or> e = ''#'' then [] else if starts_with e ''#'' then e else CHR ''#'' # e)"

section \<open>Paths\<close>

record path =
  p_pathname :: "string option"
  p_search :: "string option"
  p_hash :: "string option"

text \<open>\<open>Pb\<close>: an absent field takes its default.\<close>

definition createPath :: "path \<Rightarrow> string" where
  "createPath p =
     (let e = nullish (p_pathname p) ''/''; t = nullish (p_search p) []; a = nullish (p_hash p) [];
          e1 = (if t \<noteq> [] \<and> t \<noteq> ''?'' then e @ (if hd t = CHR ''?'' then t else CHR ''?'' # t) else e)
      in if a \<noteq> [] \<and> a \<noteq> ''#'' then e1 @ (if hd a = CHR ''#'' then a else CHR ''#'' # a) else e1)"

text \<open>\<open>dv\<close>: everything from the first \<open>c\<close> on.\<close>

definition cut_at :: "char \<Rightarrow> string \<Rightarrow> string \<times> string option" where
  "cut_at c s =
     (let a = takeWhile (\<lambda>x. x \<noteq> c) s; b = dropWhile (\<lambda>x. x \<noteq> c) s
      in (a, if b = [] then None else Some b))"

definition parsePath :: "string \<Rightarrow> path" where
  "parsePath e =
     (let (e1, h) = cut_at (CHR ''#'') e; (e2, s) = cut_at (CHR ''?'') e1
      in \<lparr>p_pathname = (if e2 = [] then None else Some e2), p_search = s, p_hash = h\<rparr>)"

definition to_lower :: "string \<Rightarrow> string" where
  "to_lower s = map (\<lambda>c. let n = (of_char c :: nat) in if 65 \<le> n \<and> n \<le> 90 then char_of (n + 32) else c) s"

text \<open>\<open>rs\<close>.\<close>

definition stripBasename :: "string \<Rightarrow> string \<Rightarrow> string option" where
  "stripBasename e t =
     (if t = ''/'' then Some e
      else if \<not> starts_with (to_lower e) (to_lower t) then None
      else (let a = (if ends_with t ''/'' then length t - 1 else length t)
            in if a < length e \<and> e ! a \<noteq> CHR ''/'' then None
               else Some (if drop a e = [] then ''/'' else drop a e)))"

text \<open>\<open>p7\<close>.\<close>

definition slash_back :: "string \<Rightarrow> string" where
  "slash_back s = concat (map (\<lambda>c. if c = CHR ''/'' then ''%2F'' else [c]) s)"

fun decode_segments :: "string list \<Rightarrow> string list option" where
  "decode_segments [] = Some []"
| "decode_segments (t # ts) =
     (case decodeURIComponent t of
        None \<Rightarrow> None
      | Some d \<Rightarrow> map_option ((#) (slash_back d)) (decode_segments ts))"

definition decodePath :: "string \<Rightarrow> string" where
  "decodePath e =
     (case decode_segments (split_on (CHR ''/'') e) of
        None \<Rightarrow> e
      | Some ts \<Rightarrow> join_with ''/'' ts)"

section \<open>Relative links\<close>

text \<open>\<open>Y3\<close>: the segments are pushed and popped on a list that keeps its first element.\<close>

definition resolve_segment :: "string \<Rightarrow> string list \<Rightarrow> string list" where
  "resolve_segment c a =
     (if c = ''..'' then (if 1 < length a then butlast a else a)
      else if c \<noteq> ''.'' then a @ [c] else a)"

definition resolvePathname :: "string \<Rightarrow> string \<Rightarrow> string" where
  "resolvePathname e t =
     (let a = fold resolve_segment (split_on (CHR ''/'') e) (split_on (CHR ''/'') (drop_trailing t))
      in if 1 < length a then join_with ''/'' a else ''/'')"

record location =
  l_pathname :: string
  l_search :: string
  l_hash :: string

text \<open>\<open>m7\<close>.\<close>

definition resolvePath :: "path \<Rightarrow> string \<Rightarrow> location" where
  "resolvePath p t =
     \<lparr>l_pathname =
        (case p_pathname p of
           None \<Rightarrow> t
         | Some a \<Rightarrow>
             if a = [] then t
             else (let a1 = collapse_slashes a
                   in if starts_with a1 ''/'' then resolvePathname (drop 1 a1) ''/''
                      else resolvePathname a1 t)),
      l_search = normalizeSearch (nullish (p_search p) []),
      l_hash = normalizeHash (nullish (p_hash p) [])\<rparr>"

text \<open>\<open>$q\<close> on a string \<open>to\<close>, the form every link of the dashboard has. \<open>t\<close> are the
  pathnames of the matched routes, \<open>a\<close> the current pathname; \<open>i\<close> says that the
  link is relative to the path.\<close>

fun drop_dotdots :: "string list \<Rightarrow> string list \<times> nat" where
  "drop_dotdots [] = ([], 0)"
| "drop_dotdots (s # ss) =
     (if s = ''..'' then (let (r, n) = drop_dotdots ss in (r, Suc n)) else (s # ss, 0))"

definition resolveTo :: "string \<Rightarrow> string list \<Rightarrow> string \<Rightarrow> bool \<Rightarrow> location" where
  "resolveTo e t a i =
     (let c = parsePath e; s = (e = [] \<or> p_pathname c = Some []);
          h = (if s then Some ''/'' else p_pathname c);
          (c', y) =
            (case h of
               None \<Rightarrow> (c, a)
             | Some hp \<Rightarrow>
                 (let (E, n) = (if \<not> i \<and> starts_with hp ''..''
                                then drop_dotdots (split_on (CHR ''/'') hp) else ([], 0));
                      c1 = (if \<not> i \<and> starts_with hp ''..''
                            then c\<lparr>p_pathname := Some (join_with ''/'' E)\<rparr> else c);
                      S = int (length t) - 1 - int n
                  in (c1, if 0 \<le> S then t ! nat S else ''/'')));
          g = resolvePath c' y;
          b = (case h of None \<Rightarrow> False | Some hp \<Rightarrow> hp \<noteq> [] \<and> hp \<noteq> ''/'' \<and> ends_with hp ''/'');
          O' = ((s \<or> h = Some ''.'') \<and> ends_with a ''/'')
      in if \<not> ends_with (l_pathname g) ''/'' \<and> (b \<or> O')
         then g\<lparr>l_pathname := l_pathname g @ ''/''\<rparr> else g)"

section \<open>Parsing and printing\<close>

definition wf_path :: "path \<Rightarrow> bool" where
  "wf_path p \<longleftrightarrow>
     (case p_pathname p of None \<Rightarrow> False | Some s \<Rightarrow> s \<noteq> [] \<and> CHR ''?'' \<notin> set s \<and> CHR ''#'' \<notin> set s)
   \<and> (case p_search p of None \<Rightarrow> True | Some s \<Rightarrow> \<exists>x. s = CHR ''?'' # x \<and> x \<noteq> [] \<and> CHR ''#'' \<notin> set x)
   \<and> (case p_hash p of None \<Rightarrow> True | Some s \<Rightarrow> \<exists>x. s = CHR ''#'' # x \<and> x \<noteq> [])"

lemma cut_at_append: "c \<notin> set s \<Longrightarrow> cut_at c (s @ c # t) = (s, Some (c # t))"
  by (induction s) (auto simp: cut_at_def Let_def)

lemma cut_at_none: "c \<notin> set s \<Longrightarrow> cut_at c s = (s, None)"
  by (induction s) (auto simp: cut_at_def Let_def)

text \<open>C34: Printing a path and parsing it again gives the same path, for every pathname without \<open>?\<close> and \<open>#\<close>,
  and every query and fragment that are absent or not empty.\<close>

theorem path_roundtrip:
  assumes "wf_path p"
  shows "parsePath (createPath p) = p"
proof -
  obtain s q h where p: "p = \<lparr>p_pathname = s, p_search = q, p_hash = h\<rparr>" by (cases p)
  from assms obtain e where e: "s = Some e" "e \<noteq> []" "CHR ''?'' \<notin> set e" "CHR ''#'' \<notin> set e"
    by (auto simp: wf_path_def p split: option.splits)
  define q' where "q' = nullish q []"
  define h' where "h' = nullish h []"
  have q: "q = None \<and> q' = [] \<or> (\<exists>x. q = Some q' \<and> q' = CHR ''?'' # x \<and> x \<noteq> [] \<and> CHR ''#'' \<notin> set q')"
    using assms by (auto simp: wf_path_def p q'_def split: option.splits)
  have h: "h = None \<and> h' = [] \<or> (\<exists>x. h = Some h' \<and> h' = CHR ''#'' # x \<and> x \<noteq> [])"
    using assms by (auto simp: wf_path_def p h'_def split: option.splits)
  have c: "createPath p = (e @ q') @ h'"
    using q h e(1) by (auto simp: createPath_def Let_def p)
  have nh: "CHR ''#'' \<notin> set (e @ q')" using q e(4) by auto
  have 1: "cut_at (CHR ''#'') (createPath p) = (e @ q', h)"
    unfolding c using h nh cut_at_append [of "CHR ''#''" "e @ q'"] cut_at_none by auto
  have 2: "cut_at (CHR ''?'') (e @ q') = (e, q)"
    using q e(3) cut_at_append [of "CHR ''?''" e] cut_at_none by auto
  show ?thesis unfolding parsePath_def 1 Let_def using e(1,2) 2 by (simp add: p)
qed

theorem path_roundtrip_witness:
  "parsePath (createPath \<lparr>p_pathname = Some ''/jobs'', p_search = Some ''?page=2'', p_hash = None\<rparr>)
     = \<lparr>p_pathname = Some ''/jobs'', p_search = Some ''?page=2'', p_hash = None\<rparr>"
  by (rule path_roundtrip) (simp add: wf_path_def)

section \<open>The basename\<close>

lemma to_lower_append: "to_lower (s @ t) = to_lower s @ to_lower t"
  by (simp add: to_lower_def)

lemma length_to_lower [simp]: "length (to_lower s) = length s"
  by (simp add: to_lower_def)

lemma stripBasename_split:
  assumes "t \<noteq> ''/''" and "\<not> ends_with t ''/''"
  shows "stripBasename e t = Some r \<longleftrightarrow>
    (\<exists>t' s. e = t' @ s \<and> to_lower t' = to_lower t \<and> (s = [] \<and> r = ''/'' \<or> starts_with s ''/'' \<and> r = s))"
proof
  assume a: "stripBasename e t = Some r"
  let ?n = "length t"
  have p: "starts_with (to_lower e) (to_lower t)"
    using a assms by (auto simp: stripBasename_def split: if_splits)
  then have l: "?n \<le> length e" unfolding starts_with_iff by (metis le_add1 length_append length_to_lower)
  have t': "to_lower (take ?n e) = to_lower t"
    using p by (simp add: starts_with_def to_lower_def take_map)
  have "drop ?n e = [] \<and> r = ''/'' \<or> starts_with (drop ?n e) ''/'' \<and> r = drop ?n e"
    using a assms p by (auto simp: stripBasename_def Let_def starts_with_def take_Suc hd_drop_conv_nth split: if_splits)
  then show "\<exists>t' s. e = t' @ s \<and> to_lower t' = to_lower t \<and> (s = [] \<and> r = ''/'' \<or> starts_with s ''/'' \<and> r = s)"
    using t' by (intro exI [of _ "take ?n e"] exI [of _ "drop ?n e"]) simp
next
  assume "\<exists>t' s. e = t' @ s \<and> to_lower t' = to_lower t \<and> (s = [] \<and> r = ''/'' \<or> starts_with s ''/'' \<and> r = s)"
  then obtain t' s where e: "e = t' @ s" "to_lower t' = to_lower t"
    and s: "s = [] \<and> r = ''/'' \<or> starts_with s ''/'' \<and> r = s" by blast
  have n: "length t' = length t" by (metis e(2) length_to_lower)
  have "starts_with (to_lower e) (to_lower t)" by (simp add: e to_lower_append)
  moreover have "length t < length e \<longrightarrow> e ! length t = CHR ''/''"
    using s by (auto simp: e n [symmetric] starts_with_iff nth_append)
  moreover have "drop (length t) e = s" by (simp add: e n [symmetric])
  ultimately show "stripBasename e t = Some r"
    using assms s by (auto simp: stripBasename_def Let_def)
qed

section \<open>Resolving\<close>

text \<open>The segment lists \<open>Y3\<close> works on: the empty segment before the first slash, then names.\<close>

definition abs_segments :: "string list \<Rightarrow> bool" where
  "abs_segments a \<longleftrightarrow> a \<noteq> [] \<and> hd a = [] \<and> (\<forall>s \<in> set a. CHR ''/'' \<notin> set s)
     \<and> (\<forall>s \<in> set (tl a). s \<noteq> ''.'' \<and> s \<noteq> ''..'')"

lemma resolve_segment_ok:
  assumes "abs_segments a" and "CHR ''/'' \<notin> set c"
  shows "abs_segments (resolve_segment c a)"
proof (cases a)
  case (Cons x xs)
  then have "set (butlast xs) \<subseteq> set xs" by (auto dest: in_set_butlastD)
  then show ?thesis using assms Cons by (auto simp: abs_segments_def resolve_segment_def)
qed (use assms in \<open>simp add: abs_segments_def\<close>)

lemma resolve_segments_ok:
  "abs_segments a \<Longrightarrow> (\<forall>c \<in> set cs. CHR ''/'' \<notin> set c) \<Longrightarrow> abs_segments (fold resolve_segment cs a)"
  by (induction cs arbitrary: a) (simp_all add: resolve_segment_ok)

lemma abs_segments_join:
  assumes "abs_segments a" "1 < length a"
  shows "split_on (CHR ''/'') (join_with ''/'' a) = a" "starts_with (join_with ''/'' a) ''/''"
proof -
  obtain b c where a: "a = [] # b # c" using assms by (cases a; cases "tl a") (auto simp: abs_segments_def)
  show "split_on (CHR ''/'') (join_with ''/'' a) = a"
    using assms by (intro split_join) (auto simp: abs_segments_def)
  show "starts_with (join_with ''/'' a) ''/''" by (simp add: a)
qed

text \<open>C35: A resolved link never leaves the site root and has no dot segments left. Whatever the link, relative to
  any base path without dot segments, the resolved pathname starts with a slash and none
  of its segments is \<open>.\<close> or \<open>..\<close>; surplus \<open>..\<close> segments stop at the root.\<close>

theorem resolvePathname_safe:
  assumes "abs_segments (split_on (CHR ''/'') (drop_trailing t))"
  shows "starts_with (resolvePathname e t) ''/''
    \<and> (\<forall>s \<in> set (split_on (CHR ''/'') (resolvePathname e t)). s \<noteq> ''.'' \<and> s \<noteq> ''..'')"
proof -
  define a where "a = fold resolve_segment (split_on (CHR ''/'') e) (split_on (CHR ''/'') (drop_trailing t))"
  have ok: "abs_segments a"
    unfolding a_def using assms split_on_mem_no_sep by (intro resolve_segments_ok) blast+
  show ?thesis
  proof (cases "1 < length a")
    case True
    have "\<forall>s \<in> set a. s \<noteq> ''.'' \<and> s \<noteq> ''..''"
      using ok by (cases a) (auto simp: abs_segments_def)
    then show ?thesis
      using True abs_segments_join [OF ok True] by (simp add: resolvePathname_def a_def [symmetric])
  next
    case False
    then show ?thesis by (simp add: resolvePathname_def a_def [symmetric])
  qed
qed

theorem resolvePathname_safe_witness:
  "starts_with (resolvePathname ''../../../../etc/./passwd'' ''/ojs/admin'') ''/''"
proof -
  have "abs_segments (split_on (CHR ''/'') (drop_trailing ''/ojs/admin''))"
    by (simp add: abs_segments_def drop_trailing_def)
  from resolvePathname_safe [OF this] show ?thesis by blast
qed

text \<open>An absolute link does not depend on where it is followed from.\<close>

lemma resolveTo_absolute:
  assumes "starts_with e ''/''"
  shows "resolveTo e t a i = resolveTo e t' a' i'"
proof -
  obtain r where e: "e = CHR ''/'' # r" using assms by (auto simp: starts_with_iff)
  obtain x where p: "p_pathname (parsePath e) = Some (CHR ''/'' # x)"
    by (auto simp: e parsePath_def cut_at_def Let_def)
  have "\<exists>y. collapse_slashes (CHR ''/'' # x) = CHR ''/'' # y"
  proof (induction x)
    case (Cons c x)
    then show ?case by (cases "c = CHR ''/''") simp_all
  qed simp
  moreover have "e \<noteq> []" by (simp add: e)
  ultimately show ?thesis by (auto simp: resolveTo_def p resolvePath_def Let_def)
qed

end
