(* ===== verification/Router_Match.thy ===== *)
theory Router_Match
  imports Router_Paths
begin

text \<open>
  Route matching (\<open>matchRoutes\<close> and the functions it calls): flattening the
  route tree into branches, ranking them, compiling a path pattern and
  matching a branch. The regular expression a pattern compiles to is a list
  of atoms \<open>rx\<close> with the matching order of JavaScript: \<open>rx_match\<close> lists the ways
  to match in the order in which a backtracking matcher finds them.
\<close>

section \<open>Routes\<close>

text \<open>The fields of a route that matching does not read: its id, its \<open>Component\<close>, whether it has an error
  boundary, and the others by name.\<close>

datatype 'e route_ext = Ext (x_id: string) (x_Component: "'e option") (x_hasErrorBoundary: bool)
  (x_rest: "(string \<times> 'e) list")

datatype 'e route = Route (r_path: "string option") (r_case: bool) (r_index: bool) (r_element: "'e option")
  (r_ext: "'e route_ext") (r_children: "'e route list")

record 'e meta =
  m_relativePath :: string
  m_caseSensitive :: bool
  m_childrenIndex :: nat
  m_route :: "'e route"

record 'e branch =
  b_path :: string
  b_score :: int
  b_routesMeta :: "'e meta list"

datatype route_error = NotNested string string | IndexHasChildren string

text \<open>\<open>Lq\<close>: every way to keep or leave out the optional segments.\<close>

definition drop_mark :: "string \<Rightarrow> string" where
  "drop_mark a = (if ends_with a ''?'' then butlast a else a)"

fun explode_segments :: "string list \<Rightarrow> string list" where
  "explode_segments [] = []"
| "explode_segments [a] = (if ends_with a ''?'' then [drop_mark a, []] else [drop_mark a])"
| "explode_segments (a # i) =
     (let s = drop_mark a; h = explode_segments i;
          y = map (\<lambda>g. if g = [] then s else s @ ''/'' @ g) h @ (if ends_with a ''?'' then h else [])
      in map (\<lambda>g. if a = [] \<and> g = [] then ''/'' else g) y)"

definition explodeOptionalSegments :: "string \<Rightarrow> string list" where
  "explodeOptionalSegments e = explode_segments (split_on (CHR ''/'') e)"

text \<open>\<open>s7\<close>.\<close>

definition is_word :: "char \<Rightarrow> bool" where
  "is_word c \<longleftrightarrow> is_alnum c \<or> c = CHR ''_''"

definition is_name :: "char \<Rightarrow> bool" where
  "is_name c \<longleftrightarrow> is_word c \<or> c = CHR ''-''"

definition is_dynamic :: "string \<Rightarrow> bool" where
  "is_dynamic s \<longleftrightarrow> (case s of [] \<Rightarrow> False | c # n \<Rightarrow> c = CHR '':'' \<and> n \<noteq> [] \<and> list_all is_name n)"

definition segment_score :: "string \<Rightarrow> int" where
  "segment_score s = (if is_dynamic s then 3 else if s = [] then 1 else 10)"

definition computeScore :: "string \<Rightarrow> bool \<Rightarrow> int" where
  "computeScore e t =
     (let a = split_on (CHR ''/'') e;
          i0 = int (length a);
          i1 = (if ''*'' \<in> set a then i0 - 2 else i0);
          i2 = (if t then i1 + 2 else i1)
      in foldl (\<lambda>c s. c + segment_score s) i2 (filter (\<lambda>c. c \<noteq> ''*'') a))"

text \<open>\<open>Bq\<close>. A route with optional segments is flattened once for each way to read its path.\<close>

definition route_variants :: "'e route \<Rightarrow> bool \<Rightarrow> (bool \<times> string option) list" where
  "route_variants h c =
     (case r_path h of
        None \<Rightarrow> [(c, None)]
      | Some p \<Rightarrow> if p = [] \<or> CHR ''?'' \<notin> set p then [(c, None)]
                 else map (\<lambda>b. (True, Some b)) (explodeOptionalSegments p))"

definition route_meta :: "'e route \<Rightarrow> nat \<Rightarrow> string option \<Rightarrow> 'e meta" where
  "route_meta h y b =
     \<lparr>m_relativePath = nullish b (nullish (r_path h) []), m_caseSensitive = r_case h,
      m_childrenIndex = y, m_route = h\<rparr>"

function flattenRoutes :: "'e route list \<Rightarrow> nat \<Rightarrow> 'e meta list \<Rightarrow> string \<Rightarrow> bool \<Rightarrow> route_error + 'e branch list"
  and flattenRoute :: "'e route \<Rightarrow> (bool \<times> string option) list \<Rightarrow> nat \<Rightarrow> 'e meta list \<Rightarrow> string
    \<Rightarrow> route_error + 'e branch list" where
  "flattenRoutes [] y a i c = Inr []"
| "flattenRoutes (h # hs) y a i c =
     (case flattenRoute h (route_variants h c) y a i of
        Inl e \<Rightarrow> Inl e
      | Inr bs \<Rightarrow> (case flattenRoutes hs (Suc y) a i c of Inl e \<Rightarrow> Inl e | Inr cs \<Rightarrow> Inr (bs @ cs)))"
| "flattenRoute h [] y a i = Inr []"
| "flattenRoute h ((g, b) # vs) y a i =
     (let m0 = route_meta h y b; p = m_relativePath m0; absolute = starts_with p ''/''
      in if absolute \<and> \<not> starts_with p i \<and> g then flattenRoute h vs y a i
         else if absolute \<and> \<not> starts_with p i then Inl (NotNested p i)
         else (let m = (if absolute then m0\<lparr>m_relativePath := drop (length i) p\<rparr> else m0);
                   S = joinPaths [i, m_relativePath m]; E = a @ [m]
               in if r_children h \<noteq> [] \<and> r_index h then Inl (IndexHasChildren S)
                  else (case flattenRoutes (r_children h) 0 E S g of
                          Inl e \<Rightarrow> Inl e
                        | Inr kids \<Rightarrow>
                            (let own = (if r_path h = None \<and> \<not> r_index h then []
                                        else [\<lparr>b_path = S, b_score = computeScore S (r_index h), b_routesMeta = E\<rparr>])
                             in case flattenRoute h vs y a i of
                                  Inl e \<Rightarrow> Inl e
                                | Inr rest \<Rightarrow> Inr (kids @ own @ rest)))))"
  by pat_completeness auto
termination
proof (relation "measures [\<lambda>x. case x of Inl (hs, _) \<Rightarrow> size_list size hs | Inr (h, _) \<Rightarrow> size h,
    \<lambda>x. case x of Inl _ \<Rightarrow> 0 | Inr (_, vs, _) \<Rightarrow> length vs]", goal_cases)
  case (5 h g b vs y a i)
  then show ?case by (cases h) simp
qed auto

text \<open>\<open>f7\<close> and \<open>r7\<close>. The sort is stable: it moves a branch before another one only if the
  comparison says so.\<close>

definition compareIndexes :: "nat list \<Rightarrow> nat list \<Rightarrow> int" where
  "compareIndexes e t =
     (if length e = length t \<and> butlast e = take (length e - 1) t
      then (if e = [] then 0 else int (last e) - int (last t)) else 0)"

definition compareBranches :: "'e branch \<Rightarrow> 'e branch \<Rightarrow> int" where
  "compareBranches t a =
     (if b_score t \<noteq> b_score a then b_score a - b_score t
      else compareIndexes (map m_childrenIndex (b_routesMeta t)) (map m_childrenIndex (b_routesMeta a)))"

fun insert_by :: "('a \<Rightarrow> 'a \<Rightarrow> int) \<Rightarrow> 'a \<Rightarrow> 'a list \<Rightarrow> 'a list" where
  "insert_by c x [] = [x]"
| "insert_by c x (y # ys) = (if c x y \<le> 0 then x # y # ys else y # insert_by c x ys)"

definition sort_by :: "('a \<Rightarrow> 'a \<Rightarrow> int) \<Rightarrow> 'a list \<Rightarrow> 'a list" where
  "sort_by c xs = foldr (insert_by c) xs []"

definition rankRouteBranches :: "'e branch list \<Rightarrow> 'e branch list" where
  "rankRouteBranches e = sort_by compareBranches e"

section \<open>Patterns\<close>

datatype rx =
    RChar char
  | RParam
  | ROptSlash
  | ROptParam
  | ROptLit string
  | RAll
  | RSplat
  | REnd
  | RLook

definition char_eq :: "bool \<Rightarrow> char \<Rightarrow> char \<Rightarrow> bool" where
  "char_eq ci x c \<longleftrightarrow> (if ci then to_lower [x] = to_lower [c] else x = c)"

definition str_eq :: "bool \<Rightarrow> string \<Rightarrow> string \<Rightarrow> bool" where
  "str_eq ci x y \<longleftrightarrow> (if ci then to_lower x = to_lower y else x = y)"

definition no_newline :: "string \<Rightarrow> bool" where
  "no_newline s \<longleftrightarrow> list_all (\<lambda>c. of_char c \<notin> {10, 13 :: nat}) s"

definition span_lengths :: "string \<Rightarrow> nat list" where
  "span_lengths s = rev [1..<Suc (length (takeWhile (\<lambda>c. c \<noteq> CHR ''/'') s))]"

fun rx_match :: "bool \<Rightarrow> rx list \<Rightarrow> string \<Rightarrow> (string option list \<times> string) list" where
  "rx_match ci [] s = [([], s)]"
| "rx_match ci (RChar c # r) s =
     (case s of [] \<Rightarrow> [] | x # xs \<Rightarrow> if char_eq ci x c then rx_match ci r xs else [])"
| "rx_match ci (RParam # r) s =
     concat (map (\<lambda>k. map (\<lambda>(cs, t). (Some (take k s) # cs, t)) (rx_match ci r (drop k s))) (span_lengths s))"
| "rx_match ci (ROptSlash # r) s =
     (case s of [] \<Rightarrow> [] | x # xs \<Rightarrow> if x = CHR ''/'' then rx_match ci r xs else []) @ rx_match ci r s"
| "rx_match ci (ROptParam # r) s =
     concat (map (\<lambda>k. map (\<lambda>(cs, t). (Some (take k s) # cs, t)) (rx_match ci r (drop k s))) (span_lengths s))
     @ map (\<lambda>(cs, t). (None # cs, t)) (rx_match ci r s)"
| "rx_match ci (ROptLit w # r) s =
     (if str_eq ci (take (length w) s) w
      then map (\<lambda>(cs, t). (Some (take (length w) s) # cs, t)) (rx_match ci r (drop (length w) s)) else [])
     @ map (\<lambda>(cs, t). (None # cs, t)) (rx_match ci r s)"
| "rx_match ci (RAll # r) s =
     (if no_newline s then map (\<lambda>(cs, t). (Some s # cs, t)) (rx_match ci r []) else [])"
| "rx_match ci (RSplat # r) s =
     (case s of [] \<Rightarrow> [] | x # xs \<Rightarrow>
        if x = CHR ''/'' \<and> xs \<noteq> [] \<and> no_newline xs
        then map (\<lambda>(cs, t). (Some xs # cs, t)) (rx_match ci r []) else [])
     @ (if list_all (\<lambda>c. c = CHR ''/'') s then map (\<lambda>(cs, t). (None # cs, t)) (rx_match ci r []) else [])"
| "rx_match ci (REnd # r) s = (if list_all (\<lambda>c. c = CHR ''/'') s then rx_match ci r [] else [])"
| "rx_match ci (RLook # r) s =
     (if s = [] \<or> hd s = CHR ''/'' then rx_match ci r s else [])"

text \<open>\<open>h7\<close>: the trailing star and slashes go, one leading slash is put, then \<open>/:name\<close>,
  \<open>/:name?\<close> and \<open>/name?\<close> are replaced. \<open>free\<close> is false after an optional static
  segment, whose replacement has used up the slash that follows it. A question
  mark anywhere else would be a quantifier of the expression: no pattern of the
  bundle has one and it is not modelled (\<^const>\<open>None\<close>).\<close>

function pattern_atoms :: "bool \<Rightarrow> string \<Rightarrow> (rx list \<times> (string \<times> bool) list) option" where
  "pattern_atoms free s =
     (case s of
        [] \<Rightarrow> Some ([], [])
      | c # r \<Rightarrow>
          if c = CHR ''/'' \<and> r \<noteq> [] \<and> hd r = CHR '':'' \<and> takeWhile is_name (tl r) \<noteq> [] then
            (let n = takeWhile is_name (tl r); r' = dropWhile is_name (tl r)
             in if r' \<noteq> [] \<and> hd r' = CHR ''?''
                then map_option (\<lambda>(x, p). (ROptSlash # ROptParam # x, (n, True) # p)) (pattern_atoms True (tl r'))
                else map_option (\<lambda>(x, p). (RChar c # RParam # x, (n, False) # p)) (pattern_atoms True r'))
          else if free \<and> c = CHR ''/'' \<and> takeWhile is_name r \<noteq> [] \<and> dropWhile is_name r \<noteq> []
              \<and> hd (dropWhile is_name r) = CHR ''?''
              \<and> (tl (dropWhile is_name r) = [] \<or> hd (tl (dropWhile is_name r)) = CHR ''/'') then
            map_option (\<lambda>(x, p). (ROptLit (c # takeWhile is_name r) # x, p))
              (pattern_atoms False (tl (dropWhile is_name r)))
          else if c = CHR ''?'' then None
          else map_option (\<lambda>(x, p). (RChar c # x, p)) (pattern_atoms True r))"
  by pat_completeness auto
termination
proof (relation "measure (\<lambda>(f, s). length s)", goal_cases)
  case (2 free s c r n r')
  then show ?case using length_dropWhile_le [of is_name "tl r"] by simp
next
  case (3 free s c r n r')
  then show ?case using length_dropWhile_le [of is_name "tl r"] by simp
next
  case (4 free s c r)
  then show ?case using length_dropWhile_le [of is_name r] by simp
qed simp_all

declare pattern_atoms.simps [simp del]

definition drop_star :: "string \<Rightarrow> string" where
  "drop_star e = drop_trailing (if ends_with e ''*'' then butlast e else e)"

definition compilePath :: "string \<Rightarrow> bool \<Rightarrow> bool \<Rightarrow> (rx list \<times> (string \<times> bool) list) option" where
  "compilePath e t a =
     map_option
       (\<lambda>(c, i).
          if ends_with e ''*''
          then (c @ [if e = ''*'' \<or> e = ''/*'' then RAll else RSplat], i @ [(''*'', False)])
          else if a then (c @ [REnd], i)
          else (c @ (if e \<noteq> [] \<and> e \<noteq> ''/'' then [RLook] else []), i))
       (pattern_atoms True (CHR ''/'' # drop_leading (drop_star e)))"

section \<open>Matching\<close>

text \<open>\<open>s.replace(/(.)\/+$/, "$1")\<close>: the trailing slashes go, but not the first character.\<close>

definition trim_slashes :: "string \<Rightarrow> string" where
  "trim_slashes s = (case s of [] \<Rightarrow> [] | x # xs \<Rightarrow> x # drop_trailing xs)"

text \<open>\<open>w.replace(/%2F/g, "/")\<close>.\<close>

fun unslash :: "string \<Rightarrow> string" where
  "unslash (c # d # e # s) =
     (if c = CHR ''%'' \<and> d = CHR ''2'' \<and> e = CHR ''F'' then CHR ''/'' # unslash s
      else c # unslash (d # e # s))"
| "unslash s = s"

record path_match =
  pm_params :: "(string \<times> string option) list"
  pm_pathname :: string
  pm_pathnameBase :: string

text \<open>The loop of \<open>wO\<close> over the parameters and the groups of the match.\<close>

fun bind_params :: "string \<Rightarrow> (string \<times> bool) list \<Rightarrow> string option list \<Rightarrow> (string \<times> string option) list
    \<Rightarrow> string \<Rightarrow> (string \<times> string option) list \<times> string" where
  "bind_params s [] y b h = (b, h)"
| "bind_params s ((O', opt) # ps) y b h =
     (let w = (case y of [] \<Rightarrow> None | v # _ \<Rightarrow> v);
          h' = (if O' = ''*'' then trim_slashes (take (length s - length (nullish w [])) s) else h);
          v = (if opt \<and> \<not> truthy_opt w then None else Some (unslash (nullish w [])))
      in bind_params s ps (tl y) (obj_set O' v b) h')"

definition matchPath :: "string \<Rightarrow> bool \<Rightarrow> bool \<Rightarrow> string \<Rightarrow> path_match option" where
  "matchPath e case_sensitive at_end t =
     (case compilePath e case_sensitive at_end of
        None \<Rightarrow> None
      | Some (a, i) \<Rightarrow>
          (case rx_match (\<not> case_sensitive) a t of
             [] \<Rightarrow> None
           | (y, rest) # _ \<Rightarrow>
               (let s = take (length t - length rest) t;
                    (ps, h) = bind_params s i y [] (trim_slashes s)
                in Some \<lparr>pm_params = ps, pm_pathname = s, pm_pathnameBase = h\<rparr>)))"

record 'e route_match =
  rm_params :: "(string \<times> string option) list"
  rm_pathname :: string
  rm_pathnameBase :: string
  rm_route :: "'e route"

text \<open>\<open>d7\<close>. All matches share the object of parameters, so each has them all in the end.\<close>

fun match_metas :: "'e meta list \<Rightarrow> string \<Rightarrow> bool \<Rightarrow> string \<Rightarrow> (string \<times> string option) list
    \<Rightarrow> ((string \<times> string option) list \<times> (string \<times> string \<times> 'e route) list) option" where
  "match_metas [] t a s c = Some (c, [])"
| "match_metas (g # gs) t a s c =
     (let b = (gs = []);
          O' = (if s = ''/'' then t else if drop (length s) t = [] then ''/'' else drop (length s) t);
          S0 = matchPath (m_relativePath g) (m_caseSensitive g) b O';
          S1 = (if S0 = None \<and> b \<and> a \<and> \<not> r_index (m_route g)
                then matchPath (m_relativePath g) (m_caseSensitive g) False O' else S0)
      in case S1 of
           None \<Rightarrow> None
         | Some S \<Rightarrow>
             (let c' = obj_spread c (pm_params S);
                  s' = (if pm_pathnameBase S \<noteq> ''/'' then joinPaths [s, pm_pathnameBase S] else s)
              in map_option
                   (\<lambda>(ps, ms). (ps, (joinPaths [s, pm_pathname S],
                       normalizePathname (joinPaths [s, pm_pathnameBase S]), m_route g) # ms))
                   (match_metas gs t a s' c')))"

definition matchRouteBranch :: "'e branch \<Rightarrow> string \<Rightarrow> bool \<Rightarrow> 'e route_match list option" where
  "matchRouteBranch e t a =
     map_option
       (\<lambda>(ps, ms). map (\<lambda>(p, pb, r). \<lparr>rm_params = ps, rm_pathname = p, rm_pathnameBase = pb, rm_route = r\<rparr>) ms)
       (match_metas (b_routesMeta e) t a ''/'' [])"

fun first_match :: "'e branch list \<Rightarrow> string \<Rightarrow> bool \<Rightarrow> 'e route_match list option" where
  "first_match [] b i = None"
| "first_match (h # hs) b i =
     (case matchRouteBranch h b i of Some y \<Rightarrow> Some y | None \<Rightarrow> first_match hs b i)"

text \<open>\<open>n7\<close>: \<open>Inl\<close> is a route tree the router refuses.\<close>

definition matchRoutesImpl :: "'e route list \<Rightarrow> path \<Rightarrow> string \<Rightarrow> bool
    \<Rightarrow> route_error + 'e route_match list option" where
  "matchRoutesImpl e t a i =
     (let pathname = (case p_pathname t of None \<Rightarrow> ''/'' | Some p \<Rightarrow> if p = [] then ''/'' else p)
      in case stripBasename pathname a of
           None \<Rightarrow> Inr None
         | Some s \<Rightarrow>
             (case flattenRoutes e 0 [] [] False of
                Inl err \<Rightarrow> Inl err
              | Inr bs \<Rightarrow> Inr (first_match (rankRouteBranches bs) (decodePath s) i)))"

definition matchRoutes :: "'e route list \<Rightarrow> path \<Rightarrow> string \<Rightarrow> route_error + 'e route_match list option" where
  "matchRoutes e t a = matchRoutesImpl e t a False"

section \<open>Ranking\<close>

text \<open>A comparison that never puts a smaller key first.\<close>

locale keyed_comparison =
  fixes c :: "'a \<Rightarrow> 'a \<Rightarrow> int" and key :: "'a \<Rightarrow> int"
  assumes before: "c x y \<le> 0 \<Longrightarrow> key y \<le> key x"
    and after: "0 < c x y \<Longrightarrow> key x \<le> key y"
begin

lemma insert_by_sorted:
  "sorted_wrt (\<lambda>x y. key y \<le> key x) xs \<Longrightarrow> sorted_wrt (\<lambda>x y. key y \<le> key x) (insert_by c x xs)"
proof (induction xs)
  case (Cons y ys)
  have m: "set (insert_by c x ys) \<subseteq> insert x (set ys)" by (induction ys) auto
  show ?case
  proof (cases "c x y \<le> 0")
    case True
    then show ?thesis using Cons.prems before [OF True] by (auto intro: order_trans)
  next
    case False
    then have "key x \<le> key y" using after [of x y] by simp
    then show ?thesis using False Cons m by auto
  qed
qed simp

lemma sort_by_sorted: "sorted_wrt (\<lambda>x y. key y \<le> key x) (sort_by c xs)"
  by (induction xs) (simp_all add: sort_by_def insert_by_sorted)

end

lemma insert_by_mset [simp]: "mset (insert_by c x xs) = add_mset x (mset xs)"
  by (induction xs) auto

lemma sort_by_mset: "mset (sort_by c xs) = mset xs"
  by (induction xs) (simp_all add: sort_by_def)

interpretation rank: keyed_comparison compareBranches b_score
  by unfold_locales (auto simp: compareBranches_def split: if_splits)

lemma rank_sorted: "sorted_wrt (\<lambda>x y. b_score y \<le> b_score x) (rankRouteBranches bs)"
  unfolding rankRouteBranches_def by (rule rank.sort_by_sorted)

lemma rank_set [simp]: "set (rankRouteBranches bs) = set bs"
  unfolding rankRouteBranches_def by (metis set_mset_mset sort_by_mset)

lemma first_match_Some:
  "first_match bs t i = Some m \<Longrightarrow> \<exists>pre b post. bs = pre @ b # post \<and> matchRouteBranch b t i = Some m
     \<and> (\<forall>x \<in> set pre. matchRouteBranch x t i = None)"
proof (induction bs)
  case (Cons h hs)
  show ?case
  proof (cases "matchRouteBranch h t i")
    case None
    then obtain pre b post where "hs = pre @ b # post" "matchRouteBranch b t i = Some m"
      "\<forall>x \<in> set pre. matchRouteBranch x t i = None" using Cons by auto
    then show ?thesis using None by (intro exI [of _ "h # pre"] exI [of _ b] exI [of _ post]) simp
  next
    case (Some m')
    then show ?thesis using Cons.prems by (intro exI [of _ "[]"] exI [of _ h] exI [of _ hs]) simp
  qed
qed simp

lemma first_match_None: "first_match bs t i = None \<longleftrightarrow> (\<forall>b \<in> set bs. matchRouteBranch b t i = None)"
  by (induction bs) (auto split: option.splits)

text \<open>C8: The router picks the best match. If some branch of the route tree matches the decoded pathname, the
  result is the match of a branch whose score is the highest of all branches that match,
  and if the result is empty, no branch matches.\<close>

theorem matchRoutes_best:
  assumes "flattenRoutes e 0 [] [] False = Inr bs" and "matchRoutes e \<lparr>p_pathname = Some p, p_search = q, p_hash = h\<rparr> ''/'' = Inr r"
    and "p \<noteq> []"
  shows "case r of
      None \<Rightarrow> \<forall>b \<in> set bs. matchRouteBranch b (decodePath p) False = None
    | Some m \<Rightarrow> \<exists>b \<in> set bs. matchRouteBranch b (decodePath p) False = Some m
        \<and> (\<forall>b' \<in> set bs. matchRouteBranch b' (decodePath p) False \<noteq> None \<longrightarrow> b_score b' \<le> b_score b)"
proof -
  have r: "r = first_match (rankRouteBranches bs) (decodePath p) False"
    using assms by (simp add: matchRoutes_def matchRoutesImpl_def stripBasename_def)
  show ?thesis
  proof (cases r)
    case None
    then have "\<forall>b \<in> set bs. matchRouteBranch b (decodePath p) False = None"
      using first_match_None [of "rankRouteBranches bs" "decodePath p" False] r by simp
    then show ?thesis unfolding None option.case .
  next
    case (Some m)
    then obtain pre b post where f: "rankRouteBranches bs = pre @ b # post" "matchRouteBranch b (decodePath p) False = Some m"
      "\<forall>x \<in> set pre. matchRouteBranch x (decodePath p) False = None"
      using first_match_Some r by metis
    have "b_score b' \<le> b_score b" if "b' \<in> set bs" "matchRouteBranch b' (decodePath p) False \<noteq> None" for b'
    proof -
      have "b' \<in> set pre \<union> {b} \<union> set post" using that(1) f(1) rank_set [of bs] by auto
      moreover have "b' \<notin> set pre" using that(2) f(3) by auto
      ultimately show ?thesis using rank_sorted [of bs] unfolding f(1) by (auto simp: sorted_wrt_append)
    qed
    moreover have "b \<in> set bs" using f(1) rank_set [of bs] by auto
    ultimately show ?thesis using Some f(2) by auto
  qed
qed

end
