(* ===== verification/Router_History.thy ===== *)
theory Router_History
  imports Router_Paths Ui_Tree
begin

text \<open>
  The browser history of the router (\<open>F$\<close>, \<open>e7\<close>). The window's session
  history is modelled as the entries of this document with the current
  position; what the browser does with an address handed to \<open>pushState\<close> or
  \<open>replaceState\<close> is the parameter \<open>host\<close>. The calls of the listener are the
  second result of each operation.
\<close>

section \<open>State\<close>

text \<open>The field \<open>idx\<close> of \<open>history.state\<close>, with the values JavaScript arithmetic can give it.\<close>

datatype hidx = INull | IUndefined | INaN | INum int

definition idx_num :: "hidx \<Rightarrow> hidx" where
  "idx_num i = (case i of INull \<Rightarrow> INum 0 | IUndefined \<Rightarrow> INaN | _ \<Rightarrow> i)"

definition idx_succ :: "hidx \<Rightarrow> hidx" where
  "idx_succ i = (case idx_num i of INum k \<Rightarrow> INum (k + 1) | _ \<Rightarrow> INaN)"

definition idx_minus :: "hidx \<Rightarrow> hidx \<Rightarrow> hidx" where
  "idx_minus i j = (case (idx_num i, idx_num j) of (INum k, INum l) \<Rightarrow> INum (k - l) | _ \<Rightarrow> INaN)"

definition idx_nullish :: "hidx \<Rightarrow> bool" where
  "idx_nullish i \<longleftrightarrow> i = INull \<or> i = IUndefined"

record hstate =
  hs_usr :: "json option"
  hs_key :: "string option"
  hs_idx :: hidx

record entry =
  en_location :: location
  en_state :: "hstate option"

record browser =
  bw_entries :: "entry list"
  bw_pos :: nat
  bw_assigned :: "string list"

text \<open>\<open>DataCloneError\<close>, and every other exception of \<open>pushState\<close>.\<close>

datatype host_result = Accepted location | CloneError | Refused

datatype action = POP | PUSH | REPLACE

record full_location = location +
  fl_state :: json
  fl_key :: string

record history =
  hi_action :: action
  hi_index :: hidx
  hi_listening :: bool
  hi_browser :: browser

record notification =
  nt_action :: action
  nt_location :: full_location
  nt_delta :: hidx

datatype history_error = Threw host_result | SecondListener

definition current :: "browser \<Rightarrow> entry" where
  "current w = bw_entries w ! bw_pos w"

section \<open>Locations\<close>

text \<open>\<open>YR\<close>. The key of the target comes first, then the given one, then a random one.\<close>

definition createLocation :: "string \<Rightarrow> path \<Rightarrow> string option \<Rightarrow> json \<Rightarrow> string option \<Rightarrow> string \<Rightarrow> full_location" where
  "createLocation e t tkey a i random =
     \<lparr>l_pathname = nullish (p_pathname t) e, l_search = nullish (p_search t) [], l_hash = nullish (p_hash t) [],
      fl_state = a,
      fl_key = (if truthy_opt tkey then the tkey else if truthy_opt i then the i else random)\<rparr>"

text \<open>\<open>F$\<close>: reading the location of the window.\<close>

definition getLocation :: "browser \<Rightarrow> full_location" where
  "getLocation w =
     (let l = en_location (current w); st = en_state (current w);
          usr = (case st of Some s \<Rightarrow> (case hs_usr s of Some v \<Rightarrow> if json_truthy v then v else JNull | None \<Rightarrow> JNull)
                 | None \<Rightarrow> JNull);
          key = (case st of Some s \<Rightarrow> if truthy_opt (hs_key s) then the (hs_key s) else ''default'' | None \<Rightarrow> ''default'')
      in createLocation [] \<lparr>p_pathname = Some (l_pathname l), p_search = Some (l_search l), p_hash = Some (l_hash l)\<rparr>
           None usr (Some key) [])"

text \<open>\<open>P3\<close>.\<close>

definition getHistoryState :: "full_location \<Rightarrow> hidx \<Rightarrow> hstate" where
  "getHistoryState e t = \<lparr>hs_usr = Some (fl_state e), hs_key = Some (fl_key e), hs_idx = t\<rparr>"

definition full_path :: "full_location \<Rightarrow> path" where
  "full_path l = \<lparr>p_pathname = Some (l_pathname l), p_search = Some (l_search l), p_hash = Some (l_hash l)\<rparr>"

section \<open>Operations\<close>

text \<open>\<open>O\<close> of \<open>e7\<close>.\<close>

definition getIndex :: "browser \<Rightarrow> hidx" where
  "getIndex w = (case en_state (current w) of None \<Rightarrow> INull | Some s \<Rightarrow> hs_idx s)"

definition replaceState :: "entry \<Rightarrow> browser \<Rightarrow> browser" where
  "replaceState n w = w\<lparr>bw_entries := (bw_entries w)[bw_pos w := n]\<rparr>"

definition pushState :: "entry \<Rightarrow> browser \<Rightarrow> browser" where
  "pushState n w = w\<lparr>bw_entries := take (Suc (bw_pos w)) (bw_entries w) @ [n], bw_pos := Suc (bw_pos w)\<rparr>"

text \<open>The start of \<open>e7\<close>: an entry without an index gets the index 0.\<close>

definition createHistory :: "browser \<Rightarrow> history" where
  "createHistory w =
     (if idx_nullish (getIndex w)
      then \<lparr>hi_action = POP, hi_index = INum 0, hi_listening = False,
            hi_browser = replaceState ((current w)\<lparr>en_state :=
              Some (case en_state (current w) of
                      None \<Rightarrow> \<lparr>hs_usr = None, hs_key = None, hs_idx = INum 0\<rparr>
                    | Some s \<Rightarrow> s\<lparr>hs_idx := INum 0\<rparr>)\<rparr>) w\<rparr>
      else \<lparr>hi_action = POP, hi_index = getIndex w, hi_listening = False, hi_browser = w\<rparr>)"

definition notify :: "bool \<Rightarrow> history \<Rightarrow> hidx \<Rightarrow> notification list" where
  "notify v5 h d =
     (if v5 \<and> hi_listening h
      then [\<lparr>nt_action = hi_action h, nt_location = getLocation (hi_browser h), nt_delta = d\<rparr>] else [])"

text \<open>\<open>S\<close>, the handler of \<open>popstate\<close>.\<close>

definition handlePop :: "history \<Rightarrow> history \<times> notification list" where
  "handlePop h =
     (let R = getIndex (hi_browser h);
          N = (if idx_nullish R then INull else idx_minus R (hi_index h));
          h' = h\<lparr>hi_action := POP, hi_index := R\<rparr>
      in (h', notify True h' N))"

text \<open>\<open>E\<close>. The index moves before the browser is asked.\<close>

definition push :: "(string \<Rightarrow> host_result) \<Rightarrow> bool \<Rightarrow> string \<Rightarrow> path \<Rightarrow> json \<Rightarrow> history
    \<Rightarrow> history \<times> (history_error + notification list)" where
  "push host v5 random R N h =
     (let L = createLocation (l_pathname (getLocation (hi_browser h))) R None N None random;
          b = idx_succ (getIndex (hi_browser h));
          U = getHistoryState L b;
          href = createPath (full_path L);
          h1 = h\<lparr>hi_action := PUSH, hi_index := b\<rparr>
      in case host href of
           Accepted l \<Rightarrow>
             (let h2 = h1\<lparr>hi_browser := pushState \<lparr>en_location = l, en_state = Some U\<rparr> (hi_browser h)\<rparr>
              in (h2, Inr (notify v5 h2 (INum 1))))
         | CloneError \<Rightarrow> (h1, Inl (Threw CloneError))
         | Refused \<Rightarrow>
             (let h2 = h1\<lparr>hi_browser := (hi_browser h)\<lparr>bw_assigned := bw_assigned (hi_browser h) @ [href]\<rparr>\<rparr>
              in (h2, Inr (notify v5 h2 (INum 1)))))"

text \<open>\<open>w\<close>. Nothing catches an exception of \<open>replaceState\<close>.\<close>

definition replace_entry :: "(string \<Rightarrow> host_result) \<Rightarrow> bool \<Rightarrow> string \<Rightarrow> path \<Rightarrow> json \<Rightarrow> history
    \<Rightarrow> history \<times> (history_error + notification list)" where
  "replace_entry host v5 random R N h =
     (let L = createLocation (l_pathname (getLocation (hi_browser h))) R None N None random;
          b = getIndex (hi_browser h);
          U = getHistoryState L b;
          h1 = h\<lparr>hi_action := REPLACE, hi_index := b\<rparr>
      in case host (createPath (full_path L)) of
           Accepted l \<Rightarrow>
             (let h2 = h1\<lparr>hi_browser := replaceState \<lparr>en_location = l, en_state = Some U\<rparr> (hi_browser h)\<rparr>
              in (h2, Inr (notify v5 h2 (INum 0))))
         | r \<Rightarrow> (h1, Inl (Threw r)))"

definition listen :: "history \<Rightarrow> history_error + history" where
  "listen h = (if hi_listening h then Inl SecondListener else Inr (h\<lparr>hi_listening := True\<rparr>))"

definition unlisten :: "history \<Rightarrow> history" where
  "unlisten h = h\<lparr>hi_listening := False\<rparr>"

text \<open>\<open>go\<close>, the back and the forward button: the browser moves, if there is such an entry, and
  fires \<open>popstate\<close>, which reaches \<open>S\<close> while it is registered.\<close>

definition go :: "int \<Rightarrow> history \<Rightarrow> history \<times> notification list" where
  "go n h =
     (let w = hi_browser h; p = int (bw_pos w) + n
      in if n \<noteq> 0 \<and> 0 \<le> p \<and> p < int (length (bw_entries w))
         then (let h1 = h\<lparr>hi_browser := w\<lparr>bw_pos := nat p\<rparr>\<rparr>
               in if hi_listening h then handlePop h1 else (h1, []))
         else (h, []))"

section \<open>The index of an entry\<close>

text \<open>Every entry has the index of the first one plus its distance, and \<open>b\<close> is the index of the
  current entry.\<close>

definition entry_index :: "entry \<Rightarrow> hidx" where
  "entry_index n = (case en_state n of None \<Rightarrow> INull | Some s \<Rightarrow> hs_idx s)"

definition indexed :: "int \<Rightarrow> history \<Rightarrow> bool" where
  "indexed base h \<longleftrightarrow>
     (let w = hi_browser h
      in bw_pos w < length (bw_entries w) \<and> hi_index h = INum (base + int (bw_pos w))
         \<and> (\<forall>j < length (bw_entries w). entry_index (bw_entries w ! j) = INum (base + int j)))"

text \<open>A page is loaded on an entry that has no index yet, or, after a reload, the one it had; the
  listener is registered for the life of the application.\<close>

inductive history_run :: "(string \<Rightarrow> host_result) \<Rightarrow> history \<Rightarrow> bool" for host where
  load: "idx_nullish (entry_index n) \<or> entry_index n = INum k \<Longrightarrow>
      listen (createHistory \<lparr>bw_entries = [n], bw_pos = 0, bw_assigned = []\<rparr>) = Inr h \<Longrightarrow> history_run host h"
| pushed: "history_run host h \<Longrightarrow> push host v5 random R N h = (h', Inr ns) \<Longrightarrow>
      bw_assigned (hi_browser h') = bw_assigned (hi_browser h) \<Longrightarrow> history_run host h'"
| replaced: "history_run host h \<Longrightarrow> replace_entry host v5 random R N h = (h', Inr ns) \<Longrightarrow> history_run host h'"
| moved: "history_run host h \<Longrightarrow> go n h = (h', ns) \<Longrightarrow> history_run host h'"

lemma getIndex_entry: "getIndex w = entry_index (current w)"
  by (simp add: getIndex_def entry_index_def)

lemma indexed_current: "indexed base h \<Longrightarrow> getIndex (hi_browser h) = INum (base + int (bw_pos (hi_browser h)))"
  by (simp add: getIndex_entry indexed_def current_def Let_def)

lemma indexed_push:
  assumes "indexed base h" "push host v5 random R N h = (h', Inr ns)"
    "bw_assigned (hi_browser h') = bw_assigned (hi_browser h)"
  shows "indexed base h' \<and> hi_listening h' = hi_listening h"
proof -
  have i: "getIndex (hi_browser h) = INum (base + int (bw_pos (hi_browser h)))" by (rule indexed_current [OF assms(1)])
  show ?thesis using assms
    by (auto simp: push_def Let_def i idx_succ_def idx_num_def indexed_def pushState_def nth_append less_Suc_eq
        entry_index_def getHistoryState_def split: host_result.splits)
qed

lemma indexed_replace:
  assumes "indexed base h" "replace_entry host v5 random R N h = (h', Inr ns)"
  shows "indexed base h' \<and> hi_listening h' = hi_listening h"
proof -
  have i: "getIndex (hi_browser h) = INum (base + int (bw_pos (hi_browser h)))" by (rule indexed_current [OF assms(1)])
  show ?thesis using assms
    by (auto simp: replace_entry_def Let_def i indexed_def replaceState_def nth_list_update
        entry_index_def getHistoryState_def split: host_result.splits)
qed

lemma indexed_go:
  assumes "indexed base h" "hi_listening h" "go n h = (h', ns)"
  shows "indexed base h' \<and> hi_listening h'"
  using assms
  by (auto simp: go_def Let_def handlePop_def getIndex_entry current_def indexed_def idx_nullish_def split: if_splits)

lemma indexed_load:
  assumes "idx_nullish (entry_index n) \<or> entry_index n = INum k"
    "listen (createHistory \<lparr>bw_entries = [n], bw_pos = 0, bw_assigned = []\<rparr>) = Inr h"
  shows "(\<exists>base. indexed base h) \<and> hi_listening h"
  using assms
  by (auto simp: listen_def createHistory_def getIndex_entry current_def replaceState_def indexed_def entry_index_def
      idx_nullish_def Let_def nth_Cons' split: if_splits option.splits)

lemma history_run_indexed: "history_run host h \<Longrightarrow> (\<exists>base. indexed base h) \<and> hi_listening h"
proof (induction rule: history_run.induct)
  case (load n k h)
  then show ?case by (rule indexed_load)
next
  case (pushed h v5 random R N h' ns)
  then show ?case using indexed_push by blast
next
  case (replaced h v5 random R N h' ns)
  then show ?case using indexed_replace by blast
next
  case (moved h n h' ns)
  then show ?case using indexed_go by blast
qed

lemma go_indexed:
  assumes "indexed base h" "hi_listening h" "n \<noteq> 0"
    "0 \<le> int (bw_pos (hi_browser h)) + n" "int (bw_pos (hi_browser h)) + n < int (length (bw_entries (hi_browser h)))"
  shows "\<exists>h'. go n h = (h', [\<lparr>nt_action = POP, nt_location = getLocation (hi_browser h'), nt_delta = INum n\<rparr>])
    \<and> hi_browser h' = (hi_browser h)\<lparr>bw_pos := nat (int (bw_pos (hi_browser h)) + n)\<rparr> \<and> indexed base h' \<and> hi_listening h'"
  using assms
  by (auto simp: go_def Let_def handlePop_def notify_def getIndex_entry current_def indexed_def idx_nullish_def
      idx_minus_def idx_num_def)


lemma go_back_pushed:
  assumes "history_run host h" "push host v5 random R N h = (h1, Inr ns)"
    "bw_assigned (hi_browser h1) = bw_assigned (hi_browser h)"
  shows "\<exists>h2. go (-1) h1 = (h2, [\<lparr>nt_action = POP, nt_location = getLocation (hi_browser h2), nt_delta = INum (-1)\<rparr>])
    \<and> current (hi_browser h2) = current (hi_browser h) \<and> hi_browser (fst (go 1 h2)) = hi_browser h1"
proof -
  obtain base where i: "indexed base h" and l: "hi_listening h" using history_run_indexed [OF assms(1)] by blast
  have p: "bw_pos (hi_browser h) < length (bw_entries (hi_browser h))" using i by (simp add: indexed_def Let_def)
  obtain e where b: "hi_browser h1 = pushState e (hi_browser h)"
    using assms(2,3) by (auto simp: push_def Let_def split: host_result.splits)
  then have c: "bw_pos (hi_browser h1) = Suc (bw_pos (hi_browser h))"
    "bw_entries (hi_browser h1) = take (Suc (bw_pos (hi_browser h))) (bw_entries (hi_browser h)) @ [e]"
    by (simp_all add: pushState_def)
  have h1: "indexed base h1" "hi_listening h1" using indexed_push [OF i assms(2,3)] l by simp_all
  from go_indexed [OF h1, of "-1"] p obtain h2
    where h2: "go (-1) h1 = (h2, [\<lparr>nt_action = POP, nt_location = getLocation (hi_browser h2), nt_delta = INum (-1)\<rparr>])"
      "hi_browser h2 = (hi_browser h1)\<lparr>bw_pos := bw_pos (hi_browser h)\<rparr>" "indexed base h2" "hi_listening h2"
    by (auto simp: c)
  moreover have "current (hi_browser h2) = current (hi_browser h)"
    using p by (simp add: h2 current_def c nth_append)
  moreover have "hi_browser (fst (go 1 h2)) = hi_browser h1"
    using go_indexed [OF h2(3,4), of 1] p by (auto simp: h2(2) c)
  ultimately show ?thesis by blast
qed

text \<open>Going back undoes a push: after \<open>push\<close> of an address the browser accepts, one step back shows the
  location from before, state and key included, and one step forward again the pushed one.\<close>

lemma push_back:
  assumes "history_run host h" and "push host v5 random R N h = (h1, Inr ns)"
    and "bw_assigned (hi_browser h1) = bw_assigned (hi_browser h)"
  shows "getLocation (hi_browser (fst (go (-1) h1))) = getLocation (hi_browser h)
    \<and> getLocation (hi_browser (fst (go 1 (fst (go (-1) h1))))) = getLocation (hi_browser h1)"
  using go_back_pushed [OF assms] by (auto simp: getLocation_def)

text \<open>A browser that reads an address as the router's own \<open>parsePath\<close> does, and a page with two
  pushed entries.\<close>

definition plain_host :: "string \<Rightarrow> host_result" where
  "plain_host s =
     (let p = parsePath s
      in Accepted \<lparr>l_pathname = nullish (p_pathname p) ''/'', l_search = nullish (p_search p) [],
           l_hash = nullish (p_hash p) []\<rparr>)"

definition loaded :: history where
  "loaded = (createHistory \<lparr>bw_entries = [\<lparr>en_location = \<lparr>l_pathname = ''/a'', l_search = [], l_hash = []\<rparr>,
     en_state = None\<rparr>], bw_pos = 0, bw_assigned = []\<rparr>)\<lparr>hi_listening := True\<rparr>"

definition pushed_once :: history where
  "pushed_once = fst (push plain_host True ''k1'' (parsePath ''/b?x=1'') JNull loaded)"

definition pushed_twice :: history where
  "pushed_twice = fst (push plain_host True ''k2'' (parsePath ''/c'') JNull pushed_once)"

lemma pushed_host: "fst (push plain_host v5 r R N h) = h' \<Longrightarrow>
    \<exists>ns. push plain_host v5 r R N h = (h', Inr ns) \<and> bw_assigned (hi_browser h') = bw_assigned (hi_browser h)"
  by (auto simp: push_def Let_def plain_host_def pushState_def)

lemma run_loaded: "history_run plain_host loaded"
  unfolding loaded_def
  by (rule history_run.load [where n = "\<lparr>en_location = \<lparr>l_pathname = ''/a'', l_search = [], l_hash = []\<rparr>, en_state = None\<rparr>"])
    (simp_all add: listen_def createHistory_def entry_index_def getIndex_def current_def idx_nullish_def)

lemma run_pushed: "history_run plain_host h \<Longrightarrow> history_run plain_host (fst (push plain_host v5 r R N h))"
  using pushed_host [of v5 r R N h] history_run.pushed by blast



end
