(* ===== verification/Router_Render.thy ===== *)
theory Router_Render
  imports Router_Match Router_History
begin

text \<open>
  The components of the router: \<open>Routes\<close> (its children become route objects,
  the matches become nested elements), \<open>Router\<close>, \<open>BrowserRouter\<close>, \<open>Link\<close> and
  \<open>NavLink\<close>, with the hooks they call. The contexts of React are arguments.
  The application has no data router, so the parameters that only a data
  router fills are absent.
\<close>

section \<open>Route objects from elements\<close>

record 'e route_props =
  rp_id :: "string option"
  rp_caseSensitive :: bool
  rp_element :: "'e option"
  rp_Component :: "'e option"
  rp_index :: bool
  rp_path :: "string option"
  rp_hasErrorBoundary :: bool
  rp_rest :: "(string \<times> 'e) list"

text \<open>A child of \<open>Routes\<close>: a \<open>Route\<close> element, a fragment, an element of another type, or something that
  is no element.\<close>

datatype 'e jchild =
    JRoute "'e route_props" "'e jchild list"
  | JFragment "'e jchild list"
  | JOther string
  | JNone

datatype children_error = NotARoute string | IndexRouteChildren

definition copied_props :: "string list" where
  "copied_props = [''middleware'', ''loader'', ''action'', ''hydrateFallbackElement'', ''HydrateFallback'',
     ''errorElement'', ''ErrorBoundary'', ''shouldRevalidate'', ''handle'', ''lazy'']"

definition route_object :: "'e route_props \<Rightarrow> nat list \<Rightarrow> 'e route list \<Rightarrow> 'e route" where
  "route_object i s kids =
     Route (rp_path i) (rp_caseSensitive i) (rp_index i) (rp_element i)
       (Ext (if truthy_opt (rp_id i) then the (rp_id i) else join_with ''-'' (map show_nat s)) (rp_Component i)
          (rp_hasErrorBoundary i \<or> map_of (rp_rest i) ''ErrorBoundary'' \<noteq> None \<or> map_of (rp_rest i) ''errorElement'' \<noteq> None)
          (filter (\<lambda>(k, _). k \<in> set copied_props) (rp_rest i)))
       kids"

text \<open>\<open>GR\<close>; \<open>c\<close> is the index of the next child.\<close>

fun createRoutes :: "'e jchild list \<Rightarrow> nat \<Rightarrow> nat list \<Rightarrow> children_error + 'e route list"
  and createRoute :: "'e jchild \<Rightarrow> nat list \<Rightarrow> children_error + 'e route list" where
  "createRoutes [] c t = Inr []"
| "createRoutes (i # is) c t =
     (case createRoute i (t @ [c]) of
        Inl e \<Rightarrow> Inl e
      | Inr a \<Rightarrow> (case createRoutes is (Suc c) t of Inl e \<Rightarrow> Inl e | Inr b \<Rightarrow> Inr (a @ b)))"
| "createRoute JNone s = Inr []"
| "createRoute (JFragment kids) s = createRoutes kids 0 s"
| "createRoute (JOther n) s = Inl (NotARoute n)"
| "createRoute (JRoute i kids) s =
     (if rp_index i \<and> kids \<noteq> [] then Inl IndexRouteChildren
      else if kids = [] then Inr [route_object i s []]
      else (case createRoutes kids 0 s of Inl e \<Rightarrow> Inl e | Inr ks \<Rightarrow> Inr [route_object i s ks]))"

section \<open>Rendering the matches\<close>

text \<open>What \<open>Routes\<close> renders: nested providers of the route context (\<open>P7\<close>), each with the outlet,
  the matches so far and the element of its route.\<close>

datatype 'e view =
    VNull
  | VElement 'e
  | VComponent 'e
  | VRoute "'e route_match" "'e view" "'e route_match list" "'e view"

definition route_view :: "'e route \<Rightarrow> 'e view \<Rightarrow> 'e view" where
  "route_view r O' =
     (case x_Component (r_ext r) of
        Some c \<Rightarrow> VComponent c
      | None \<Rightarrow> (case r_element r of Some e \<Rightarrow> VElement e | None \<Rightarrow> O'))"

text \<open>\<open>k7\<close>: \<open>reduceRight\<close> from the leaf to the root; \<open>t\<close> are the matches of the parent routes
  and \<open>done\<close> those of the routes outside the current one.\<close>

fun render_from :: "'e route_match list \<Rightarrow> 'e route_match list \<Rightarrow> 'e view" where
  "render_from N [] = VNull"
| "render_from N (S # ss) =
     (let O' = render_from (N @ [S]) ss in VRoute S O' (N @ [S]) (route_view (rm_route S) O'))"

definition renderMatches :: "'e route_match list option \<Rightarrow> 'e route_match list \<Rightarrow> 'e view" where
  "renderMatches e t = (case e of None \<Rightarrow> VNull | Some s \<Rightarrow> render_from t s)"

text \<open>\<open>Qq\<close>. \<open>enc\<close> is the pathname of \<open>navigator.encodeLocation\<close>, if the navigator has it; \<open>E\<close> the
  location of the context and \<open>t\<close> the \<open>location\<close> prop.\<close>

datatype routes_error = RouteTree route_error | LocationOutside string string

definition hide_marks :: "string \<Rightarrow> string" where
  "hide_marks s = concat (map (\<lambda>c. if c = CHR ''?'' then ''%3F'' else if c = CHR ''#'' then ''%23'' else [c]) s)"

definition encode_match :: "(string \<Rightarrow> string) option \<Rightarrow> string \<Rightarrow> string" where
  "encode_match enc s = (case enc of Some f \<Rightarrow> f (hide_marks s) | None \<Rightarrow> s)"

definition rest_of :: "string \<Rightarrow> string \<Rightarrow> string" where
  "rest_of O' D =
     (let cut = (\<lambda>s. split_on (CHR ''/'') (if starts_with s ''/'' then drop 1 s else s))
      in CHR ''/'' # join_with ''/'' (drop (length (cut O')) (cut D)))"

definition useRoutes :: "(string \<Rightarrow> string) option \<Rightarrow> 'e route list \<Rightarrow> location option \<Rightarrow> location \<Rightarrow> 'e route_match list
    \<Rightarrow> routes_error + 'e view" where
  "useRoutes enc e t E h =
     (let y = (if h = [] then None else Some (last h));
          g = (case y of None \<Rightarrow> [] | Some m \<Rightarrow> rm_params m);
          O' = (case y of None \<Rightarrow> ''/'' | Some m \<Rightarrow> rm_pathnameBase m);
          w = nullish t E;
          D = (if l_pathname w = [] then ''/'' else l_pathname w);
          C = (if O' \<noteq> ''/'' then rest_of O' D else D)
      in if t \<noteq> None \<and> O' \<noteq> ''/'' \<and> \<not> starts_with (l_pathname w) O'
         then Inl (LocationOutside O' (l_pathname w))
         else (case matchRoutes e \<lparr>p_pathname = Some C, p_search = None, p_hash = None\<rparr> ''/'' of
                 Inl err \<Rightarrow> Inl (RouteTree err)
               | Inr R \<Rightarrow>
                   Inr (renderMatches
                     (map_option (map (\<lambda>U. U\<lparr>rm_params := obj_spread g (rm_params U),
                        rm_pathname := joinPaths [O', encode_match enc (rm_pathname U)],
                        rm_pathnameBase := (if rm_pathnameBase U = ''/'' then O'
                          else joinPaths [O', encode_match enc (rm_pathnameBase U)])\<rparr>)) R) h)))"

text \<open>The elements of the routes, outermost first; the element of each has the next one as its
  outlet (\<open>q7\<close>).\<close>

fun view_elements :: "'e view \<Rightarrow> 'e list" where
  "view_elements (VRoute m O' ms c) =
     (case c of VElement e \<Rightarrow> [e] | VComponent e \<Rightarrow> [e] | _ \<Rightarrow> []) @ view_elements O'"
| "view_elements _ = []"

section \<open>The router\<close>

text \<open>\<open>J7\<close>: the basename with one leading slash, and the location below it; \<^const>\<open>None\<close> when the
  location is not below it, in which case the router renders nothing.\<close>

definition router_basename :: "string \<Rightarrow> string" where
  "router_basename e = CHR ''/'' # drop_leading e"

definition router_location :: "string \<Rightarrow> 'a location_scheme \<Rightarrow> 'a location_scheme option" where
  "router_location e a =
     map_option (\<lambda>C. a\<lparr>l_pathname := C\<rparr>) (stripBasename (l_pathname a) (router_basename e))"

text \<open>\<open>v7\<close> and \<open>Hq\<close>: the pathnames that relative links start from.\<close>

definition contributing :: "'e route_match list \<Rightarrow> 'e route_match list" where
  "contributing e = (case e of [] \<Rightarrow> [] | m # ms \<Rightarrow> m # filter (\<lambda>t. truthy_opt (r_path (rm_route t))) ms)"

definition resolveToPathnames :: "'e route_match list \<Rightarrow> string list" where
  "resolveToPathnames e =
     (case contributing e of [] \<Rightarrow> [] | ms \<Rightarrow> map rm_pathnameBase (butlast ms) @ [rm_pathname (last ms)])"

text \<open>\<open>T1\<close> (\<open>useResolvedPath\<close>) and \<open>D7\<close> (\<open>useHref\<close>): the address of a link; \<open>createHref\<close> of the history
  prints the path. \<open>rel\<close> says that the option \<open>relative\<close> is \<open>path\<close>.\<close>

definition below :: "string \<Rightarrow> string \<Rightarrow> string" where
  "below a s = (if a \<noteq> ''/'' then (if s = ''/'' then a else joinPaths [a, s]) else s)"

definition useResolvedPath :: "bool \<Rightarrow> string \<Rightarrow> string list \<Rightarrow> string \<Rightarrow> location" where
  "useResolvedPath rel to matches pathname = resolveTo to matches pathname rel"

definition useHref :: "bool \<Rightarrow> string \<Rightarrow> string \<Rightarrow> string list \<Rightarrow> string \<Rightarrow> string" where
  "useHref rel base to matches pathname =
     (let l = useResolvedPath rel to matches pathname
      in createPath \<lparr>p_pathname = Some (below (router_basename base) (l_pathname l)),
           p_search = Some (l_search l), p_hash = Some (l_hash l)\<rparr>)"

section \<open>Navigation\<close>

text \<open>\<open>z7\<close> (\<open>useNavigate\<close>) on a number of entries or a path; \<open>active\<close> says that the component is mounted.\<close>

datatype nav_target = ToDelta int | ToPath string

definition navigate :: "bool \<Rightarrow> (string \<Rightarrow> host_result) \<Rightarrow> string \<Rightarrow> string \<Rightarrow> string list \<Rightarrow> string \<Rightarrow> bool \<Rightarrow> bool \<Rightarrow> json \<Rightarrow> nav_target
    \<Rightarrow> history \<Rightarrow> history \<times> (history_error + notification list)" where
  "navigate rel host random base matches pathname active repl st g h =
     (if \<not> active then (h, Inr [])
      else (case g of
              ToDelta n \<Rightarrow> map_prod id Inr (go n h)
            | ToPath p \<Rightarrow>
                (let O' = resolveTo p matches pathname rel;
                     t = \<lparr>p_pathname = Some (below (router_basename base) (l_pathname O')),
                          p_search = Some (l_search O'), p_hash = Some (l_hash O')\<rparr>
                 in if repl then replace_entry host True random t st h else push host True random t st h)))"

text \<open>The mouse event of a click on a link.\<close>

record click =
  ck_button :: int
  ck_meta :: bool
  ck_alt :: bool
  ck_ctrl :: bool
  ck_shift :: bool
  ck_defaultPrevented :: bool

definition isModifiedEvent :: "click \<Rightarrow> bool" where
  "isModifiedEvent e \<longleftrightarrow> ck_meta e \<or> ck_alt e \<or> ck_ctrl e \<or> ck_shift e"

definition shouldProcessLinkClick :: "click \<Rightarrow> string option \<Rightarrow> bool" where
  "shouldProcessLinkClick e t \<longleftrightarrow>
     ck_button e = 0 \<and> (\<not> truthy_opt t \<or> t = Some ''_self'') \<and> \<not> isModifiedEvent e"

text \<open>\<open>AP\<close> (\<open>useLinkClickHandler\<close>) and the \<open>onClick\<close> of \<open>Link\<close>: the event, with whether its default is
  prevented afterwards, and the navigation. \<open>O\<close> is the location below the basename. A link to the
  current location replaces the entry.\<close>

definition same_place :: "'a location_scheme \<Rightarrow> location \<Rightarrow> bool" where
  "same_place a b \<longleftrightarrow>
     createPath \<lparr>p_pathname = Some (l_pathname a), p_search = Some (l_search a), p_hash = Some (l_hash a)\<rparr>
     = createPath \<lparr>p_pathname = Some (l_pathname b), p_search = Some (l_search b), p_hash = Some (l_hash b)\<rparr>"

definition linkClick :: "bool \<Rightarrow> (string \<Rightarrow> host_result) \<Rightarrow> string \<Rightarrow> string \<Rightarrow> string list \<Rightarrow> 'a location_scheme \<Rightarrow> bool
    \<Rightarrow> string option \<Rightarrow> bool option \<Rightarrow> json \<Rightarrow> string \<Rightarrow> click \<Rightarrow> history
    \<Rightarrow> click \<times> history \<times> (history_error + notification list)" where
  "linkClick rel host random base matches O' active target repl st to ev h =
     (if ck_defaultPrevented ev \<or> \<not> shouldProcessLinkClick ev target then (ev, h, Inr [])
      else (let w = (case repl of Some r \<Rightarrow> r
                     | None \<Rightarrow> same_place O' (useResolvedPath rel to matches (l_pathname O')));
                (h', r) = navigate rel host random base matches (l_pathname O') active w st (ToPath to) h
            in (ev\<lparr>ck_defaultPrevented := True\<rparr>, h', r)))"

text \<open>\<open>kq\<close>: a link that is an absolute URL is external unless it has the origin of the page and a path
  below the basename. \<open>url\<close> is the URL parser of the browser: origin and location, \<^const>\<open>None\<close> if it
  throws.\<close>

definition is_scheme_char :: "char \<Rightarrow> bool" where
  "is_scheme_char c \<longleftrightarrow> is_alnum c \<or> c \<in> set ''+.-''"

definition absolute_url :: "string \<Rightarrow> bool" where
  "absolute_url s \<longleftrightarrow>
     starts_with s ''//'' \<or>
     (case s of [] \<Rightarrow> False
      | c # r \<Rightarrow> is_alnum c \<and> \<not> is_digit c \<and> starts_with (dropWhile is_scheme_char r) '':'')"

record external_link =
  xl_absoluteURL :: "string option"
  xl_isExternal :: bool
  xl_to :: string

definition parseToInfo :: "(string \<Rightarrow> (string \<times> location) option) \<Rightarrow> string \<Rightarrow> string \<Rightarrow> string \<Rightarrow> string \<Rightarrow> external_link" where
  "parseToInfo url origin protocol e t =
     (if \<not> absolute_url e then \<lparr>xl_absoluteURL = None, xl_isExternal = False, xl_to = e\<rparr>
      else (case url (if starts_with e ''//'' then protocol @ e else e) of
              None \<Rightarrow> \<lparr>xl_absoluteURL = Some e, xl_isExternal = False, xl_to = e\<rparr>
            | Some (ho, l) \<Rightarrow>
                (case (ho = origin, stripBasename (l_pathname l) t) of
                   (True, Some y) \<Rightarrow> \<lparr>xl_absoluteURL = Some e, xl_isExternal = False, xl_to = y @ l_search l @ l_hash l\<rparr>
                 | _ \<Rightarrow> \<lparr>xl_absoluteURL = Some e, xl_isExternal = True, xl_to = e\<rparr>)))"

text \<open>\<open>e8\<close> (\<open>NavLink\<close>): whether the link is active. \<open>N\<close> is the pathname of the link after
  \<open>encodeLocation\<close>, \<open>a\<close> the prop \<open>caseSensitive\<close> and \<open>c\<close> the prop \<open>end\<close>.\<close>

definition fold_case :: "bool \<Rightarrow> string \<Rightarrow> string" where
  "fold_case a s = (if a then s else to_lower s)"

definition nav_active :: "bool \<Rightarrow> bool \<Rightarrow> string \<Rightarrow> string \<Rightarrow> bool" where
  "nav_active a c L0 N0 =
     (let L = fold_case a L0; N = fold_case a N0;
          n = (if N \<noteq> ''/'' \<and> ends_with N ''/'' then length N - 1 else length N)
      in L = N \<or> \<not> c \<and> starts_with L N \<and> n < length L \<and> L ! n = CHR ''/'')"

section \<open>The browser router\<close>

text \<open>\<open>OP\<close>: the state of the component is the last action and location the history reported.\<close>

record router_state =
  rs_action :: action
  rs_location :: full_location

definition initial_router :: "history \<Rightarrow> router_state" where
  "initial_router h = \<lparr>rs_action = hi_action h, rs_location = getLocation (hi_browser h)\<rparr>"

definition on_notify :: "notification \<Rightarrow> router_state \<Rightarrow> router_state" where
  "on_notify n s = \<lparr>rs_action = nt_action n, rs_location = nt_location n\<rparr>"

definition plain_location :: "'a location_scheme \<Rightarrow> location" where
  "plain_location l = \<lparr>l_pathname = l_pathname l, l_search = l_search l, l_hash = l_hash l\<rparr>"

text \<open>\<open>BrowserRouter\<close> around \<open>Routes\<close>: the elements that a location shows.\<close>

definition rendered :: "(string \<Rightarrow> string) option \<Rightarrow> 'e route list \<Rightarrow> string \<Rightarrow> 'a location_scheme \<Rightarrow> routes_error + 'e list" where
  "rendered enc e base w =
     (case router_location base w of
        None \<Rightarrow> Inr []
      | Some l \<Rightarrow> (case useRoutes enc e None (plain_location l) [] of
                    Inl err \<Rightarrow> Inl err | Inr v \<Rightarrow> Inr (view_elements v)))"

lemma view_elements_render:
  "\<forall>S \<in> set ss. x_Component (r_ext (rm_route S)) = None \<and> r_element (rm_route S) \<noteq> None \<Longrightarrow>
     view_elements (render_from N ss) = map (\<lambda>S. the (r_element (rm_route S))) ss"
  by (induction ss arbitrary: N) (auto simp: Let_def route_view_def)

end
