(* ===== verification/Router_Link.thy ===== *)
theory Router_Link
  imports Router_Render Ui_Tree
begin

text \<open>
  The components \<open>Link\<close> (\<open>dM\<close>) and \<open>NavLink\<close> (\<open>e8\<close>): the anchor they render, the hook
  \<open>mP\<close> that decides when a link prefetches its page, and the classes of an
  active, pending or transitioning link. The contexts of React are arguments:
  the router context in \<open>link_env\<close>, the framework context as a truth value, the
  state of a data router as an option.
\<close>

section \<open>Prefetching\<close>

text \<open>The state of \<open>mP\<close>: \<open>i\<close> (\<open>maybePrefetch\<close>), \<open>s\<close> (\<open>shouldPrefetch\<close>), and whether the timeout and the
  intersection observer of its effects are active. Each change of state is followed by the effects
  it triggers.\<close>

record prefetch_state =
  pf_maybe :: bool
  pf_should :: bool
  pf_timer :: bool
  pf_observer :: bool

definition pf_init :: prefetch_state where
  "pf_init = \<lparr>pf_maybe = False, pf_should = False, pf_timer = False, pf_observer = False\<rparr>"

text \<open>The effect on \<open>[e]\<close>, after the cleanup of its previous run.\<close>

definition pf_mode_effect :: "string \<Rightarrow> prefetch_state \<Rightarrow> prefetch_state" where
  "pf_mode_effect e p =
     (let p1 = p\<lparr>pf_observer := False\<rparr>;
          p2 = (if e = ''render'' then p1\<lparr>pf_should := True\<rparr> else p1)
      in if e = ''viewport'' then p2\<lparr>pf_observer := True\<rparr> else p2)"

text \<open>\<open>c\<close>, with the effect on \<open>[i]\<close>: a timeout of 100 ms runs while \<open>i\<close> holds.\<close>

definition pf_set_maybe :: "bool \<Rightarrow> prefetch_state \<Rightarrow> prefetch_state" where
  "pf_set_maybe b p = (if pf_maybe p = b then p else p\<lparr>pf_maybe := b, pf_timer := b\<rparr>)"

definition pf_enter :: "prefetch_state \<Rightarrow> prefetch_state" where
  "pf_enter p = pf_set_maybe True p"

definition pf_leave :: "prefetch_state \<Rightarrow> prefetch_state" where
  "pf_leave p = (pf_set_maybe False p)\<lparr>pf_should := False\<rparr>"

definition pf_timeout :: "prefetch_state \<Rightarrow> prefetch_state" where
  "pf_timeout p = (if pf_timer p then p\<lparr>pf_timer := False, pf_should := True\<rparr> else p)"

definition pf_seen :: "bool list \<Rightarrow> prefetch_state \<Rightarrow> prefetch_state" where
  "pf_seen bs p = (if pf_observer p then fold (\<lambda>b q. q\<lparr>pf_should := b\<rparr>) bs p else p)"

definition pf_unmount :: "prefetch_state \<Rightarrow> prefetch_state" where
  "pf_unmount p = p\<lparr>pf_timer := False, pf_observer := False\<rparr>"

text \<open>\<open>xb\<close>: the handler of the caller first; the second one unless the event is then
  prevented.\<close>

definition compose_handlers :: "('e \<Rightarrow> 'e) option \<Rightarrow> ('e \<Rightarrow> bool) \<Rightarrow> ('s \<Rightarrow> 's) \<Rightarrow> 'e \<Rightarrow> 's \<Rightarrow> 'e \<times> 's" where
  "compose_handlers u prevented f ev s =
     (let ev' = (case u of None \<Rightarrow> ev | Some g \<Rightarrow> g ev) in (ev', if prevented ev' then s else f s))"

text \<open>The events that reach the hook; those of the handlers only come in when they are attached, in a framework
  application with the mode \<open>intent\<close>.\<close>

datatype pf_event =
    PfEnter "click \<Rightarrow> click" click
  | PfLeave "click \<Rightarrow> click" click
  | PfTimeout
  | PfSeen "bool list"
  | PfMode string

definition pf_handled :: "bool \<Rightarrow> string \<Rightarrow> pf_event \<Rightarrow> prefetch_state \<Rightarrow> prefetch_state" where
  "pf_handled a e v p =
     (case v of
        PfEnter g ev \<Rightarrow> if a \<and> e = ''intent'' then snd (compose_handlers (Some g) ck_defaultPrevented pf_enter ev p) else p
      | PfLeave g ev \<Rightarrow> if a \<and> e = ''intent'' then snd (compose_handlers (Some g) ck_defaultPrevented pf_leave ev p) else p
      | PfTimeout \<Rightarrow> pf_timeout p
      | PfSeen bs \<Rightarrow> pf_seen bs p
      | PfMode e' \<Rightarrow> if e' = e then p else pf_mode_effect e' p)"

inductive pf_run :: "bool \<Rightarrow> string \<Rightarrow> prefetch_state \<Rightarrow> bool" for a where
  pf_mounted: "pf_run a e (pf_mode_effect e pf_init)"
| pf_event: "pf_run a e p \<Longrightarrow> pf_run a (case v of PfMode e' \<Rightarrow> e' | _ \<Rightarrow> e) (pf_handled a e v p)"

inductive_cases pf_runE: "pf_run a e p"

section \<open>The anchor\<close>

text \<open>The handlers of the rendered anchor: one that the caller gave, the click handler \<open>X\<close> around the one
  of the caller, or a composed handler of the prefetch hook.\<close>

datatype 'u link_action = Given 'u | Follow "'u option" | Intent bool "'u option"

record link_env =
  le_base :: string
  le_matches :: "string list"
  le_pathname :: string
  le_url :: "string \<Rightarrow> (string \<times> location) option"
  le_origin :: string
  le_protocol :: string

record 'u link_props =
  lk_onClick :: "'u option"
  lk_discover :: "string option"
  lk_prefetch :: "string option"
  lk_relative :: "string option"
  lk_reloadDocument :: bool
  lk_target :: "string option"
  lk_to :: string
  lk_rest :: "(string \<times> 'u attr) list"
  lk_children :: "'u node list"

text \<open>A property written after a spread; \<^const>\<open>None\<close> is \<open>undefined\<close>.\<close>

definition put_attr :: "string \<Rightarrow> 'a attr option \<Rightarrow> (string \<times> 'a attr) list \<Rightarrow> (string \<times> 'a attr) list" where
  "put_attr k v ps = filter (\<lambda>q. fst q \<noteq> k) ps @ (case v of None \<Rightarrow> [] | Some a \<Rightarrow> [(k, a)])"

fun handler_of :: "'u attr option \<Rightarrow> 'u option" where
  "handler_of (Some (AAct u)) = Some u"
| "handler_of _ = None"

text \<open>\<open>mP\<close>: whether to prefetch, and the handlers to attach.\<close>

definition usePrefetchBehavior :: "bool \<Rightarrow> string \<Rightarrow> prefetch_state \<Rightarrow> (string \<times> 'u attr) list
    \<Rightarrow> bool \<times> (string \<times> 'u link_action attr) list" where
  "usePrefetchBehavior a e p w =
     (if a then (if e \<noteq> ''intent'' then (pf_should p, [])
                 else (pf_should p,
                       map (\<lambda>(k, b). (k, AAct (Intent b (handler_of (map_of w k)))))
                         [(''onFocus'', True), (''onBlur'', False), (''onMouseEnter'', True), (''onMouseLeave'', False),
                          (''onTouchStart'', True)]))
      else (False, []))"

text \<open>\<open>dM\<close>; \<open>a\<close> is the framework context.\<close>

definition Link :: "link_env \<Rightarrow> bool \<Rightarrow> prefetch_state \<Rightarrow> 'u link_props \<Rightarrow> 'u link_action node" where
  "Link env a p q =
     (let N = absolute_url (lk_to q);
          L = parseToInfo (le_url env) (le_origin env) (le_protocol env) (lk_to q) (router_basename (le_base env));
          U = useHref (lk_relative q = Some ''path'') (le_base env) (xl_to L) (le_matches env) (le_pathname env);
          (S, B) = usePrefetchBehavior a (nullish (lk_prefetch q) ''none'') p (lk_rest q);
          w = obj_spread (map (\<lambda>(k, v). (k, map_attr Given v)) (lk_rest q)) B;
          F = NElem ''a'' None
            (put_attr ''data-discover''
               (if \<not> N \<and> nullish (lk_discover q) ''render'' = ''render'' then Some (AStr ''true'') else None)
               (put_attr ''target'' (map_option AStr (lk_target q))
                 (put_attr ''onClick''
                   (if xl_isExternal L \<or> lk_reloadDocument q then map_option (\<lambda>u. AAct (Given u)) (lk_onClick q)
                    else Some (AAct (Follow (lk_onClick q))))
                   (put_attr ''href''
                     (Some (AStr (if truthy_opt (xl_absoluteURL L) then the (xl_absoluteURL L) else U))) w))))
            (map (map_node Given) (lk_children q))
      in if S \<and> \<not> N then NFrag [F, NElem ''vP'' None [(''page'', AStr U)] []] else F)"

section \<open>NavLink\<close>

record nav_state =
  ns_isActive :: bool
  ns_isPending :: bool
  ns_isTransitioning :: bool

text \<open>A prop that is a value or a function of the state of the link.\<close>

datatype 'v nav_prop = NavValue 'v | NavFun "nav_state \<Rightarrow> 'v"

primrec nav_value :: "nav_state \<Rightarrow> 'v nav_prop \<Rightarrow> 'v" where
  "nav_value k (NavValue v) = v"
| "nav_value k (NavFun f) = f k"

text \<open>The state of a data router that concerns a link: the pathname being navigated to, and the view
  transition.\<close>

record view_transition =
  vt_isTransitioning :: bool
  vt_current :: string
  vt_next :: string

record nav_data =
  nd_pending :: "string option"
  nd_transition :: view_transition

definition or_self :: "string option \<Rightarrow> string \<Rightarrow> string" where
  "or_self x d = (if truthy_opt x then the x else d)"

text \<open>\<open>MP\<close>: a transition from or to the pathname of the link.\<close>

definition useViewTransitionState :: "view_transition \<Rightarrow> string \<Rightarrow> string \<Rightarrow> bool" where
  "useViewTransitionState a i c =
     (if \<not> vt_isTransitioning a then False
      else (let s = or_self (stripBasename (vt_current a) i) (vt_current a);
                h = or_self (stripBasename (vt_next a) i) (vt_next a)
            in matchPath c False True h \<noteq> None \<or> matchPath c False True s \<noteq> None))"

definition nav_pending :: "bool \<Rightarrow> bool \<Rightarrow> string \<Rightarrow> string option \<Rightarrow> string \<Rightarrow> bool" where
  "nav_pending a c C U0 N0 =
     (let N = fold_case a N0;
          U1 = (if a then U0 else if truthy_opt U0 then map_option to_lower U0 else None);
          U = (if truthy_opt U1 \<and> C \<noteq> [] then Some (or_self (stripBasename (the U1) C) (the U1)) else U1)
      in case U of
           None \<Rightarrow> False
         | Some u \<Rightarrow> u = N \<or> \<not> c \<and> starts_with u N \<and> length N < length u \<and> u ! length N = CHR ''/'')"

record 'u nav_props =
  nl_ariaCurrent :: "string option"
  nl_caseSensitive :: bool
  nl_className :: "string nav_prop"
  nl_end :: bool
  nl_style :: "json option nav_prop"
  nl_viewTransition :: bool
  nl_children :: "'u node list nav_prop"
  nl_link :: "'u link_props"

definition nav_classes :: "nav_state \<Rightarrow> string nav_prop \<Rightarrow> string" where
  "nav_classes k i =
     (case i of
        NavFun f \<Rightarrow> f k
      | NavValue s \<Rightarrow> join_with '' '' (filter (\<lambda>x. x \<noteq> [])
          [s, if ns_isActive k then ''active'' else [], if ns_isPending k then ''pending'' else [],
           if ns_isTransitioning k then ''transitioning'' else []]))"

text \<open>\<open>e8\<close>; \<open>enc\<close> is the pathname of \<open>navigator.encodeLocation\<close> and \<open>w\<close> the state of the data router, if there is
  one. The result is the props of the \<open>Link\<close> it renders.\<close>

definition nav_link_state :: "(string \<Rightarrow> string) option \<Rightarrow> nav_data option \<Rightarrow> link_env \<Rightarrow> 'u nav_props \<Rightarrow> nav_state" where
  "nav_link_state enc w env q =
     (let b = nl_link q;
          S = l_pathname (useResolvedPath (lk_relative b = Some ''path'') (lk_to b) (le_matches env) (le_pathname env));
          C = router_basename (le_base env);
          N = (case enc of Some f \<Rightarrow> f S | None \<Rightarrow> S)
      in \<lparr>ns_isActive = nav_active (nl_caseSensitive q) (nl_end q) (le_pathname env) N,
          ns_isPending = nav_pending (nl_caseSensitive q) (nl_end q) C (Option.bind w nd_pending) N,
          ns_isTransitioning =
            (case w of None \<Rightarrow> False | Some d \<Rightarrow> useViewTransitionState (nd_transition d) C S \<and> nl_viewTransition q)\<rparr>)"

definition NavLink :: "(string \<Rightarrow> string) option \<Rightarrow> nav_data option \<Rightarrow> link_env \<Rightarrow> 'u nav_props \<Rightarrow> 'u link_props" where
  "NavLink enc w env q =
     (let k = nav_link_state enc w env q; b = nl_link q
      in b\<lparr>lk_rest :=
             put_attr ''style'' (map_option AJson (nav_value k (nl_style q)))
               (put_attr ''className'' (Some (AStr (nav_classes k (nl_className q))))
                 (put_attr ''aria-current''
                   (if ns_isActive k then Some (AStr (nullish (nl_ariaCurrent q) ''page'')) else None) (lk_rest b))),
           lk_children := nav_value k (nl_children q)\<rparr>)"

section \<open>Properties of links\<close>

lemma pf_timer_maybe: "pf_run a e p \<Longrightarrow> pf_timer p \<longrightarrow> pf_maybe p"
proof (induction rule: pf_run.induct)
  case (pf_event e p v)
  have seen: "pf_timer (fold (\<lambda>b q. q\<lparr>pf_should := b\<rparr>) bs q) = pf_timer q \<and>
      pf_maybe (fold (\<lambda>b q. q\<lparr>pf_should := b\<rparr>) bs q) = pf_maybe q" for bs and q :: prefetch_state
    by (induction bs arbitrary: q) auto
  show ?case
    using pf_event.IH seen
    by (cases v) (auto simp: pf_handled_def compose_handlers_def pf_enter_def pf_leave_def pf_set_maybe_def
        pf_timeout_def pf_seen_def pf_mode_effect_def Let_def)
qed (simp add: pf_mode_effect_def pf_init_def Let_def)

text \<open>Leaving a link cancels a prefetch that has not started and withdraws one that has.\<close>

lemma pf_leave_cancels:
  assumes "pf_run True ''intent'' p" and "\<not> ck_defaultPrevented (g ev)"
  shows "let p' = pf_handled True ''intent'' (PfLeave g ev) p
    in \<not> pf_timer p' \<and> \<not> pf_should p' \<and> fst (usePrefetchBehavior True ''intent'' (pf_timeout p') w) = False"
  using assms pf_timer_maybe [OF assms(1)]
  by (auto simp: pf_handled_def compose_handlers_def pf_leave_def pf_set_maybe_def Let_def usePrefetchBehavior_def
      pf_timeout_def)

lemma map_of_put_attr:
  "map_of (put_attr k v ps) j = (if j = k then v else map_of ps j)"
proof -
  have "map_of (filter (\<lambda>q. fst q \<noteq> k) ps) j = (if j = k then None else map_of ps j)"
    by (induction ps) auto
  then show ?thesis by (auto simp: put_attr_def map_add_def split: option.splits)
qed

text \<open>Without a framework context nothing is prefetched, and the anchor of a path has the printed
  address and the click handler around the one of the caller.\<close>

lemma Link_plain:
  assumes "\<not> absolute_url (lk_to q)" and "\<not> lk_reloadDocument q"
  shows "\<exists>ps. Link env False p q = NElem ''a'' None ps (map (map_node Given) (lk_children q))
    \<and> map_of ps ''href'' = Some (AStr (useHref (lk_relative q = Some ''path'') (le_base env) (lk_to q) (le_matches env) (le_pathname env)))
    \<and> map_of ps ''onClick'' = Some (AAct (Follow (lk_onClick q)))
    \<and> (\<forall>k. k \<notin> {''href'', ''onClick'', ''target'', ''data-discover''} \<longrightarrow>
         map_of ps k = map_option (map_attr Given) (map_of (lk_rest q) k))"
proof -
  have "map_of (map (\<lambda>(k, v). (k, map_attr Given v)) w) j = map_option (map_attr Given) (map_of w j)"
    for w :: "(string \<times> 'a attr) list" and j
    by (induction w) auto
  then show ?thesis
    using assms by (simp add: Link_def usePrefetchBehavior_def parseToInfo_def truthy_opt_def map_of_put_attr Let_def)
qed

lemma NavLink_simps [simp]:
  "lk_to (NavLink enc w env q) = lk_to (nl_link q)" "lk_onClick (NavLink enc w env q) = lk_onClick (nl_link q)"
  "lk_reloadDocument (NavLink enc w env q) = lk_reloadDocument (nl_link q)"
  "lk_relative (NavLink enc w env q) = lk_relative (nl_link q)"
  "map_of (lk_rest (NavLink enc w env q)) ''aria-current'' =
     (if ns_isActive (nav_link_state enc w env q) then Some (AStr (nullish (nl_ariaCurrent q) ''page'')) else None)"
  by (simp_all add: NavLink_def map_of_put_attr Let_def)

end
