(* ===== verification/Admin_Format.thy ===== *)
theory Admin_Format
  imports Ui_Tree
begin

text \<open>
  The formatters of the dashboard: \<open>rl\<close> (counts), \<open>kb\<close> (relative times), \<open>pM\<close>
  (rates), and the manifest helpers \<open>DP\<close> and \<open>NP\<close>. What depends on the
  browser's locale or clock (\<open>toLocaleString\<close>, \<open>toLocaleTimeString\<close>, the
  parser of \<open>Date\<close>, \<open>Date.now\<close>) is a field of \<open>browser\<close>, a parameter of every
  definition that uses it. Literals outside ASCII are their UTF-8 bytes.
\<close>

section \<open>The browser\<close>

record browser =
  now_ms :: int
  date_ms :: "string \<Rightarrow> int option"
  num_locale :: "jnum \<Rightarrow> string"
  date_locale :: "string \<Rightarrow> string"
  time_locale :: "string \<Rightarrow> string"

text \<open>\<open>\<dots>\<close> (U+2026), \<open>-\<close> as an em dash (U+2014), the en dash (U+2013) and the other
  symbols the views print.\<close>

definition utf8 :: "nat list \<Rightarrow> string" where
  "utf8 bs = map char_of bs"

definition ellipsis :: string where "ellipsis = utf8 [226, 128, 166]"
definition em_dash :: string where "em_dash = utf8 [226, 128, 148]"
definition en_dash :: string where "en_dash = utf8 [226, 128, 147]"
definition middle_dot :: string where "middle_dot = utf8 [194, 183]"
definition times_sign :: string where "times_sign = utf8 [195, 151]"
definition check_mark :: string where "check_mark = utf8 [226, 156, 147]"
definition ballot_x :: string where "ballot_x = utf8 [226, 156, 151]"

section \<open>The formatters\<close>

definition rl :: "browser \<Rightarrow> jnum \<Rightarrow> string" where
  "rl br e =
     (if 1000000 \<le> e then toFixed 1 (js_div e 1000000) @ ''M''
      else if 1000 \<le> e then toFixed 1 (js_div e 1000) @ ''K''
      else num_locale br e)"

text \<open>\<open>kb\<close>: an unparsable date makes \<open>t\<close> a NaN, for which every comparison fails.\<close>

definition js_floor_str :: "jnum \<Rightarrow> string" where
  "js_floor_str x = show_int \<lfloor>x\<rfloor>"

definition kb_seconds :: "jnum \<Rightarrow> string" where
  "kb_seconds t =
     (if t < 5 then ''just now''
      else if t < 60 then js_floor_str t @ ''s ago''
      else if t < 3600 then js_floor_str (js_div t 60) @ ''m ago''
      else if t < 86400 then js_floor_str (js_div t 3600) @ ''h ago''
      else js_floor_str (js_div t 86400) @ ''d ago'')"

definition kb :: "browser \<Rightarrow> string \<Rightarrow> string" where
  "kb br e =
     (case date_ms br e of
        None \<Rightarrow> ''NaNd ago''
      | Some ms \<Rightarrow> kb_seconds (js_div (js_sub (of_int (now_ms br)) (of_int ms)) 1000))"

definition pM :: "jnum \<Rightarrow> string" where
  "pM e =
     (if e < 1 then toFixed 1 (js_mult e 60) @ ''/h''
      else if 1000 < e then toFixed 0 (js_div e 60) @ ''/s''
      else toFixed 1 e @ ''/m'')"

section \<open>The manifest\<close>

text \<open>\<open>extensions\<close> is either the list form (an array of strings) or the object form.\<close>

record ext_info =
  x_name :: string
  x_version :: string
  x_uri :: string

datatype extensions =
    ExtArray "string list"
  | ExtObj "ext_info list option" "ext_info list option"

record manifest_info =
  mf_name :: string
  mf_version :: string
  mf_language :: string
  mf_backend :: string
  mf_level :: nat
  mf_tier :: "string option"
  mf_protocols :: "string list"
  mf_capabilities :: "(string \<times> json) list option"
  mf_extensions :: "extensions option"
  mf_raw :: json

definition DP :: "manifest_info \<Rightarrow> string \<Rightarrow> bool" where
  "DP e t =
     (case mf_capabilities e of
        None \<Rightarrow> False
      | Some a \<Rightarrow> map_of a t = Some (JBool True))"

definition levels :: "string list" where
  "levels = [''Core'', ''Reliable'', ''Scheduled'', ''Orchestration'', ''Advanced'']"

definition NP :: "nat \<Rightarrow> string" where
  "NP e = ''Level '' @ show_nat e @ '': ''
     @ (if e < length levels then levels ! e else ''Unknown'')"

section \<open>Relative times are exact\<close>

lemma floor_near:
  fixes y :: rat and a b :: int
  assumes "0 < b" and "\<bar>y - of_int a / of_int b\<bar> < 1 / of_int b" and "b dvd a \<Longrightarrow> of_int a / of_int b \<le> y"
  shows "\<lfloor>y\<rfloor> = a div b"
proof -
  define n r where "n = a div b" and "r = a mod b"
  have a: "a = b * n + r" and r: "0 \<le> r" "r < b" using assms(1) by (simp_all add: n_def r_def)
  have q: "of_int a / of_int b = (of_int n + of_int r / of_int b :: rat)"
    using assms(1) by (simp add: a field_simps)
  have "of_int (r + 1) \<le> (of_int b :: rat)" using r(2) by (simp only: of_int_le_iff)
  then have hi: "(of_int r + 1) / of_int b \<le> (1 :: rat)" using assms(1) by simp
  have "y < of_int n + 1" using assms(2) hi unfolding q by (simp add: abs_less_iff add_divide_distrib)
  moreover have "of_int n \<le> y"
  proof (cases "r = 0")
    case True
    then show ?thesis using assms(1,3) q by (simp add: a)
  next
    case False
    then have "1 / of_int b \<le> (of_int r / of_int b :: rat)"
      using r assms(1) by (intro divide_right_mono) (simp_all add: int_one_le_iff_zero_less)
    then show ?thesis using assms(2) unfolding q by (simp add: abs_less_iff)
  qed
  ultimately show ?thesis unfolding n_def by linarith
qed

text \<open>\<open>ms / 1000\<close> and then divided by the unit \<open>u\<close>, with both roundings.\<close>

lemma rnd_near: "0 \<le> x \<Longrightarrow> \<bar>rnd x - x\<bar> \<le> x / 2 ^ 53"
  using rnd_error [of x] by simp

lemma seconds_near:
  assumes "0 \<le> ms" "ms < 2 ^ 51"
  shows "\<lfloor>js_div (of_int ms) 1000\<rfloor> = ms div 1000"
proof (rule floor_near)
  have "\<bar>js_div (of_int ms) 1000 - of_int ms / 1000\<bar> \<le> of_int ms / 1000 / 2 ^ 53"
    unfolding js_div_def using assms by (intro rnd_near) simp
  also have "\<dots> < 1 / 1000" using assms(2) by (simp add: field_simps)
  finally show "\<bar>js_div (of_int ms) 1000 - of_int ms / of_int 1000\<bar> < 1 / of_int 1000" by simp
  assume "1000 dvd ms"
  then obtain k where k: "ms = 1000 * k" by blast
  then have "js_div (of_int ms) 1000 = of_int k"
    unfolding js_div_def using assms rnd_of_int [of k] by simp
  then show "of_int ms / of_int 1000 \<le> js_div (of_int ms) 1000" by (simp add: k)
qed simp

lemma unit_near:
  assumes "0 \<le> ms" "ms < 2 ^ 51" "0 < u"
  shows "\<lfloor>js_div (js_div (of_int ms) 1000) (of_int u)\<rfloor> = ms div (1000 * u)"
proof (rule floor_near)
  let ?m = "of_int ms :: rat" and ?u = "of_int u :: rat"
  define t where "t = js_div ?m 1000"
  have m: "0 \<le> ?m" "?m < 2 ^ 51" using assms(1,2) by simp_all
  have u: "0 < ?u" using assms(3) by simp
  have t1: "\<bar>t - ?m / 1000\<bar> \<le> ?m / 1000 / 2 ^ 53"
    unfolding t_def js_div_def using m by (intro rnd_near) simp
  have "?m / 1000 / 2 ^ 53 \<le> ?m / 1000" using m by simp
  with t1 have t0: "0 \<le> t" "t \<le> ?m / 500" by linarith+
  have "\<bar>js_div t ?u - t / ?u\<bar> \<le> t / ?u / 2 ^ 53"
    unfolding js_div_def using t0 u by (intro rnd_near) simp
  also have "\<dots> \<le> ?m / 500 / ?u / 2 ^ 53" using t0 u by (intro divide_right_mono) auto
  finally have e2: "\<bar>js_div t ?u - t / ?u\<bar> \<le> ?m / 500 / ?u / 2 ^ 53" .
  have "\<bar>t / ?u - ?m / (1000 * ?u)\<bar> = \<bar>t - ?m / 1000\<bar> / ?u"
  proof -
    have "t / ?u - ?m / (1000 * ?u) = (t - ?m / 1000) / ?u" by (simp add: diff_divide_distrib)
    then show ?thesis using u by (simp add: abs_divide)
  qed
  also have "\<dots> \<le> ?m / 1000 / 2 ^ 53 / ?u" using t1 u by (intro divide_right_mono) auto
  finally have e1: "\<bar>t / ?u - ?m / (1000 * ?u)\<bar> \<le> ?m / 1000 / 2 ^ 53 / ?u" .
  have "?m / 500 / ?u / 2 ^ 53 + ?m / 1000 / 2 ^ 53 / ?u = 3 * ?m / 2 ^ 53 * (1 / (1000 * ?u))"
    using u by (simp add: field_simps)
  also have "\<dots> < 1 * (1 / (1000 * ?u))"
    using m u by (intro mult_strict_right_mono) (simp_all add: field_simps)
  finally have "?m / 500 / ?u / 2 ^ 53 + ?m / 1000 / 2 ^ 53 / ?u < 1 / (1000 * ?u)" by simp
  with e1 e2 have "\<bar>js_div t ?u - ?m / (1000 * ?u)\<bar> < 1 / (1000 * ?u)" by linarith
  then show "\<bar>js_div (js_div ?m 1000) ?u - ?m / of_int (1000 * u)\<bar> < 1 / of_int (1000 * u)"
    by (simp add: t_def)
  assume "1000 * u dvd ms"
  then obtain k where k: "ms = 1000 * u * k" by blast
  have k0: "0 \<le> k" using assms k by (simp add: zero_le_mult_iff)
  have "u * k \<le> ms" "k \<le> u * k" using assms k0 unfolding k
    by (simp_all add: mult_le_cancel_right1)
  moreover have "(2 :: int) ^ 51 \<le> 2 ^ 53" by simp
  ultimately have "\<bar>u * k\<bar> < 2 ^ 53" "\<bar>k\<bar> < 2 ^ 53" using assms(2) k0 by linarith+
  note e = rnd_of_int [OF this(1)] rnd_of_int [OF this(2)]
  have "?m / 1000 = of_int (u * k)" "of_int (u * k) / ?u = of_int k" using u by (simp_all add: k)
  with e have "js_div ?m 1000 = of_int (u * k)" "js_div (of_int (u * k)) ?u = of_int k"
    unfolding js_div_def by (simp_all only:)
  then show "?m / of_int (1000 * u) \<le> js_div (js_div ?m 1000) ?u"
    using u by (simp add: k)
qed (use assms in simp)

text \<open>C39: Relative times are exact. For a timestamp that parses, and an age of \<open>ms\<close> milliseconds, the
  text is \<open>just now\<close> below five seconds and otherwise the age in whole seconds, minutes, hours or days,
  rounded down, with the unit chosen by the age; no rounding of the two floating-point
  divisions ever shows in it, for ages up to seventy thousand years.\<close>

theorem kb_exact:
  assumes "date_ms br e = Some d" and "ms = now_ms br - d" and "0 \<le> ms" and "ms < 2 ^ 51"
  shows "kb br e =
    (if ms < 5000 then ''just now''
     else if ms < 60000 then show_int (ms div 1000) @ ''s ago''
     else if ms < 3600000 then show_int (ms div 60000) @ ''m ago''
     else if ms < 86400000 then show_int (ms div 3600000) @ ''h ago''
     else show_int (ms div 86400000) @ ''d ago'')"
proof -
  define t where "t = js_div (of_int ms) 1000"
  have k: "kb br e = kb_seconds t"
    using assms by (simp add: kb_def t_def)
  have f: "\<lfloor>t\<rfloor> = ms div 1000" unfolding t_def by (rule seconds_near) (use assms in simp_all)
  have c: "t < of_int n \<longleftrightarrow> ms < 1000 * n" for n
  proof -
    have "t < of_int n \<longleftrightarrow> ms div 1000 < n" unfolding f [symmetric] by (simp add: floor_less_iff)
    also have "\<dots> \<longleftrightarrow> ms < 1000 * n" by linarith
    finally show ?thesis .
  qed
  note u = unit_near [OF assms(3,4), folded t_def]
  show ?thesis
    using c [of 5] c [of 60] c [of 3600] c [of 86400] u [of 60] u [of 3600] u [of 86400]
    unfolding k kb_seconds_def js_floor_str_def f by simp
qed

definition test_browser :: browser where
  "test_browser = \<lparr>now_ms = 90061000, date_ms = (\<lambda>_. Some 0), num_locale = (\<lambda>_. []),
     date_locale = id, time_locale = id\<rparr>"

theorem kb_exact_witness: "kb test_browser ''1970-01-01T00:00:00Z'' = ''1d ago''"
proof -
  have "date_ms test_browser ''1970-01-01T00:00:00Z'' = Some 0" "(90061000 :: int) = now_ms test_browser - 0"
    by (simp_all add: test_browser_def)
  moreover have "digit_char 1 = CHR ''1''" by code_simp
  ultimately show ?thesis
    using kb_exact [of test_browser "''1970-01-01T00:00:00Z''" 0 90061000]
    by (simp add: show_int_def show_nat.simps)
qed

section \<open>Counts and rates\<close>

lemma toFixed_div:
  assumes "0 \<le> x" "0 < d"
  shows "\<exists>m. toFixed 1 (js_div x d) = show_nat (m div 10) @ ''.'' @ [digit_char (m mod 10)]
    \<and> \<bar>of_nat m / 10 * d - x\<bar> \<le> d / 20 + x / 2 ^ 53"
proof -
  let ?y = "js_div x d"
  have e: "\<bar>?y - x / d\<bar> \<le> x / d / 2 ^ 53" unfolding js_div_def using assms by (intro rnd_near) simp
  moreover have "x / d / 2 ^ 53 \<le> x / d" "0 \<le> x / d" using assms by (simp_all add: divide_le_eq)
  ultimately have y0: "0 \<le> ?y" by linarith
  have "\<bar>of_nat (fixed_int 1 ?y) / 10 - ?y\<bar> \<le> 1 / 20" using fixed_int_error [OF y0, of 1] by simp
  with e have "\<bar>of_nat (fixed_int 1 ?y) / 10 - x / d\<bar> \<le> 1 / 20 + x / d / 2 ^ 53" by linarith
  then have "\<bar>of_nat (fixed_int 1 ?y) / 10 - x / d\<bar> * d \<le> (1 / 20 + x / d / 2 ^ 53) * d"
    using assms by (intro mult_right_mono) auto
  moreover have "\<bar>of_nat (fixed_int 1 ?y) / 10 - x / d\<bar> * d = \<bar>of_nat (fixed_int 1 ?y) / 10 * d - x\<bar>"
  proof -
    have "of_nat (fixed_int 1 ?y) / 10 * d - x = (of_nat (fixed_int 1 ?y) / 10 - x / d) * d"
      using assms by (simp add: left_diff_distrib)
    then show ?thesis using assms by (simp add: abs_mult)
  qed
  moreover have "(1 / 20 + x / d / 2 ^ 53) * d = d / 20 + x / 2 ^ 53"
    using assms by (simp add: distrib_right)
  ultimately have "\<bar>of_nat (fixed_int 1 ?y) / 10 * d - x\<bar> \<le> d / 20 + x / 2 ^ 53" by simp
  moreover have "toFixed 1 ?y = show_nat (fixed_int 1 ?y div 10) @ ''.'' @ [digit_char (fixed_int 1 ?y mod 10)]"
    unfolding toFixed_def using y0 by (simp only: not_less [symmetric] if_False to_fixed_pos_1)
  ultimately show ?thesis by blast
qed

text \<open>C40: Abbreviated counts are accurate. A count of a thousand or more is printed with one decimal
  in thousands or, from a million on, in millions, and the printed number differs from the
  count by at most half a unit of the last digit, up to the relative error of one
  double-precision operation.\<close>

theorem rl_accuracy:
  assumes "1000 \<le> e"
  shows "\<exists>m unit letter. (unit, letter) = (if 1000000 \<le> e then (1000000, ''M'') else (1000, ''K''))
    \<and> rl br e = show_nat (m div 10) @ ''.'' @ [digit_char (m mod 10)] @ letter
    \<and> \<bar>of_nat m / 10 * unit - e\<bar> \<le> unit / 20 + e / 2 ^ 53"
proof (cases "1000000 \<le> e")
  case True
  then show ?thesis using toFixed_div [of e 1000000] by (auto simp: rl_def)
next
  case False
  then show ?thesis using assms toFixed_div [of e 1000] by (auto simp: rl_def)
qed

theorem rl_accuracy_witness:
  "\<exists>m. rl test_browser 2500000 = show_nat (m div 10) @ ''.'' @ [digit_char (m mod 10)] @ ''M''
     \<and> \<bar>of_nat m / 10 * 1000000 - (2500000 :: rat)\<bar> \<le> 50001"
proof -
  obtain m where "rl test_browser 2500000 = show_nat (m div 10) @ ''.'' @ [digit_char (m mod 10)] @ ''M''"
    "\<bar>of_nat m / 10 * 1000000 - (2500000 :: rat)\<bar> \<le> 1000000 / 20 + 2500000 / 2 ^ 53"
    using rl_accuracy [of 2500000 test_browser] by auto
  moreover have "1000000 / 20 + 2500000 / 2 ^ 53 \<le> (50001 :: rat)" by simp
  ultimately show ?thesis by (meson order_trans)
qed

end
