(* ===== verification/Admin_Data.thy ===== *)
theory Admin_Data
  imports Admin_Format Admin_Client
begin

text \<open>
  The values the dashboard receives from the admin API, with the fields the
  views read, and \<open>JSON.stringify\<close> as the viewer \<open>Ub\<close> calls it. A field the code
  guards with \<open>?.\<close>, \<open>??\<close> or \<open>&&\<close> is an option.
\<close>

section \<open>API values\<close>

record job_counts =
  n_available :: jnum
  n_active :: jnum
  n_scheduled :: jnum
  n_retryable :: jnum
  n_completed :: jnum
  n_discarded :: jnum

record throughput =
  processed_per_minute :: jnum
  failed_per_minute :: jnum

record stats_info =
  st_jobs :: job_counts
  st_throughput :: throughput
  st_queues :: jnum
  st_workers :: jnum

record history_point =
  h_timestamp :: string
  h_fields :: "(string \<times> json) list"

record queue_info =
  q_name :: string
  q_counts :: job_counts
  q_paused :: bool
  q_throughput :: "throughput option"

record job_row =
  j_id :: string
  j_type :: string
  j_queue :: string
  j_state :: string
  j_attempt :: jnum
  j_created_at :: string

record job_error =
  je_type :: string
  je_attempt :: jnum
  je_occurred_at :: string
  je_message :: string
  je_backtrace :: "string list option"

record job_times =
  created_at :: "string option"
  enqueued_at :: "string option"
  started_at :: "string option"
  completed_at :: "string option"
  cancelled_at :: "string option"
  discarded_at :: "string option"

record job_detail = job_row +
  j_max_attempts :: "jnum option"
  j_metadata :: "job_times option"
  j_args :: json
  j_meta :: "(string \<times> json) list"
  j_errors :: "job_error list"
  j_result :: "json option"
  j_retry_policy :: "json option"

record worker_info =
  w_id :: string
  w_hostname :: "string option"
  w_state :: string
  w_queues :: "string list"
  w_active_jobs :: jnum
  w_last_heartbeat_at :: string

record worker_summary =
  n_running :: jnum
  n_quiet :: jnum
  n_stale :: jnum

record worker_list =
  wl_items :: "worker_info list"
  wl_summary :: "worker_summary option"

record pagination =
  pg_page :: int
  pg_per_page :: int
  pg_total :: int

record job_list =
  jl_items :: "job_row list"
  jl_pagination :: pagination

record dead_stats =
  ds_total :: jnum
  ds_by_error_type :: "(string \<times> jnum) list option"

text \<open>\<open>i.metadata?.f\<close>.\<close>

definition job_time :: "job_detail \<Rightarrow> (job_times \<Rightarrow> string option) \<Rightarrow> string option" where
  "job_time i f = Option.bind (j_metadata i) f"

text \<open>Truthiness of an optional number; \<open>v != null\<close>.\<close>

definition num_truthy :: "jnum option \<Rightarrow> bool" where
  "num_truthy v \<longleftrightarrow> (case v of None \<Rightarrow> False | Some x \<Rightarrow> x \<noteq> 0)"

definition not_null :: "json option \<Rightarrow> bool" where
  "not_null v \<longleftrightarrow> (case v of None \<Rightarrow> False | Some JNull \<Rightarrow> False | Some _ \<Rightarrow> True)"

text \<open>\<open>s.substring(0, n)\<close> and \<open>s.replace(/_/g, " ")\<close>.\<close>

definition substring0 :: "nat \<Rightarrow> string \<Rightarrow> string" where
  "substring0 n s = take n s"

definition underscores_to_spaces :: "string \<Rightarrow> string" where
  "underscores_to_spaces s = map (\<lambda>c. if c = CHR ''_'' then CHR '' '' else c) s"

section \<open>JSON.stringify\<close>

definition hex_lower :: "nat \<Rightarrow> char" where
  "hex_lower d = (if d < 10 then char_of (48 + d) else char_of (87 + d))"

definition json_char :: "char \<Rightarrow> string" where
  "json_char c =
     (let n = (of_char c :: nat)
      in if n = 34 then map char_of [92, 34 :: nat]
         else if n = 92 then map char_of [92, 92 :: nat]
         else if n = 8 then map char_of [92, 98 :: nat]
         else if n = 9 then map char_of [92, 116 :: nat]
         else if n = 10 then map char_of [92, 110 :: nat]
         else if n = 12 then map char_of [92, 102 :: nat]
         else if n = 13 then map char_of [92, 114 :: nat]
         else if n < 32 then map char_of [92, 117, 48, 48 :: nat] @ [hex_lower (n div 16), hex_lower (n mod 16)]
         else [c])"

definition json_quote :: "string \<Rightarrow> string" where
  "json_quote s = char_of (34 :: nat) # concat (map json_char s) @ [char_of (34 :: nat)]"

text \<open>The serialisation with gap \<open>g\<close> (empty: the compact form) inside indentation \<open>ind\<close>.\<close>

definition json_block :: "string \<Rightarrow> string \<Rightarrow> string \<Rightarrow> string \<Rightarrow> string list \<Rightarrow> string" where
  "json_block g ind op cl parts =
     (if parts = [] then op @ cl
      else if g = [] then op @ join_with '','' parts @ cl
      else (let nl = char_of (10 :: nat) # ind @ g
            in op @ nl @ join_with ('','' @ nl) parts @ char_of (10 :: nat) # ind @ cl))"

fun stringify_in :: "string \<Rightarrow> string \<Rightarrow> json \<Rightarrow> string" where
  "stringify_in g ind JNull = ''null''"
| "stringify_in g ind (JBool b) = (if b then ''true'' else ''false'')"
| "stringify_in g ind (JNum x) = number_to_string x"
| "stringify_in g ind (JStr s) = json_quote s"
| "stringify_in g ind (JArr xs) =
     json_block g ind ''['' '']'' (map (stringify_in g (ind @ g)) xs)"
| "stringify_in g ind (JObj ps) =
     json_block g ind ''{'' ''}''
       (map (\<lambda>kv. json_quote (fst kv) @ (if g = [] then '':'' else '': '')
          @ stringify_in g (ind @ g) (snd kv)) ps)"

definition stringify2 :: "json \<Rightarrow> string" where
  "stringify2 v = stringify_in ''  '' [] v"

definition stringify :: "json \<Rightarrow> string" where
  "stringify v = stringify_in [] [] v"

end
