(* ===== verification/Admin_Layout.thy ===== *)
theory Admin_Layout
  imports Admin_Data
begin

text \<open>
  The frame of the dashboard: the navigation entries \<open>zP\<close>, the sidebar \<open>UP\<close>, the header
  \<open>qP\<close> with its dark-mode switch, and the layout \<open>BP\<close>. The router decides which
  entry is active (\<open>active\<close>) and what the outlet shows.
\<close>

record nav_item =
  nav_to :: string
  nav_label :: string
  nav_icon :: string
  nav_capability :: "string option"

definition zP :: "nav_item list" where
  "zP =
     [\<lparr>nav_to = ''/'', nav_label = ''Dashboard'', nav_icon = utf8 [226, 150, 163], nav_capability = None\<rparr>,
      \<lparr>nav_to = ''/queues'', nav_label = ''Queues'', nav_icon = utf8 [226, 152, 176], nav_capability = None\<rparr>,
      \<lparr>nav_to = ''/jobs'', nav_label = ''Jobs'', nav_icon = utf8 [226, 154, 161], nav_capability = None\<rparr>,
      \<lparr>nav_to = ''/workers'', nav_label = ''Workers'', nav_icon = utf8 [226, 154, 153], nav_capability = None\<rparr>,
      \<lparr>nav_to = ''/dead-letter'', nav_label = ''Dead Letter'', nav_icon = utf8 [226, 152, 160], nav_capability = Some ''dead_letter''\<rparr>,
      \<lparr>nav_to = ''/settings'', nav_label = ''Settings'', nav_icon = utf8 [226, 154, 145], nav_capability = None\<rparr>]"

text \<open>An entry that needs a capability is hidden once the manifest is loaded and does not
  have it.\<close>

definition nav_hidden :: "manifest_info option \<Rightarrow> nav_item \<Rightarrow> bool" where
  "nav_hidden e t \<longleftrightarrow>
     (case (nav_capability t, e) of
        (Some c, Some m) \<Rightarrow> c \<noteq> [] \<and> \<not> DP m c
      | _ \<Rightarrow> False)"

definition UP :: "manifest_info option \<Rightarrow> (string \<Rightarrow> bool) \<Rightarrow> 'a node" where
  "UP e active =
     jsx ''aside'' [cls ''w-56 bg-white dark:bg-gray-900 border-r border-gray-200 dark:border-gray-800 flex flex-col'']
       [jsx ''div'' [cls ''px-4 py-4 border-b border-gray-200 dark:border-gray-800'']
         [jsx ''h1'' [cls ''text-lg font-bold text-blue-600 dark:text-blue-400''] [NStr ''OJS Admin''],
          cond_el (e \<noteq> None) (jsx ''p'' [cls ''text-xs text-gray-500 mt-0.5'']
             [NStr (mf_name (the e)),
              NStr '' v'',
              NStr (mf_version (the e))])],
        jsx ''nav'' [cls ''flex-1 py-2'']
         [NFrag (map (\<lambda>t. (if nav_hidden e t then NNull
            else jsxk ''e8'' (nav_to t) [(''to'', AStr (nav_to t)), cls (''flex items-center gap-2 px-4 py-2 text-sm '' @ (if active (nav_to t) then ''bg-blue-50 dark:bg-blue-950 text-blue-700 dark:text-blue-300 font-medium border-r-2 border-blue-600'' else ''text-gray-600 dark:text-gray-400 hover:bg-gray-50 dark:hover:bg-gray-800'')), (''end'', ABool (nav_to t = ''/''))]
               [jsx ''span'' [cls ''text-base''] [NStr (nav_icon t)],
                NStr (nav_label t)])) zP)],
        cond_el (e \<noteq> None) (jsx ''div'' [cls ''px-4 py-3 border-t border-gray-200 dark:border-gray-800 text-xs text-gray-500'']
           [jsx ''div'' []
             [NStr ''Backend: '',
              NStr (mf_backend (the e))],
            jsx ''div'' []
             [NStr ''Level '',
              NNum (of_nat (mf_level (the e)))]])]"

datatype header_act = ToggleDark

definition qP :: "bool \<Rightarrow> header_act node" where
  "qP e =
     jsx ''header'' [cls ''h-12 bg-white dark:bg-gray-900 border-b border-gray-200 dark:border-gray-800 flex items-center justify-between px-4'']
       [jsx ''div'' [cls ''text-sm text-gray-500''] [NStr ''Open Job Spec Admin Dashboard''],
        jsx ''button'' [(''onClick'', AAct ToggleDark), cls ''text-sm px-2 py-1 rounded hover:bg-gray-100 dark:hover:bg-gray-800 text-gray-600 dark:text-gray-400'', (''aria-label'', AStr ''Toggle dark mode'')]
         [(if e then NStr (utf8 [226, 152, 128, 239, 184, 143])
          else NStr (utf8 [240, 159, 140, 153]))]]"

definition BP :: "(header_act \<Rightarrow> 'a) \<Rightarrow> manifest_info option \<Rightarrow> (string \<Rightarrow> bool) \<Rightarrow> bool \<Rightarrow> 'a node \<Rightarrow> 'a node" where
  "BP inject e active dark outlet =
     jsx ''div'' [cls ''flex h-screen overflow-hidden'']
       [UP e active,
        jsx ''div'' [cls ''flex-1 flex flex-col overflow-hidden'']
         [map_node inject (qP dark),
          jsx ''main'' [cls ''flex-1 overflow-auto p-6 bg-gray-50 dark:bg-gray-950''] [outlet]]]"

section \<open>Navigation\<close>

definition nav_targets :: "'a node \<Rightarrow> 'a attr option list" where
  "nav_targets n = map (attr_of ''to'') (filter (\<lambda>x. tag_of x = ''e8'') (elements n))"

lemma nav_targets_simps [simp]:
  "nav_targets NNull = []" "nav_targets (NStr s) = []" "nav_targets (NNum x) = []"
  "nav_targets (NFrag cs) = concat (map nav_targets cs)"
  "nav_targets (NElem t k ps cs) =
     (if t = ''e8'' then [map_of ps ''to''] else []) @ concat (map nav_targets cs)"
  by (simp_all add: nav_targets_def [abs_def] filter_concat map_concat comp_def)

lemma nav_targets_cond [simp]: "nav_targets (cond_el b n) = (if b then nav_targets n else [])"
  by (simp add: cond_el_def)

lemma nav_targets_if [simp]:
  "nav_targets (if b then x else y) = (if b then nav_targets x else nav_targets y)"
  by simp

lemma concat_map_filter: "concat (map (\<lambda>t. if P t then [] else [f t]) xs) = map f (filter (\<lambda>t. \<not> P t) xs)"
  by (induction xs) simp_all

text \<open>The sidebar shows the page of a capability only to backends that have it. The links are, in order, the
  entries of the navigation list; the dead-letter entry is left out exactly if the
  manifest has been loaded and does not declare \<open>dead_letter\<close> as true.\<close>

lemma sidebar_links:
  "nav_targets (UP e active) =
     map (\<lambda>to. Some (AStr to))
       ([''/'', ''/queues'', ''/jobs'', ''/workers'']
        @ (if (case e of None \<Rightarrow> False | Some m \<Rightarrow> \<not> DP m ''dead_letter'') then [] else [''/dead-letter''])
        @ [''/settings''])"
proof -
  have "nav_targets (UP e active) = map (\<lambda>t. Some (AStr (nav_to t))) (filter (\<lambda>t. \<not> nav_hidden e t) zP)"
    unfolding UP_def by (simp add: comp_def concat_map_filter cong: if_cong)
  then show ?thesis
    by (cases e; cases "DP (the e) ''dead_letter''") (simp_all add: zP_def nav_hidden_def)
qed

end
