(* ===== verification/Admin_Poll.thy ===== *)
theory Admin_Poll
  imports Prelude
begin

text \<open>
  The polling hook \<open>es(e, t)\<close> every page reads its data with. Its React state is
  \<open>data\<close>, \<open>loading\<close> and \<open>error\<close>; the ref \<open>g\<close> holds the interval. The callback \<open>b\<close>
  is asynchronous: \<open>es_call\<close> starts a fetch, \<open>es_settle\<close> is what happens when the
  promise of a fetch in flight resolves or rejects. A fetcher \<open>'f\<close> stands for the
  \<open>useCallback\<close> closure the page passes in; a new one (a new page number or new
  filters) makes the effect run again.
\<close>

section \<open>State and operations\<close>

record ('f, 'd, 'e) poll =
  p_data :: "'d option"
  p_loading :: bool
  p_error :: "'e option"
  p_current :: "nat option"
  p_live :: "(nat \<times> 'f) list"
  p_next :: nat
  p_inflight :: "'f list"
  p_fetch :: 'f
  p_mounted :: bool

text \<open>\<open>b\<close> up to its \<open>await\<close>.\<close>

definition es_call :: "'f \<Rightarrow> ('f, 'd, 'e) poll \<Rightarrow> ('f, 'd, 'e) poll" where
  "es_call f s = s\<lparr>p_inflight := p_inflight s @ [f]\<rparr>"

text \<open>\<open>b\<close> after its \<open>await\<close>. Setting the state of an unmounted component does nothing.\<close>

definition es_settle :: "nat \<Rightarrow> 'e + 'd \<Rightarrow> ('f, 'd, 'e) poll \<Rightarrow> ('f, 'd, 'e) poll" where
  "es_settle k r s =
     (let s1 = s\<lparr>p_inflight := take k (p_inflight s) @ drop (Suc k) (p_inflight s)\<rparr>
      in if \<not> p_mounted s then s1
         else (case r of
                 Inr O' \<Rightarrow> s1\<lparr>p_data := Some O', p_error := None, p_loading := False\<rparr>
               | Inl O' \<Rightarrow> s1\<lparr>p_error := Some O', p_loading := False\<rparr>))"

text \<open>The effect and its cleanup.\<close>

definition set_interval :: "'f \<Rightarrow> ('f, 'd, 'e) poll \<Rightarrow> ('f, 'd, 'e) poll" where
  "set_interval f s =
     s\<lparr>p_live := p_live s @ [(p_next s, f)], p_current := Some (p_next s), p_next := Suc (p_next s)\<rparr>"

definition clear_interval :: "('f, 'd, 'e) poll \<Rightarrow> ('f, 'd, 'e) poll" where
  "clear_interval s = s\<lparr>p_live := filter (\<lambda>(k, _). Some k \<noteq> p_current s) (p_live s)\<rparr>"

definition es_effect :: "'f \<Rightarrow> ('f, 'd, 'e) poll \<Rightarrow> ('f, 'd, 'e) poll" where
  "es_effect f s = set_interval f (es_call f s)"

definition es_mount :: "'f \<Rightarrow> ('f, 'd, 'e) poll" where
  "es_mount f = es_effect f
     \<lparr>p_data = None, p_loading = True, p_error = None, p_current = None, p_live = [], p_next = 0,
      p_inflight = [], p_fetch = f, p_mounted = True\<rparr>"

definition es_deps :: "'f \<Rightarrow> ('f, 'd, 'e) poll \<Rightarrow> ('f, 'd, 'e) poll" where
  "es_deps f s = es_effect f (clear_interval (s\<lparr>p_fetch := f\<rparr>))"

definition es_unmount :: "('f, 'd, 'e) poll \<Rightarrow> ('f, 'd, 'e) poll" where
  "es_unmount s = (clear_interval s)\<lparr>p_mounted := False\<rparr>"

section \<open>Runs\<close>

text \<open>What can happen to the hook, with the settled fetches as the page saw them, oldest first.\<close>

inductive es_run :: "('f, 'd, 'e) poll \<Rightarrow> ('f \<times> ('e + 'd)) list \<Rightarrow> bool" where
  run_mount: "es_run (es_mount f) []"
| run_tick: "es_run s lg \<Longrightarrow> (k, f) \<in> set (p_live s) \<Longrightarrow> es_run (es_call f s) lg"
| run_refresh: "es_run s lg \<Longrightarrow> p_mounted s \<Longrightarrow> es_run (es_call (p_fetch s) s) lg"
| run_deps: "es_run s lg \<Longrightarrow> p_mounted s \<Longrightarrow> es_run (es_deps f s) lg"
| run_settle: "es_run s lg \<Longrightarrow> p_mounted s \<Longrightarrow> k < length (p_inflight s)
    \<Longrightarrow> es_run (es_settle k r s) (lg @ [(p_inflight s ! k, r)])"
| run_late: "es_run s lg \<Longrightarrow> \<not> p_mounted s \<Longrightarrow> k < length (p_inflight s) \<Longrightarrow> es_run (es_settle k r s) lg"
| run_unmount: "es_run s lg \<Longrightarrow> p_mounted s \<Longrightarrow> es_run (es_unmount s) lg"

lemmas es_defs = es_call_def es_settle_def set_interval_def clear_interval_def es_effect_def
  es_mount_def es_deps_def es_unmount_def

text \<open>The values the settled fetches leave.\<close>

fun last_data :: "('f \<times> ('e + 'd)) list \<Rightarrow> 'd option" where
  "last_data [] = None"
| "last_data ((f, r) # lg) =
     (case last_data lg of Some d \<Rightarrow> Some d
      | None \<Rightarrow> (case r of Inr d \<Rightarrow> Some d | Inl _ \<Rightarrow> None))"

definition last_error :: "('f \<times> ('e + 'd)) list \<Rightarrow> 'e option" where
  "last_error lg =
     (if lg = [] then None else case snd (last lg) of Inl e \<Rightarrow> Some e | Inr _ \<Rightarrow> None)"

lemma last_data_snoc [simp]:
  "last_data (lg @ [(f, r)]) = (case r of Inr d \<Rightarrow> Some d | Inl _ \<Rightarrow> last_data lg)"
  by (induction lg) (auto split: sum.splits option.splits)

lemma last_error_snoc [simp]:
  "last_error (lg @ [(f, r)]) = (case r of Inl e \<Rightarrow> Some e | Inr _ \<Rightarrow> None)"
  by (simp add: last_error_def)

lemma es_run_values:
  "es_run s lg \<Longrightarrow> p_data s = last_data lg \<and> p_error s = last_error lg \<and> p_loading s = (lg = [])"
proof (induction rule: es_run.induct)
  case (run_mount f)
  then show ?case by (simp add: es_defs last_error_def)
next
  case (run_settle s lg k r)
  then show ?case by (cases r) (auto simp: es_defs Let_def)
qed (auto simp: es_defs Let_def split: sum.splits)

lemma es_run_timers:
  "es_run s lg \<Longrightarrow>
    (if p_mounted s then \<exists>k. p_live s = [(k, p_fetch s)] \<and> p_current s = Some k else p_live s = [])"
  by (induction rule: es_run.induct) (auto simp: es_defs Let_def split: sum.splits)

text \<open>C23: The hook shows the outcome of the fetch that settled last. After any interleaving of polls,
  manual refreshes, changes of the fetcher and answers, \<open>data\<close> is the value of the last fetch that
  succeeded, \<open>error\<close> is set exactly if the last fetch that settled failed, and
  \<open>loading\<close> is true exactly until the first fetch settles; a failed poll keeps the old data.\<close>

theorem es_shows_last_settled:
  assumes "es_run s lg"
  shows "p_data s = last_data lg \<and> p_error s = last_error lg \<and> (p_loading s \<longleftrightarrow> lg = [])"
  using es_run_values [OF assms] by simp

text \<open>C22: No interval leaks. In every run a mounted hook has exactly one live interval, which polls the
  current fetcher, and an unmounted hook has none, however often the fetcher changed.\<close>

theorem es_one_interval:
  assumes "es_run s lg"
  shows "if p_mounted s then \<exists>k. p_live s = [(k, p_fetch s)] else p_live s = []"
  using es_run_timers [OF assms] by (auto split: if_splits)

definition poll_example :: "(nat, nat, nat) poll" where
  "poll_example = es_settle 0 (Inr 10) (es_settle 1 (Inr 20) (es_deps 2 (es_mount 1)))"

lemma poll_example_run: "es_run poll_example [(2, Inr 20), (1, Inr 10)]"
proof -
  have "es_run (es_deps 2 (es_mount 1) :: (nat, nat, nat) poll) []"
    by (rule run_deps [OF run_mount]) (simp add: es_defs)
  from run_settle [OF this, of 1 "Inr 20"]
  have a: "es_run (es_settle 1 (Inr 20) (es_deps 2 (es_mount 1) :: (nat, nat, nat) poll)) [(2, Inr 20)]"
    by (simp add: es_defs)
  from run_settle [OF a, of 0 "Inr 10"] show ?thesis
    unfolding poll_example_def by (simp add: es_defs Let_def)
qed

theorem es_shows_last_settled_witness: "p_data poll_example = Some 10 \<and> p_error poll_example = None"
  using es_shows_last_settled [OF poll_example_run] by (simp add: last_error_def)

theorem es_one_interval_witness: "\<exists>k. p_live poll_example = [(k, 2)]"
proof -
  have "p_mounted poll_example" "p_fetch poll_example = 2" by (simp_all add: poll_example_def es_defs Let_def)
  then show ?thesis using es_one_interval [OF poll_example_run] by simp
qed

text \<open>Answers are not matched with the fetcher they were asked for. There is a run in which the page
  asks for page 1, then for page 2, receives page 2, and then shows the late answer for
  page 1 while page 2 is the current request.\<close>

lemma es_stale_answer:
  "\<exists>s :: (nat, nat, nat) poll. \<exists>lg. es_run s lg \<and> p_fetch s = 2 \<and> (2, Inr 20) \<in> set lg
     \<and> p_data s = Some 10 \<and> (1, Inr 10) \<in> set lg \<and> p_inflight s = []"
  by (rule exI [of _ poll_example], rule exI [of _ "[(2, Inr 20), (1, Inr 10)]"])
    (use poll_example_run es_run_values [OF poll_example_run] in
      \<open>simp add: poll_example_def es_defs Let_def\<close>)

section \<open>What a page may rely on\<close>

text \<open>The contract of a data source of a page: a step never loses data, and \<open>loading\<close> ends with
  the first outcome and never comes back.\<close>

locale data_source =
  fixes step :: "'s \<Rightarrow> 's \<Rightarrow> bool"
    and data_of :: "'s \<Rightarrow> 'd option"
    and error_of :: "'s \<Rightarrow> 'e option"
    and loading_of :: "'s \<Rightarrow> bool"
  assumes keeps_data: "step s s' \<Longrightarrow> data_of s \<noteq> None \<Longrightarrow> data_of s' \<noteq> None"
    and stays_loaded: "step s s' \<Longrightarrow> \<not> loading_of s \<Longrightarrow> \<not> loading_of s'"
    and loaded_outcome: "step s s' \<Longrightarrow> loading_of s \<Longrightarrow> \<not> loading_of s'
      \<Longrightarrow> data_of s' \<noteq> None \<or> error_of s' \<noteq> None"
begin

text \<open>A page that shows a loading screen only while \<open>loading && !data\<close> does not show it again.\<close>

lemma no_flicker:
  "step\<^sup>*\<^sup>* s s' \<Longrightarrow> \<not> (loading_of s \<and> data_of s = None) \<Longrightarrow> \<not> (loading_of s' \<and> data_of s' = None)"
  by (induction rule: rtranclp_induct) (use keeps_data stays_loaded in blast)+

lemma data_forever: "step\<^sup>*\<^sup>* s s' \<Longrightarrow> data_of s \<noteq> None \<Longrightarrow> data_of s' \<noteq> None"
  by (induction rule: rtranclp_induct) (use keeps_data in blast)+

end

text \<open>One step of the hook.\<close>

inductive es_step :: "('f, 'd, 'e) poll \<Rightarrow> ('f, 'd, 'e) poll \<Rightarrow> bool" where
  step_call: "es_step s (es_call f s)"
| step_deps: "es_step s (es_deps f s)"
| step_settle: "es_step s (es_settle k r s)"
| step_unmount: "es_step s (es_unmount s)"

inductive_cases es_stepE: "es_step s s'"

interpretation hook: data_source es_step p_data p_error p_loading
proof
  fix s s' :: "('f, 'd, 'e) poll"
  assume st: "es_step s s'"
  show "p_data s \<noteq> None \<Longrightarrow> p_data s' \<noteq> None"
    using st by (elim es_stepE) (auto simp: es_defs Let_def split: sum.splits)
  show "\<not> p_loading s \<Longrightarrow> \<not> p_loading s'"
    using st by (elim es_stepE) (auto simp: es_defs Let_def split: sum.splits)
  show "p_loading s \<Longrightarrow> \<not> p_loading s' \<Longrightarrow> p_data s' \<noteq> None \<or> p_error s' \<noteq> None"
    using st by (elim es_stepE) (auto simp: es_defs Let_def split: sum.splits if_splits)
qed

end
