(* ===== verification/Admin_Dashboard.thy ===== *)
theory Admin_Dashboard
  imports Admin_Data Admin_Poll
begin

text \<open>
  The dashboard page: the statistic tiles \<open>Mm\<close> and \<open>LP\<close>, the state badge \<open>M_\<close> (here
  \<open>M_badge\<close>) with its colours \<open>HP\<close>, the queue cards \<open>$P\<close> (here \<open>queue_cards\<close>), the chart
  \<open>Rre\<close>, and the page \<open>Cre\<close>, a function of what its three polling hooks return. The
  components of the chart library and the router's \<open>Link\<close> stay elements with their
  name in the bundle.
\<close>

definition Mm :: "string \<Rightarrow> string \<Rightarrow> string \<Rightarrow> string option \<Rightarrow> 'a node" where
  "Mm e t a i =
     jsx ''div'' [cls ''bg-white dark:bg-gray-900 rounded-lg border border-gray-200 dark:border-gray-800 p-4'']
       [jsx ''div'' [cls ''text-xs text-gray-500 uppercase tracking-wide''] [NStr e],
        jsx ''div'' [cls (''text-2xl font-bold mt-1 '' @ a)] [NStr t],
        cond_el (truthy_opt i) (jsx ''div'' [cls ''text-xs text-gray-400 mt-1''] [NStr (nullish i [])])]"

text \<open>Sums of the counts in the order of the source, with the rounding of each addition.\<close>

definition active_total :: "job_counts \<Rightarrow> jnum" where
  "active_total e = js_add (js_add (js_add (n_available e) (n_active e)) (n_scheduled e)) (n_retryable e)"

definition error_rate :: "throughput \<Rightarrow> string" where
  "error_rate t =
     (if 0 < processed_per_minute t
      then toFixed 1 (js_mult (js_div (failed_per_minute t) (processed_per_minute t)) 100)
      else ''0.0'')"

definition LP :: "browser \<Rightarrow> job_counts \<Rightarrow> throughput \<Rightarrow> jnum \<Rightarrow> jnum \<Rightarrow> 'a node" where
  "LP br e t a i =
     (let c = active_total e; s = error_rate t in
      jsx ''div'' [cls ''grid grid-cols-2 md:grid-cols-4 lg:grid-cols-6 gap-4'']
       [Mm ''Active Jobs'' (rl br c) ''text-blue-600'' (Some ((rl br (n_active e)) @ '' executing'')),
        Mm ''Completed'' (rl br (n_completed e)) ''text-green-600'' (None),
        Mm ''Failed'' (rl br (n_discarded e)) ''text-red-600'' (None),
        Mm ''Throughput'' (pM (processed_per_minute t)) ''text-gray-900 dark:text-gray-100'' (Some (s @ ''% error rate'')),
        Mm ''Queues'' (number_to_string a) ''text-purple-600'' (None),
        Mm ''Workers'' (number_to_string i) ''text-amber-600'' (None)])"

definition HP :: "(string \<times> string) list" where
  "HP =
     [(''available'', ''bg-blue-100 text-blue-800 dark:bg-blue-900 dark:text-blue-200''),
      (''scheduled'', ''bg-purple-100 text-purple-800 dark:bg-purple-900 dark:text-purple-200''),
      (''pending'', ''bg-gray-100 text-gray-800 dark:bg-gray-800 dark:text-gray-200''),
      (''active'', ''bg-amber-100 text-amber-800 dark:bg-amber-900 dark:text-amber-200''),
      (''completed'', ''bg-green-100 text-green-800 dark:bg-green-900 dark:text-green-200''),
      (''retryable'', ''bg-orange-100 text-orange-800 dark:bg-orange-900 dark:text-orange-200''),
      (''cancelled'', ''bg-gray-100 text-gray-600 dark:bg-gray-800 dark:text-gray-400''),
      (''discarded'', ''bg-red-100 text-red-800 dark:bg-red-900 dark:text-red-200'')]"

definition M_badge :: "string \<Rightarrow> 'a node" where
  "M_badge e =
     (let t = nullish (map_of HP e) ''bg-gray-100 text-gray-700'' in
      jsx ''span'' [cls (''inline-flex items-center px-2 py-0.5 rounded-full text-xs font-medium '' @ t)]
       [cond_el (e = ''active'') (jsx ''span'' [cls ''w-1.5 h-1.5 rounded-full bg-amber-500 animate-pulse-dot mr-1''] []),
        NStr e])"

definition queue_card :: "browser \<Rightarrow> queue_info \<Rightarrow> 'a node" where
  "queue_card br t =
     jsxk ''dM'' (q_name t) [(''to'', AStr (''/queues?name='' @ (q_name t))), cls ''bg-white dark:bg-gray-900 rounded-lg border border-gray-200 dark:border-gray-800 p-4 hover:border-blue-300 dark:hover:border-blue-700 transition-colors'']
       [jsx ''div'' [cls ''flex items-center justify-between mb-2'']
         [jsx ''span'' [cls ''font-medium text-sm''] [NStr (q_name t)],
          cond_el (q_paused t) (M_badge ''cancelled'')],
        jsx ''div'' [cls ''text-2xl font-bold text-gray-900 dark:text-gray-100''] [NStr (rl br (active_total (q_counts t)))],
        jsx ''div'' [cls ''flex gap-3 mt-2 text-xs text-gray-500'']
         [jsx ''span'' [cls ''text-blue-600'']
           [NNum (n_available (q_counts t)),
            NStr '' ready''],
          jsx ''span'' [cls ''text-amber-600'']
           [NNum (n_active (q_counts t)),
            NStr '' active''],
          cond_el (0 < n_retryable (q_counts t)) (jsx ''span'' [cls ''text-orange-600'']
             [NNum (n_retryable (q_counts t)),
              NStr '' retrying''])],
        cond_el (q_throughput t \<noteq> None) (jsx ''div'' [cls ''text-xs text-gray-400 mt-1'']
           [NStr (pM (processed_per_minute (the (q_throughput t)))),
            NStr '' processed''])]"

definition queue_cards :: "browser \<Rightarrow> queue_info list \<Rightarrow> 'a node" where
  "queue_cards br e =
     (if e = [] then jsx ''p'' [cls ''text-sm text-gray-500''] [NStr ''No queues found.'']
      else jsx ''div'' [cls ''grid grid-cols-1 md:grid-cols-2 lg:grid-cols-3 gap-4''] [NFrag (map (queue_card br) (take 6 e))])"

definition Rre :: "browser \<Rightarrow> history_point list \<Rightarrow> 'a node" where
  "Rre br e =
     (if e = [] then jsx ''p'' [cls ''text-sm text-gray-500''] [NStr ''No history data available.'']
      else let t = map (\<lambda>a. JObj (obj_set ''time'' (JStr (time_locale br (h_timestamp a))) (h_fields a))) e in
      jsx ''div'' [cls ''h-48'']
       [jsx ''EV'' [(''width'', AStr ''100%''), (''height'', AStr ''100%'')]
         [jsx ''wre'' [(''data'', AJson (JArr t)), (''margin'', AJson (JObj [(''top'', JNum 4), (''right'', JNum 4), (''bottom'', JNum 0), (''left'', JNum 0)]))]
           [jsx ''defs'' []
             [jsx ''linearGradient'' [(''id'', AStr ''colorProcessed''), (''x1'', AStr ''0''), (''y1'', AStr ''0''), (''x2'', AStr ''0''), (''y2'', AStr ''1'')]
               [jsx ''stop'' [(''offset'', AStr ''5%''), (''stopColor'', AStr ''#22C55E''), (''stopOpacity'', ANum (rnd (3 / 10)))] [],
                jsx ''stop'' [(''offset'', AStr ''95%''), (''stopColor'', AStr ''#22C55E''), (''stopOpacity'', ANum 0)] []],
              jsx ''linearGradient'' [(''id'', AStr ''colorFailed''), (''x1'', AStr ''0''), (''y1'', AStr ''0''), (''x2'', AStr ''0''), (''y2'', AStr ''1'')]
               [jsx ''stop'' [(''offset'', AStr ''5%''), (''stopColor'', AStr ''#EF4444''), (''stopOpacity'', ANum (rnd (3 / 10)))] [],
                jsx ''stop'' [(''offset'', AStr ''95%''), (''stopColor'', AStr ''#EF4444''), (''stopOpacity'', ANum 0)] []]],
            jsx ''uE'' [(''dataKey'', AStr ''time''), (''tick'', AJson (JObj [(''fontSize'', JNum 10)]))] [],
            jsx ''oE'' [(''tick'', AJson (JObj [(''fontSize'', JNum 10)])), (''width'', ANum 40)] [],
            jsx ''Do'' [(''contentStyle'', AJson (JObj [(''fontSize'', JNum 12)]))] [],
            jsx ''os'' [(''type'', AStr ''monotone''), (''dataKey'', AStr ''processed''), (''stroke'', AStr ''#22C55E''), (''fill'', AStr ''url(#colorProcessed)''), (''strokeWidth'', ANum 2), (''name'', AStr ''Processed'')] [],
            jsx ''os'' [(''type'', AStr ''monotone''), (''dataKey'', AStr ''failed''), (''stroke'', AStr ''#EF4444''), (''fill'', AStr ''url(#colorFailed)''), (''strokeWidth'', ANum 2), (''name'', AStr ''Failed'')] []]]])"

definition Mre :: "'a node" where
  "Mre =
     jsx ''div'' [cls ''flex items-center justify-center h-64 text-gray-500'']
       [NStr (''Loading dashboard'' @ utf8 [226, 128, 166])]"

definition jre :: "string \<Rightarrow> 'a node" where
  "jre e =
     jsx ''div'' [cls ''bg-red-50 dark:bg-red-950 border border-red-200 dark:border-red-800 rounded-lg p-6 text-center'']
       [jsx ''h2'' [cls ''text-lg font-semibold text-red-700 dark:text-red-400''] [NStr ''Failed to connect''],
        jsx ''p'' [cls ''text-sm text-red-600 dark:text-red-300 mt-2''] [NStr e],
        jsx ''p'' [cls ''text-xs text-gray-500 mt-4'']
         [NStr ''Make sure an OJS backend is running and accessible.'']]"

definition Cre :: "browser \<Rightarrow> stats_info option \<Rightarrow> bool \<Rightarrow> string option \<Rightarrow> queue_info list option
    \<Rightarrow> history_point list option \<Rightarrow> 'a node" where
  "Cre br c s h y g =
     (if s \<and> c = None then Mre
      else (if h \<noteq> None then jre (the h)
        else (if c \<noteq> None then jsx ''div'' [cls ''space-y-6'']
             [jsx ''h1'' [cls ''text-xl font-bold''] [NStr ''Dashboard''],
              LP br (st_jobs (the c)) (st_throughput (the c)) (st_queues (the c)) (st_workers (the c)),
              jsx ''div'' [cls ''grid grid-cols-1 lg:grid-cols-2 gap-6'']
               [jsx ''section'' [cls ''bg-white dark:bg-gray-900 rounded-lg border border-gray-200 dark:border-gray-800 p-4'']
                 [jsx ''h2'' [cls ''text-sm font-semibold text-gray-600 dark:text-gray-400 mb-3''] [NStr ''Throughput (5m)''],
                  Rre br (nullish g [])],
                jsx ''section'' []
                 [jsx ''h2'' [cls ''text-sm font-semibold text-gray-600 dark:text-gray-400 mb-3''] [NStr ''Queues''],
                  queue_cards br (nullish y [])]]]
          else NNull)))"

text \<open>The requests of the page's three hooks.\<close>

definition Cre_calls :: "api_call list" where
  "Cre_calls = [Stats, Queues 1 50, StatsHistory ''5m'' None None]"

text \<open>\<open>.catch(() => [])\<close>: the history hook never sees an error.\<close>

definition history_outcome :: "'e + history_point list \<Rightarrow> 'e + history_point list" where
  "history_outcome r = (case r of Inr d \<Rightarrow> Inr d | Inl _ \<Rightarrow> Inr [])"

section \<open>What the dashboard shows\<close>

text \<open>The dashboard shows what its statistics poll settled last. Before the first answer it shows the
  loading message. Afterwards it shows the error of the last poll if that failed, even though older
  statistics are still held, and otherwise the statistics of the last successful poll;
  it is never blank.\<close>

lemma dashboard_follows_poll:
  assumes "es_run s lg"
  shows "Cre br (p_data s) (p_loading s) (p_error s) y g =
    (if lg = [] then Mre
     else case last_error lg of
            Some m \<Rightarrow> jre m
          | None \<Rightarrow> Cre br (Some (the (last_data lg))) False None y g)
   \<and> (lg \<noteq> [] \<and> last_error lg = None \<longrightarrow> (\<exists>st. last_data lg = Some st))"
proof (cases lg rule: rev_cases)
  case Nil
  then show ?thesis using es_run_values [OF assms] by (simp add: Cre_def last_error_def)
next
  case (snoc lg' x)
  then obtain f r where x: "lg = lg' @ [(f, r)]" by (cases x) auto
  show ?thesis
    using es_run_values [OF assms] unfolding x by (cases r) (auto simp: Cre_def)
qed

end
