(* ===== verification/Admin_Busy.thy ===== *)
theory Admin_Busy
  imports Admin_Data
begin

text \<open>
  The pattern the tables of queues and of dead letters share for a row action:
  \<open>setBusy(key); try { await call; refresh() } finally { setBusy(null) }\<close>. The
  handler is cut at its \<open>await\<close>: \<open>busy_start\<close> is the part before it, \<open>busy_done\<close> the
  part after it, for a call in flight that was answered (or failed).
\<close>

record busy =
  b_slot :: "string option"
  b_inflight :: "(string \<times> api_call) list"
  b_refreshes :: nat

definition busy_init :: busy where
  "busy_init = \<lparr>b_slot = None, b_inflight = [], b_refreshes = 0\<rparr>"

definition busy_start :: "string \<Rightarrow> api_call \<Rightarrow> busy \<Rightarrow> busy" where
  "busy_start k c s = s\<lparr>b_slot := Some k, b_inflight := b_inflight s @ [(k, c)]\<rparr>"

definition busy_done :: "nat \<Rightarrow> bool \<Rightarrow> busy \<Rightarrow> busy" where
  "busy_done n ok s =
     s\<lparr>b_inflight := take n (b_inflight s) @ drop (Suc n) (b_inflight s),
       b_refreshes := (if ok then Suc (b_refreshes s) else b_refreshes s),
       b_slot := None\<rparr>"

text \<open>A row can be acted on while its buttons are enabled; any call in flight may be answered.\<close>

inductive busy_run :: "busy \<Rightarrow> bool" where
  run_init: "busy_run busy_init"
| run_start: "busy_run s \<Longrightarrow> b_slot s \<noteq> Some k \<Longrightarrow> busy_run (busy_start k c s)"
| run_done: "busy_run s \<Longrightarrow> n < length (b_inflight s) \<Longrightarrow> busy_run (busy_done n ok s)"

lemma busy_run_slot:
  "busy_run s \<Longrightarrow> b_slot s = Some k \<Longrightarrow> b_inflight s \<noteq> [] \<and> fst (last (b_inflight s)) = k"
proof (induction arbitrary: k rule: busy_run.induct)
  case run_init
  then show ?case by (simp add: busy_init_def)
qed (simp_all add: busy_start_def busy_done_def)

text \<open>Runs in which a row is acted on only while no call is in flight.\<close>

inductive busy_run1 :: "busy \<Rightarrow> bool" where
  run1_init: "busy_run1 busy_init"
| run1_start: "busy_run1 s \<Longrightarrow> b_inflight s = [] \<Longrightarrow> busy_run1 (busy_start k c s)"
| run1_done: "busy_run1 s \<Longrightarrow> n < length (b_inflight s) \<Longrightarrow> busy_run1 (busy_done n ok s)"

lemma busy_run1_slot:
  "busy_run1 s \<Longrightarrow> b_slot s = (case b_inflight s of [] \<Rightarrow> None | (k, c) # _ \<Rightarrow> Some k) \<and> length (b_inflight s) \<le> 1"
proof (induction rule: busy_run1.induct)
  case run1_init
  then show ?case by (simp add: busy_init_def)
next
  case (run1_start s k c)
  then show ?case by (simp add: busy_start_def)
next
  case (run1_done s n ok)
  then have "length (b_inflight s) = 1" "n = 0" by linarith+
  then show ?case by (simp add: busy_done_def)
qed

end
