(* ===== verification/Admin_Queues.thy ===== *)
theory Admin_Queues
  imports Admin_Dashboard Admin_Busy
begin

text \<open>
  The queues page: the table \<open>Dre\<close> with its pause/resume buttons and the page \<open>Nre\<close>.
\<close>

datatype queues_act = QRefresh | QToggle queue_info

definition Dre :: "browser \<Rightarrow> string option \<Rightarrow> queue_info list \<Rightarrow> queues_act node" where
  "Dre br i e =
     jsx ''div'' [cls ''bg-white dark:bg-gray-900 rounded-lg border border-gray-200 dark:border-gray-800 overflow-hidden'']
       [jsx ''table'' [cls ''w-full text-sm'']
         [jsx ''thead'' [cls ''bg-gray-50 dark:bg-gray-800 text-gray-600 dark:text-gray-400 text-xs uppercase'']
           [jsx ''tr'' []
             [jsx ''th'' [cls ''text-left px-4 py-3''] [NStr ''Queue''],
              jsx ''th'' [cls ''text-right px-3 py-3''] [NStr ''Available''],
              jsx ''th'' [cls ''text-right px-3 py-3''] [NStr ''Active''],
              jsx ''th'' [cls ''text-right px-3 py-3''] [NStr ''Scheduled''],
              jsx ''th'' [cls ''text-right px-3 py-3''] [NStr ''Retrying''],
              jsx ''th'' [cls ''text-right px-3 py-3''] [NStr ''Completed''],
              jsx ''th'' [cls ''text-right px-3 py-3''] [NStr ''Failed''],
              jsx ''th'' [cls ''text-right px-3 py-3''] [NStr ''Throughput''],
              jsx ''th'' [cls ''text-center px-3 py-3''] [NStr ''Status''],
              jsx ''th'' [cls ''text-center px-3 py-3''] [NStr ''Actions'']]],
          jsx ''tbody'' [cls ''divide-y divide-gray-100 dark:divide-gray-800'']
           [NFrag (map (\<lambda>h. jsxk ''tr'' (q_name h) [cls ''hover:bg-gray-50 dark:hover:bg-gray-800/50'']
               [jsx ''td'' [cls ''px-4 py-3 font-medium''] [NStr (q_name h)],
                jsx ''td'' [cls ''px-3 py-3 text-right text-blue-600''] [NStr (rl br (n_available (q_counts h)))],
                jsx ''td'' [cls ''px-3 py-3 text-right text-amber-600''] [NStr (rl br (n_active (q_counts h)))],
                jsx ''td'' [cls ''px-3 py-3 text-right text-purple-600''] [NStr (rl br (n_scheduled (q_counts h)))],
                jsx ''td'' [cls ''px-3 py-3 text-right text-orange-600''] [NStr (rl br (n_retryable (q_counts h)))],
                jsx ''td'' [cls ''px-3 py-3 text-right text-green-600''] [NStr (rl br (n_completed (q_counts h)))],
                jsx ''td'' [cls ''px-3 py-3 text-right text-red-600''] [NStr (rl br (n_discarded (q_counts h)))],
                jsx ''td'' [cls ''px-3 py-3 text-right text-gray-500'']
                 [(if q_throughput h \<noteq> None then NStr (pM (processed_per_minute (the (q_throughput h))))
                  else NStr (utf8 [226, 128, 148]))],
                jsx ''td'' [cls ''px-3 py-3 text-center'']
                 [(if q_paused h then jsx ''span'' [cls ''text-xs px-2 py-0.5 bg-yellow-100 text-yellow-800 rounded-full''] [NStr ''Paused'']
                  else jsx ''span'' [cls ''text-xs px-2 py-0.5 bg-green-100 text-green-800 rounded-full''] [NStr ''Active''])],
                jsx ''td'' [cls ''px-3 py-3 text-center'']
                 [jsx ''button'' [(''onClick'', AAct (QToggle h)), (''disabled'', ABool (i = Some (q_name h))), cls ''text-xs px-2 py-1 rounded border border-gray-300 dark:border-gray-600 hover:bg-gray-100 dark:hover:bg-gray-800 disabled:opacity-40'']
                   [(if i = Some (q_name h) then NStr (utf8 [226, 128, 166])
                    else (if q_paused h then NStr ''Resume''
                      else NStr ''Pause''))]]]) e)]],
        cond_el (e = []) (jsx ''p'' [cls ''text-center py-8 text-gray-500 text-sm''] [NStr ''No queues found.''])]"

definition Nre :: "browser \<Rightarrow> string option \<Rightarrow> queue_info list option \<Rightarrow> queues_act node" where
  "Nre br busy a =
     jsx ''div'' [cls ''space-y-4'']
       [jsx ''div'' [cls ''flex items-center justify-between'']
         [jsx ''h1'' [cls ''text-xl font-bold''] [NStr ''Queues''],
          jsx ''button'' [(''onClick'', AAct QRefresh), cls ''text-sm px-3 py-1.5 border border-gray-300 dark:border-gray-600 rounded hover:bg-gray-100 dark:hover:bg-gray-800''] [NStr ''Refresh'']],
        Dre br busy (nullish a [])]"

text \<open>The click handler \<open>s(h)\<close> up to its \<open>await\<close>.\<close>

definition toggle_call :: "queue_info \<Rightarrow> api_call" where
  "toggle_call h = (if q_paused h then ResumeQueue (q_name h) else PauseQueue (q_name h))"

definition queue_toggle :: "queue_info \<Rightarrow> busy \<Rightarrow> busy" where
  "queue_toggle h s = busy_start (q_name h) (toggle_call h) s"

section \<open>The buttons\<close>

lemma concat_map_single [simp]: "concat (map (\<lambda>x. [f x]) xs) = map f xs"
  by (induction xs) simp_all

lemma Dre_buttons:
  "button_list (Dre br i e) =
     map (\<lambda>h. (if i = Some (q_name h) then ellipsis else if q_paused h then ''Resume'' else ''Pause'',
               i \<noteq> Some (q_name h), Some (QToggle h))) e"
  unfolding Dre_def by (simp add: ellipsis_def comp_def if_distrib [of concat] cong: if_cong)

text \<open>The queue table offers one button per queue, which does the opposite of the queue's state. As long as
  the operator waits for each answer, the button of a queue is enabled exactly if no
  call for that queue is in flight; it is labelled Resume for a paused queue and Pause
  for a running one, and a click starts the matching request.\<close>

lemma queue_buttons:
  assumes "busy_run1 s"
  shows "button_list (Dre br (b_slot s) e) =
     map (\<lambda>h. let waiting = (\<exists>c \<in> set (b_inflight s). fst c = q_name h)
              in (if waiting then ellipsis else if q_paused h then ''Resume'' else ''Pause'',
                  \<not> waiting, Some (QToggle h))) e
    \<and> b_inflight (queue_toggle h s) = b_inflight s
        @ [(q_name h, if q_paused h then ResumeQueue (q_name h) else PauseQueue (q_name h))]"
proof -
  have w: "(b_slot s = Some (q_name h)) = (\<exists>c \<in> set (b_inflight s). fst c = q_name h)" for h
    using busy_run1_slot [OF assms] by (cases "b_inflight s") auto
  show ?thesis unfolding Dre_buttons w Let_def
    by (simp add: queue_toggle_def busy_start_def toggle_call_def)
qed

definition queue_example :: queue_info where
  "queue_example = \<lparr>q_name = ''mail'', q_counts = \<lparr>n_available = 0, n_active = 0, n_scheduled = 0, n_retryable = 0,
     n_completed = 0, n_discarded = 0\<rparr>, q_paused = True, q_throughput = None\<rparr>"

text \<open>The busy marker of the table has room for one row only. If a second queue is toggled before the first
  answer arrives, that answer re-enables the second queue's button while its request is
  still in flight, so the same request can be sent again.\<close>

lemma queue_busy_slot_shared:
  "\<exists>s. busy_run s \<and> b_inflight s = [(''b'', PauseQueue ''b'')] \<and> b_slot s = None
     \<and> busy_run (busy_start ''b'' (PauseQueue ''b'') s)"
proof -
  let ?s2 = "busy_start ''b'' (PauseQueue ''b'') (busy_start ''a'' (PauseQueue ''a'') busy_init)"
  have r2: "busy_run ?s2"
    by (intro run_start run_init) (simp_all add: busy_start_def busy_init_def)
  have r3: "busy_run (busy_done 0 True ?s2)"
    by (rule run_done [OF r2]) (simp add: busy_start_def busy_init_def)
  have i: "b_inflight (busy_done 0 True ?s2) = [(''b'', PauseQueue ''b'')]" "b_slot (busy_done 0 True ?s2) = None"
    by (simp_all add: busy_done_def busy_start_def busy_init_def)
  show ?thesis
    by (rule exI [of _ "busy_done 0 True ?s2"]) (use r3 i run_start [OF r3, of "''b''"] in simp)
qed

end
