(* ===== verification/Admin_Jobs.thy ===== *)
theory Admin_Jobs
  imports Admin_Dashboard
begin

text \<open>
  The jobs page: the table \<open>zre\<close>, the filter bar \<open>qre\<close>, the JSON viewer \<open>Ub\<close>, the detail
  panel \<open>yH\<close> (its body is \<open>job_panel\<close>), the pagination \<open>mH\<close> and the page \<open>Bre\<close> with its
  handlers. A viewer of the panel is named after the field it shows.
\<close>

definition zre :: "browser \<Rightarrow> job_row list \<Rightarrow> (string \<Rightarrow> 'a) \<Rightarrow> 'a node" where
  "zre br e t =
     jsx ''div'' [cls ''bg-white dark:bg-gray-900 rounded-lg border border-gray-200 dark:border-gray-800 overflow-hidden'']
       [jsx ''table'' [cls ''w-full text-sm'']
         [jsx ''thead'' [cls ''bg-gray-50 dark:bg-gray-800 text-gray-600 dark:text-gray-400 text-xs uppercase'']
           [jsx ''tr'' []
             [jsx ''th'' [cls ''text-left px-4 py-3''] [NStr ''ID''],
              jsx ''th'' [cls ''text-left px-3 py-3''] [NStr ''Type''],
              jsx ''th'' [cls ''text-left px-3 py-3''] [NStr ''Queue''],
              jsx ''th'' [cls ''text-center px-3 py-3''] [NStr ''State''],
              jsx ''th'' [cls ''text-center px-3 py-3''] [NStr ''Attempt''],
              jsx ''th'' [cls ''text-right px-4 py-3''] [NStr ''Created'']]],
          jsx ''tbody'' [cls ''divide-y divide-gray-100 dark:divide-gray-800'']
           [NFrag (map (\<lambda>a. jsxk ''tr'' (j_id a) [(''onClick'', AAct (t (j_id a))), cls ''hover:bg-gray-50 dark:hover:bg-gray-800/50 cursor-pointer'']
               [jsx ''td'' [cls ''px-4 py-3 font-mono text-xs text-gray-500'']
                 [NStr (substring0 12 (j_id a)),
                  NStr (utf8 [226, 128, 166])],
                jsx ''td'' [cls ''px-3 py-3 font-medium''] [NStr (j_type a)],
                jsx ''td'' [cls ''px-3 py-3 text-gray-500''] [NStr (j_queue a)],
                jsx ''td'' [cls ''px-3 py-3 text-center''] [M_badge (j_state a)],
                jsx ''td'' [cls ''px-3 py-3 text-center text-gray-500''] [NNum (j_attempt a)],
                jsx ''td'' [cls ''px-4 py-3 text-right text-gray-500 text-xs''] [NStr (kb br (j_created_at a))]]) e)]],
        cond_el (e = []) (jsx ''p'' [cls ''text-center py-8 text-gray-500 text-sm''] [NStr ''No jobs found matching filters.''])]"

definition Ure :: "string list" where
  "Ure = [''available'', ''scheduled'', ''pending'', ''active'', ''completed'', ''retryable'', ''cancelled'', ''discarded'']"

text \<open>A filter object and its string properties; \<open>{...e, k: v || void 0}\<close>.\<close>

type_synonym filters = "(string \<times> filter_val) list"

definition filter_get :: "filters \<Rightarrow> string \<Rightarrow> string option" where
  "filter_get e k = (case map_of e k of None \<Rightarrow> None | Some v \<Rightarrow> filter_string v)"

definition filter_put :: "string \<Rightarrow> string \<Rightarrow> filters \<Rightarrow> filters" where
  "filter_put k v e = obj_set k (if v = [] then FUndef else FStr v) e"

datatype filter_act = FChange filters | FType string | FClear

definition qre :: "filters \<Rightarrow> string list \<Rightarrow> string \<Rightarrow> filter_act node" where
  "qre e t i =
     jsx ''div'' [cls ''flex flex-wrap gap-3 items-center'']
       [jsx ''select'' [(''value'', AStr (nullish (filter_get e ''queue'') [])), (''onChange'', AInput (\<lambda>v. FChange (filter_put ''queue'' v e))), cls ''text-sm border border-gray-300 dark:border-gray-600 rounded px-3 py-1.5 bg-white dark:bg-gray-800'']
         [jsx ''option'' [(''value'', AStr [])] [NStr ''All queues''],
          NFrag (map (\<lambda>s. jsxk ''option'' s [(''value'', AStr s)] [NStr s]) t)],
        jsx ''select'' [(''value'', AStr (nullish (filter_get e ''state'') [])), (''onChange'', AInput (\<lambda>v. FChange (filter_put ''state'' v e))), cls ''text-sm border border-gray-300 dark:border-gray-600 rounded px-3 py-1.5 bg-white dark:bg-gray-800'']
         [jsx ''option'' [(''value'', AStr [])] [NStr ''All states''],
          NFrag (map (\<lambda>s. jsxk ''option'' s [(''value'', AStr s)] [NStr s]) Ure)],
        jsx ''form'' [(''onSubmit'', ASub (FChange (filter_put ''type'' i e))), cls ''flex gap-1'']
         [jsx ''input'' [(''type'', AStr ''text''), (''value'', AStr i), (''onChange'', AInput FType), (''placeholder'', AStr (''Job type'' @ utf8 [226, 128, 166])), cls ''text-sm border border-gray-300 dark:border-gray-600 rounded px-3 py-1.5 bg-white dark:bg-gray-800 w-48''] [],
          jsx ''button'' [(''type'', AStr ''submit''), cls ''text-sm px-3 py-1.5 bg-blue-600 text-white rounded hover:bg-blue-700''] [NStr ''Filter'']],
        cond_el (truthy_opt (filter_get e ''queue'') \<or> truthy_opt (filter_get e ''state'') \<or> truthy_opt (filter_get e ''type'')) (jsx ''button'' [(''onClick'', AAct FClear), cls ''text-xs text-gray-500 hover:text-gray-700 underline''] [NStr ''Clear filters''])]"

datatype viewer_act = VCopy string | VToggle

definition Ub :: "bool \<Rightarrow> json \<Rightarrow> viewer_act node" where
  "Ub t e =
     jsx ''div'' [cls ''relative'']
       [jsx ''button'' [cls ''absolute top-2 right-2 text-xs text-gray-500 hover:text-gray-700 dark:hover:text-gray-300'', (''onClick'', AAct (VCopy (stringify2 e)))] [NStr ''Copy''],
        jsx ''button'' [cls ''absolute top-2 right-14 text-xs text-gray-500 hover:text-gray-700 dark:hover:text-gray-300'', (''onClick'', AAct VToggle)]
         [(if t then NStr ''Collapse''
          else NStr ''Expand'')],
        jsx ''pre'' [cls ''bg-gray-50 dark:bg-gray-900 border border-gray-200 dark:border-gray-700 rounded p-3 text-xs overflow-auto max-h-96 font-mono'']
         [(if t then NStr (stringify2 e)
          else NStr (stringify e))]]"

definition Nm :: "browser \<Rightarrow> string \<Rightarrow> string \<Rightarrow> 'a node" where
  "Nm br e t =
     jsx ''div'' [cls ''flex justify-between text-gray-600 dark:text-gray-400'']
       [jsx ''span'' [] [NStr e],
        jsx ''span'' [cls ''font-mono''] [NStr (date_locale br t)]]"

datatype detail_act = DClose | DRetry | DCancel | DViewer string viewer_act

definition job_panel :: "browser \<Rightarrow> (string \<Rightarrow> bool) \<Rightarrow> job_detail \<Rightarrow> detail_act node" where
  "job_panel br opened i =
     jsx ''div'' [cls ''fixed inset-0 z-40 flex'']
       [jsx ''div'' [cls ''flex-1 bg-black/30'', (''onClick'', AAct DClose)] [],
        jsx ''div'' [cls ''w-full max-w-xl bg-white dark:bg-gray-900 border-l border-gray-200 dark:border-gray-800 overflow-auto'']
         [jsx ''div'' [cls ''sticky top-0 bg-white dark:bg-gray-900 border-b border-gray-200 dark:border-gray-800 px-4 py-3 flex items-center justify-between'']
           [jsx ''div'' []
             [jsx ''h2'' [cls ''font-semibold''] [NStr (j_type i)],
              jsx ''p'' [cls ''text-xs text-gray-500 font-mono''] [NStr (j_id i)]],
            jsx ''button'' [(''onClick'', AAct DClose), cls ''text-gray-400 hover:text-gray-600 text-xl''] [NStr (utf8 [195, 151])]],
          jsx ''div'' [cls ''p-4 space-y-4'']
           [jsx ''div'' [cls ''flex items-center gap-3'']
             [M_badge (j_state i),
              jsx ''span'' [cls ''text-sm text-gray-500'']
               [NStr ''Attempt '',
                NNum (j_attempt i),
                NStr (if num_truthy (j_max_attempts i) then '' / '' @ number_to_string (the (j_max_attempts i)) else [])],
              jsx ''span'' [cls ''text-xs text-gray-400''] [NStr (kb br (j_created_at i))],
              jsx ''div'' [cls ''flex-1''] [],
              cond_el (j_state i \<in> set [''discarded'', ''cancelled'']) (jsx ''button'' [(''onClick'', AAct DRetry), cls ''text-xs px-3 py-1 bg-blue-600 text-white rounded hover:bg-blue-700''] [NStr ''Retry'']),
              cond_el (j_state i \<in> set [''available'', ''scheduled'', ''pending'', ''retryable'']) (jsx ''button'' [(''onClick'', AAct DCancel), cls ''text-xs px-3 py-1 bg-red-600 text-white rounded hover:bg-red-700''] [NStr ''Cancel''])],
            jsx ''section'' []
             [jsx ''h3'' [cls ''text-xs font-semibold text-gray-500 uppercase mb-2''] [NStr ''Timeline''],
              jsx ''div'' [cls ''space-y-1 text-xs'']
               [cond_el (truthy_opt (job_time i created_at)) (Nm br ''Created'' (the (job_time i created_at))),
                cond_el (truthy_opt (job_time i enqueued_at)) (Nm br ''Enqueued'' (the (job_time i enqueued_at))),
                cond_el (truthy_opt (job_time i started_at)) (Nm br ''Started'' (the (job_time i started_at))),
                cond_el (truthy_opt (job_time i completed_at)) (Nm br ''Completed'' (the (job_time i completed_at))),
                cond_el (truthy_opt (job_time i cancelled_at)) (Nm br ''Cancelled'' (the (job_time i cancelled_at))),
                cond_el (truthy_opt (job_time i discarded_at)) (Nm br ''Discarded'' (the (job_time i discarded_at)))]],
            jsx ''section'' []
             [jsx ''h3'' [cls ''text-xs font-semibold text-gray-500 uppercase mb-2''] [NStr ''Arguments''],
              map_node (DViewer ''args'') (Ub (opened ''args'') (j_args i))],
            cond_el (j_meta i \<noteq> []) (jsx ''section'' []
               [jsx ''h3'' [cls ''text-xs font-semibold text-gray-500 uppercase mb-2''] [NStr ''Metadata''],
                map_node (DViewer ''meta'') (Ub (opened ''meta'') (JObj (j_meta i)))]),
            cond_el (j_errors i \<noteq> []) (jsx ''section'' []
               [jsx ''h3'' [cls ''text-xs font-semibold text-gray-500 uppercase mb-2''] [NStr ''Error History''],
                jsx ''div'' [cls ''space-y-2'']
                 [NFrag (map (\<lambda>(N, R). jsxk ''div'' (show_nat N) [cls ''bg-red-50 dark:bg-red-950 border border-red-200 dark:border-red-800 rounded p-3 text-xs'']
                     [jsx ''div'' [cls ''flex justify-between'']
                       [jsx ''span'' [cls ''font-medium text-red-700 dark:text-red-400''] [NStr (je_type R)],
                        jsx ''span'' [cls ''text-gray-500'']
                         [NStr ''Attempt '',
                          NNum (je_attempt R),
                          NStr ('' '' @ utf8 [194, 183] @ '' ''),
                          NStr (kb br (je_occurred_at R))]],
                      jsx ''p'' [cls ''mt-1 text-red-600 dark:text-red-300''] [NStr (je_message R)],
                      cond_el (je_backtrace R \<noteq> None) (jsx ''pre'' [cls ''mt-1 text-gray-500 text-[10px] overflow-auto max-h-24'']
                         [NStr (join_with [char_of (10 :: nat)] (the (je_backtrace R)))])]) (enumerate 0 (j_errors i)))]]),
            cond_el (not_null (j_result i)) (jsx ''section'' []
               [jsx ''h3'' [cls ''text-xs font-semibold text-gray-500 uppercase mb-2''] [NStr ''Result''],
                map_node (DViewer ''result'') (Ub (opened ''result'') (the (j_result i)))]),
            cond_el (case j_retry_policy i of None \<Rightarrow> False | Some v \<Rightarrow> json_truthy v) (jsx ''section'' []
               [jsx ''h3'' [cls ''text-xs font-semibold text-gray-500 uppercase mb-2''] [NStr ''Retry Policy''],
                map_node (DViewer ''retry_policy'') (Ub (opened ''retry_policy'') (the (j_retry_policy i)))])]]]"

definition yH_body :: "browser \<Rightarrow> job_detail option \<Rightarrow> (string \<Rightarrow> bool) \<Rightarrow> detail_act node" where
  "yH_body br i opened =
     (case i of
        Some j \<Rightarrow> job_panel br opened j
      | None \<Rightarrow> jsx ''div'' [cls ''p-4 text-gray-500'']
       [NStr (''Loading'' @ utf8 [226, 128, 166])])"

definition yH :: "browser \<Rightarrow> string option \<Rightarrow> job_detail option \<Rightarrow> (string \<Rightarrow> bool) \<Rightarrow> detail_act node" where
  "yH br s i opened =
     (case s of
        Some x \<Rightarrow> (if x \<noteq> [] then jsx ''div'' [cls ''p-4 text-red-500''] [NStr x] else yH_body br i opened)
      | None \<Rightarrow> yH_body br i opened)"

text \<open>\<open>Math.max(1, Math.ceil(a / t))\<close>: dividing by zero gives an infinity or a NaN.\<close>

datatype pages = Pages int | PagesInf | PagesNaN

definition page_count :: "int \<Rightarrow> int \<Rightarrow> pages" where
  "page_count a t =
     (if t \<noteq> 0 then Pages (max 1 \<lceil>js_div (of_int a) (of_int t)\<rceil>)
      else if 0 < a then PagesInf else if a = 0 then PagesNaN else Pages 1)"

fun one_page :: "pages \<Rightarrow> bool" where
  "one_page (Pages c) = (c \<le> 1)"
| "one_page _ = False"

fun pages_le :: "pages \<Rightarrow> int \<Rightarrow> bool" where
  "pages_le (Pages c) e = (c \<le> e)"
| "pages_le _ e = False"

fun pages_string :: "pages \<Rightarrow> string" where
  "pages_string (Pages c) = show_int c"
| "pages_string PagesInf = ''Infinity''"
| "pages_string PagesNaN = ''NaN''"

definition mH :: "int \<Rightarrow> int \<Rightarrow> int \<Rightarrow> (int \<Rightarrow> 'a) \<Rightarrow> 'a node" where
  "mH e t a i =
     (let c = page_count a t in
      (if one_page c then NNull
      else jsx ''div'' [cls ''flex items-center justify-between px-4 py-3 border-t border-gray-200 dark:border-gray-700'']
         [jsx ''span'' [cls ''text-sm text-gray-500'']
           [NStr ''Showing '',
            NNum (of_int ((e - 1) * t + 1)),
            NStr (utf8 [226, 128, 147]),
            NNum (of_int (min (e * t) a)),
            NStr '' of '',
            NNum (of_int a)],
          jsx ''div'' [cls ''flex gap-1'']
           [jsx ''button'' [(''onClick'', AAct (i (e - 1))), (''disabled'', ABool (e \<le> 1)), cls ''px-3 py-1 text-sm rounded border border-gray-300 dark:border-gray-600 disabled:opacity-40 hover:bg-gray-100 dark:hover:bg-gray-800''] [NStr ''Prev''],
            jsx ''span'' [cls ''px-3 py-1 text-sm text-gray-500'']
             [NNum (of_int e),
              NStr '' / '',
              NStr (pages_string c)],
            jsx ''button'' [(''onClick'', AAct (i (e + 1))), (''disabled'', ABool (pages_le c e)), cls ''px-3 py-1 text-sm rounded border border-gray-300 dark:border-gray-600 disabled:opacity-40 hover:bg-gray-100 dark:hover:bg-gray-800''] [NStr ''Next'']]]))"

datatype jobs_act = JRefresh | JFilter filter_act | JSelect string | JPage int | JDetail detail_act

definition Bre :: "browser \<Rightarrow> filters \<Rightarrow> string \<Rightarrow> string list \<Rightarrow> job_list option \<Rightarrow> string option
    \<Rightarrow> string option \<Rightarrow> job_detail option \<Rightarrow> (string \<Rightarrow> bool) \<Rightarrow> jobs_act node" where
  "Bre br t input E b s derr djob opened =
     jsx ''div'' [cls ''space-y-4'']
       [jsx ''div'' [cls ''flex items-center justify-between'']
         [jsx ''h1'' [cls ''text-xl font-bold''] [NStr ''Jobs''],
          jsx ''button'' [(''onClick'', AAct JRefresh), cls ''text-sm px-3 py-1.5 border border-gray-300 dark:border-gray-600 rounded hover:bg-gray-100 dark:hover:bg-gray-800''] [NStr ''Refresh'']],
        map_node JFilter (qre t E input),
        zre br (case b of None \<Rightarrow> [] | Some l \<Rightarrow> jl_items l) JSelect,
        cond_el (b \<noteq> None) (mH (pg_page (jl_pagination (the b))) (pg_per_page (jl_pagination (the b))) (pg_total (jl_pagination (the b))) JPage),
        cond_el (truthy_opt s) (map_node JDetail (yH br derr djob opened))]"

section \<open>The detail panel\<close>

text \<open>The state of \<open>yH\<close> and what changes it: \<open>y()\<close> settles, a viewer is folded. A new
  \<open>jobId\<close> runs \<open>y()\<close> again and leaves the state as it is.\<close>

record detail =
  d_job :: "job_detail option"
  d_error :: "string option"
  d_opened :: "string \<Rightarrow> bool"

definition detail_init :: detail where
  "detail_init = \<lparr>d_job = None, d_error = None, d_opened = (\<lambda>_. True)\<rparr>"

datatype detail_event = Loaded job_detail | LoadFailed string | Retarget | Folded string

fun detail_step :: "detail_event \<Rightarrow> detail \<Rightarrow> detail" where
  "detail_step (Loaded j) d = d\<lparr>d_job := Some j\<rparr>"
| "detail_step (LoadFailed m) d = d\<lparr>d_error := Some m\<rparr>"
| "detail_step Retarget d = d"
| "detail_step (Folded f) d = d\<lparr>d_opened := (d_opened d)(f := \<not> d_opened d f)\<rparr>"

definition detail_view :: "browser \<Rightarrow> detail \<Rightarrow> detail_act node" where
  "detail_view br d = yH br (d_error d) (d_job d) (d_opened d)"

section \<open>The handlers of the page\<close>

record jobs_page =
  jp_filters :: filters
  jp_page :: int
  jp_input :: string
  jp_selected :: "string option"
  jp_detail :: detail

definition jobs_init :: jobs_page where
  "jobs_init = \<lparr>jp_filters = [], jp_page = 1, jp_input = [], jp_selected = None, jp_detail = detail_init\<rparr>"

text \<open>\<open>e.jobs({...t, page: i, per_page: 25})\<close>.\<close>

definition jobs_call :: "jobs_page \<Rightarrow> api_call" where
  "jobs_call p = Jobs (obj_spread (jp_filters p) [(''page'', FInt (jp_page p)), (''per_page'', FInt 25)])"

text \<open>Selecting a job mounts the panel, or gives the mounted panel another \<open>jobId\<close>.\<close>

definition jobs_select :: "string \<Rightarrow> jobs_page \<Rightarrow> jobs_page \<times> api_call list" where
  "jobs_select h p =
     (let p' = p\<lparr>jp_selected := Some h\<rparr>
      in if \<not> truthy_opt (jp_selected p)
         then (p'\<lparr>jp_detail := detail_init\<rparr>, if h = [] then [] else [Job h])
         else (p'\<lparr>jp_detail := detail_step Retarget (jp_detail p)\<rparr>,
               if h = [] \<or> jp_selected p = Some h then [] else [Job h]))"

fun jobs_handle :: "jobs_act \<Rightarrow> jobs_page \<Rightarrow> jobs_page \<times> api_call list" where
  "jobs_handle JRefresh p = (p, [jobs_call p])"
| "jobs_handle (JFilter (FChange w)) p =
     (let p' = p\<lparr>jp_filters := w, jp_page := 1\<rparr> in (p', [jobs_call p']))"
| "jobs_handle (JFilter (FType v)) p = (p\<lparr>jp_input := v\<rparr>, [])"
| "jobs_handle (JFilter FClear) p =
     (let p' = p\<lparr>jp_input := [], jp_filters := [], jp_page := 1\<rparr> in (p', [jobs_call p']))"
| "jobs_handle (JSelect h) p = jobs_select h p"
| "jobs_handle (JPage n) p =
     (let p' = p\<lparr>jp_page := n\<rparr> in (p', if n = jp_page p then [] else [jobs_call p']))"
| "jobs_handle (JDetail DClose) p = (p\<lparr>jp_selected := None\<rparr>, [])"
| "jobs_handle (JDetail DRetry) p = (p, [RetryJob (nullish (jp_selected p) [])])"
| "jobs_handle (JDetail DCancel) p = (p, [CancelJob (nullish (jp_selected p) [])])"
| "jobs_handle (JDetail (DViewer f VToggle)) p =
     (p\<lparr>jp_detail := detail_step (Folded f) (jp_detail p)\<rparr>, [])"
| "jobs_handle (JDetail (DViewer f (VCopy s))) p = (p, [])"

text \<open>\<open>g\<close> and \<open>b\<close> after their \<open>await\<close>: a call that succeeded reloads the job.\<close>

definition detail_action_done :: "bool \<Rightarrow> jobs_page \<Rightarrow> api_call list" where
  "detail_action_done ok p = (if ok then [Job (nullish (jp_selected p) [])] else [])"

definition jobs_view :: "browser \<Rightarrow> string list \<Rightarrow> job_list option \<Rightarrow> jobs_page \<Rightarrow> jobs_act node" where
  "jobs_view br qs b p =
     Bre br (jp_filters p) (jp_input p) qs b (jp_selected p)
       (d_error (jp_detail p)) (d_job (jp_detail p)) (d_opened (jp_detail p))"

section \<open>What can be clicked\<close>

lemma clickable_badge [simp]: "clickable (M_badge e) = {}"
  by (simp add: M_badge_def Let_def)

lemma clickable_Nm [simp]: "clickable (Nm br e t) = {}"
  by (simp add: Nm_def)

lemma clickable_Ub: "clickable (Ub t e) = {VCopy (stringify2 e), VToggle}"
  by (auto simp: Ub_def)

lemma job_panel_clickable:
  "DClose \<in> clickable (job_panel br opened i)"
  "DRetry \<in> clickable (job_panel br opened i) \<longleftrightarrow> j_state i \<in> {''discarded'', ''cancelled''}"
  "DCancel \<in> clickable (job_panel br opened i) \<longleftrightarrow>
     j_state i \<in> {''available'', ''scheduled'', ''pending'', ''retryable''}"
  unfolding job_panel_def by (simp_all add: case_prod_beta' image_iff)

text \<open>The detail panel offers exactly the actions the state of the job allows: Retry for discarded and
  cancelled jobs, Cancel for available, scheduled, pending and retryable ones, neither
  for active and completed jobs, and it can always be closed.\<close>

lemma job_panel_actions:
  "(DRetry \<in> clickable (yH_body br (Some j) opened) \<longleftrightarrow> j_state j \<in> {''discarded'', ''cancelled''})
   \<and> (DCancel \<in> clickable (yH_body br (Some j) opened) \<longleftrightarrow>
        j_state j \<in> {''available'', ''scheduled'', ''pending'', ''retryable''})
   \<and> DClose \<in> clickable (yH_body br (Some j) opened)"
  by (simp add: yH_body_def job_panel_clickable del: insert_iff)

lemma yH_failed_clickable: "s = Some x \<Longrightarrow> x \<noteq> [] \<Longrightarrow> clickable (yH br s i opened) = {}"
  by (simp add: yH_def)

lemma detail_error_stays: "d_error d \<noteq> None \<Longrightarrow> d_error (detail_step ev d) \<noteq> None"
  by (cases ev) simp_all

text \<open>A panel that failed to load once stays failed. After one failed load, whatever happens next (the
  job loads, another job is selected, further loads fail with a message) the panel shows an error
  text only and offers no control at all, not even to close it.\<close>

lemma detail_failure_is_final:
  assumes "d_error d = Some m" and "m \<noteq> []" and "\<forall>ev \<in> set evs. ev \<noteq> LoadFailed []"
  shows "clickable (detail_view br (fold detail_step evs d)) = {}"
proof -
  have "\<exists>x. d_error (fold detail_step evs d) = Some x \<and> x \<noteq> []"
    using assms
  proof (induction evs arbitrary: d m)
    case (Cons ev evs)
    have "\<exists>x. d_error (detail_step ev d) = Some x \<and> x \<noteq> []"
      using Cons.prems by (cases ev) auto
    with Cons.IH Cons.prems(3) show ?case by fastforce
  qed simp
  then show ?thesis by (auto simp: detail_view_def yH_failed_clickable)
qed

definition job_example :: job_detail where
  "job_example = \<lparr>j_id = ''a'', j_type = ''email'', j_queue = ''default'', j_state = ''active'', j_attempt = 1,
     j_created_at = [], j_max_attempts = None, j_metadata = None, j_args = JArr [], j_meta = [],
     j_errors = [], j_result = None, j_retry_policy = None\<rparr>"

section \<open>Pagination\<close>

lemma ceiling_near:
  fixes y :: rat and a b :: int
  assumes "0 < b" and "\<bar>y - of_int a / of_int b\<bar> < 1 / of_int b" and "b dvd a \<Longrightarrow> y = of_int a / of_int b"
  shows "\<lceil>y\<rceil> = - ((- a) div b)"
proof -
  have "\<lfloor>- y\<rfloor> = (- a) div b"
  proof (rule floor_near)
    show "\<bar>- y - of_int (- a) / of_int b\<bar> < 1 / of_int b"
      using assms(2) by (simp add: abs_minus_commute)
  qed (use assms in simp_all)
  then show ?thesis by (simp add: ceiling_def)
qed

lemma page_count_exact:
  assumes "0 \<le> a" "a < 2 ^ 52" "0 < t"
  shows "page_count a t = Pages (max 1 (- ((- a) div t)))"
proof -
  let ?q = "of_int a / of_int t :: rat"
  have "\<lceil>js_div (of_int a) (of_int t)\<rceil> = - ((- a) div t)"
  proof (rule ceiling_near [OF assms(3)])
    have "\<bar>js_div (of_int a) (of_int t) - ?q\<bar> \<le> ?q / 2 ^ 53"
      unfolding js_div_def using assms by (intro rnd_near) simp
    also have "\<dots> = of_int a / 2 ^ 53 * (1 / of_int t)" by simp
    also have "\<dots> < 1 * (1 / of_int t)"
      using assms by (intro mult_strict_right_mono) simp_all
    finally show "\<bar>js_div (of_int a) (of_int t) - ?q\<bar> < 1 / of_int t" by simp
    assume "t dvd a"
    then obtain k where k: "a = t * k" by blast
    then have "0 \<le> k" "k \<le> t * k" using assms by (simp_all add: zero_le_mult_iff mult_le_cancel_right1)
    then have "\<bar>k\<bar> < 2 ^ 53" using assms(2) unfolding k by simp
    then show "js_div (of_int a) (of_int t) = ?q"
      unfolding js_div_def using rnd_of_int [of k] assms(3) by (simp add: k)
  qed
  with assms(3) show ?thesis by (simp add: page_count_def)
qed

lemma mH_clickable:
  "clickable (mH e t a i) =
     (if one_page (page_count a t) then {}
      else (if e \<le> 1 then {} else {i (e - 1)}) \<union> (if pages_le (page_count a t) e then {} else {i (e + 1)}))"
  unfolding mH_def Let_def by auto

text \<open>C36: Pagination stays in range. On page \<open>e\<close> of a listing of \<open>a\<close> items in pages of \<open>t\<close>, the buttons
  lead exactly to the neighbouring pages that exist: Prev to \<open>e - 1\<close> unless that is
  page 0, Next to \<open>e + 1\<close> unless \<open>e\<close> is the last page, which is the exact ceiling of
  \<open>a / t\<close>; with a single page there are no buttons.\<close>

theorem pagination_in_range:
  assumes "0 \<le> a" "a < 2 ^ 52" "0 < t" "1 \<le> e" "e \<le> n" "n = max 1 (- ((- a) div t))"
  shows "clickable (mH e t a i) = i ` ({e - 1, e + 1} \<inter> {1..n})"
  unfolding mH_clickable page_count_exact [OF assms(1-3)] using assms(4-6) by auto

theorem pagination_in_range_witness: "clickable (mH 2 25 60 id) = {1, 3}"
proof -
  have "clickable (mH 2 25 60 id) = id ` ({2 - 1, 2 + 1} \<inter> {1..3 :: int})"
    by (rule pagination_in_range) simp_all
  then show ?thesis by auto
qed

section \<open>The requests of the jobs page\<close>

lemma filter_put_get:
  "filter_get (filter_put k v e) k' = (if k' = k then (if v = [] then None else Some v) else filter_get e k')"
  by (simp add: filter_get_def filter_put_def)

text \<open>Changing a filter asks for the first page of the filtered list. For every filter object and every
  value chosen in a control, the page sends one request whose parameters are the chosen
  value (left out when it is empty), page 1, 25 jobs per page, and the other filters unchanged.\<close>

lemma jobs_filter_request:
  assumes "k \<notin> {''page'', ''per_page''}"
  shows "\<exists>p' fs. jobs_handle (JFilter (FChange (filter_put k v (jp_filters p)))) p = (p', [Jobs fs])
    \<and> filter_get fs ''page'' = Some ''1'' \<and> filter_get fs ''per_page'' = Some ''25''
    \<and> filter_get fs k = (if v = [] then None else Some v)
    \<and> (\<forall>k'. k' \<notin> {k, ''page'', ''per_page''} \<longrightarrow> filter_get fs k' = filter_get (jp_filters p) k')
    \<and> jp_page p' = 1"
proof -
  have d: "show_int 1 = ''1''" "show_int 25 = ''25''" by code_simp+
  show ?thesis
    using assms d
    by (auto simp: Let_def jobs_call_def map_of_obj_spread filter_get_def obj_spread_Cons filter_put_def)
qed

end
