(* ===== verification/Admin_Workers.thy ===== *)
theory Admin_Workers
  imports Admin_Data
begin

text \<open>
  The confirmation dialog \<open>vH\<close>, the workers table \<open>Lre\<close> and the workers page \<open>Hre\<close>.
\<close>

definition vH :: "bool \<Rightarrow> bool \<Rightarrow> string \<Rightarrow> string \<Rightarrow> string \<Rightarrow> 'a \<Rightarrow> 'a \<Rightarrow> bool \<Rightarrow> 'a node" where
  "vH y e t a i b s h =
     (if \<not> e then NNull
      else jsx ''div'' [cls ''fixed inset-0 z-50 flex items-center justify-center bg-black/50'', (''onClick'', AAct s)]
       [jsx ''div'' [cls ''bg-white dark:bg-gray-800 rounded-lg shadow-xl max-w-md w-full p-6'', (''onClick'', AStop)]
         [jsx ''h3'' [cls ''text-lg font-semibold mb-2''] [NStr t],
          jsx ''p'' [cls ''text-sm text-gray-600 dark:text-gray-400 mb-6''] [NStr a],
          jsx ''div'' [cls ''flex justify-end gap-3'']
           [jsx ''button'' [(''onClick'', AAct s), cls ''px-4 py-2 text-sm rounded border border-gray-300 dark:border-gray-600 hover:bg-gray-100 dark:hover:bg-gray-700''] [NStr ''Cancel''],
            jsx ''button'' [(''onClick'', AAct b), (''disabled'', ABool (y)), cls (''px-4 py-2 text-sm rounded text-white '' @ (if h then ''bg-red-600 hover:bg-red-700'' else ''bg-blue-600 hover:bg-blue-700'') @ '' disabled:opacity-50'')]
             [(if y then NStr (''Processing'' @ utf8 [226, 128, 166])
              else NStr i)]]]])"

definition worker_class :: "string \<Rightarrow> string" where
  "worker_class y =
     (if y = ''running'' then ''bg-green-100 text-green-800 dark:bg-green-900 dark:text-green-200''
      else if y = ''quiet'' then ''bg-yellow-100 text-yellow-800 dark:bg-yellow-900 dark:text-yellow-200''
      else if y = ''stale'' then ''bg-red-100 text-red-800 dark:bg-red-900 dark:text-red-200''
      else ''bg-gray-100 text-gray-700'')"

datatype worker_op = Quiet | Deregister

datatype workers_act = WRefresh | WAsk string worker_op | WConfirm | WCancel

definition Lre :: "browser \<Rightarrow> bool \<Rightarrow> (string \<times> worker_op) option \<Rightarrow> worker_info list \<Rightarrow> workers_act node" where
  "Lre br y0 i e =
     NFrag [jsx ''div'' [cls ''bg-white dark:bg-gray-900 rounded-lg border border-gray-200 dark:border-gray-800 overflow-hidden'']
         [jsx ''table'' [cls ''w-full text-sm'']
           [jsx ''thead'' [cls ''bg-gray-50 dark:bg-gray-800 text-gray-600 dark:text-gray-400 text-xs uppercase'']
             [jsx ''tr'' []
               [jsx ''th'' [cls ''text-left px-4 py-3''] [NStr ''Worker ID''],
                jsx ''th'' [cls ''text-left px-3 py-3''] [NStr ''Hostname''],
                jsx ''th'' [cls ''text-center px-3 py-3''] [NStr ''State''],
                jsx ''th'' [cls ''text-left px-3 py-3''] [NStr ''Queues''],
                jsx ''th'' [cls ''text-right px-3 py-3''] [NStr ''Active''],
                jsx ''th'' [cls ''text-right px-3 py-3''] [NStr ''Last Heartbeat''],
                jsx ''th'' [cls ''text-center px-4 py-3''] [NStr ''Actions'']]],
            jsx ''tbody'' [cls ''divide-y divide-gray-100 dark:divide-gray-800'']
             [NFrag (map (\<lambda>y. jsxk ''tr'' (w_id y) [cls ''hover:bg-gray-50 dark:hover:bg-gray-800/50'']
                 [jsx ''td'' [cls ''px-4 py-3 font-mono text-xs''] [NStr (substring0 16 (w_id y))],
                  jsx ''td'' [cls ''px-3 py-3 text-gray-500''] [NStr (nullish (w_hostname y) em_dash)],
                  jsx ''td'' [cls ''px-3 py-3 text-center'']
                   [jsx ''span'' [cls (''inline-flex px-2 py-0.5 rounded-full text-xs font-medium '' @ (worker_class (w_state y)))] [NStr (w_state y)]],
                  jsx ''td'' [cls ''px-3 py-3 text-gray-500 text-xs''] [NStr (join_with '', '' (w_queues y))],
                  jsx ''td'' [cls ''px-3 py-3 text-right''] [NNum (w_active_jobs y)],
                  jsx ''td'' [cls ''px-3 py-3 text-right text-gray-500 text-xs''] [NStr (kb br (w_last_heartbeat_at y))],
                  jsx ''td'' [cls ''px-4 py-3 text-center'']
                   [jsx ''div'' [cls ''flex gap-1 justify-center'']
                     [cond_el (w_state y = ''running'') (jsx ''button'' [(''onClick'', AAct (WAsk (w_id y) Quiet)), cls ''text-xs px-2 py-1 rounded border border-gray-300 dark:border-gray-600 hover:bg-gray-100 dark:hover:bg-gray-800''] [NStr ''Quiet'']),
                      cond_el (w_state y = ''stale'') (jsx ''button'' [(''onClick'', AAct (WAsk (w_id y) Deregister)), cls ''text-xs px-2 py-1 rounded border border-red-300 text-red-600 hover:bg-red-50 dark:hover:bg-red-950''] [NStr ''Remove''])]]]) e)]],
          cond_el (e = []) (jsx ''p'' [cls ''text-center py-8 text-gray-500 text-sm''] [NStr ''No workers connected.''])],
        vH y0 (i \<noteq> None) (if map_option snd i = Some Quiet then ''Quiet Worker'' else ''Remove Stale Worker'')
          (if map_option snd i = Some Quiet then ''This will signal the worker to stop fetching new jobs. Active jobs will finish.'' else ''This will remove the stale worker and requeue its active jobs.'')
          (if map_option snd i = Some Quiet then ''Quiet'' else ''Remove'') WConfirm WCancel (map_option snd i = Some Deregister)]"

definition Hre :: "browser \<Rightarrow> bool \<Rightarrow> (string \<times> worker_op) option \<Rightarrow> worker_list option \<Rightarrow> workers_act node" where
  "Hre br y0 ask a =
     jsx ''div'' [cls ''space-y-4'']
       [jsx ''div'' [cls ''flex items-center justify-between'']
         [jsx ''h1'' [cls ''text-xl font-bold''] [NStr ''Workers''],
          jsx ''div'' [cls ''flex items-center gap-3'']
           [cond_el (Option.bind a wl_summary \<noteq> None) (jsx ''div'' [cls ''flex gap-2 text-xs'']
               [jsx ''span'' [cls ''text-green-600'']
                 [NNum (n_running (the (wl_summary (the a)))),
                  NStr '' running''],
                cond_el (0 < n_quiet (the (wl_summary (the a)))) (jsx ''span'' [cls ''text-yellow-600'']
                   [NNum (n_quiet (the (wl_summary (the a)))),
                    NStr '' quiet'']),
                cond_el (0 < n_stale (the (wl_summary (the a)))) (jsx ''span'' [cls ''text-red-600'']
                   [NNum (n_stale (the (wl_summary (the a)))),
                    NStr '' stale''])]),
            jsx ''button'' [(''onClick'', AAct WRefresh), cls ''text-sm px-3 py-1.5 border border-gray-300 dark:border-gray-600 rounded hover:bg-gray-100 dark:hover:bg-gray-800''] [NStr ''Refresh'']]],
        Lre br y0 ask (case a of None \<Rightarrow> [] | Some l \<Rightarrow> wl_items l)]"

section \<open>Handlers\<close>

record workers_page =
  wp_ask :: "(string \<times> worker_op) option"
  wp_confirming :: bool

definition workers_init :: workers_page where
  "workers_init = \<lparr>wp_ask = None, wp_confirming = False\<rparr>"

definition worker_call :: "string \<times> worker_op \<Rightarrow> api_call" where
  "worker_call i = (if snd i = Quiet then QuietWorker (fst i) else DeregisterWorker (fst i))"

text \<open>\<open>WConfirm\<close> is \<open>b\<close> of the dialog up to the \<open>await\<close>; \<open>worker_confirmed\<close> what follows it.\<close>

fun workers_handle :: "workers_act \<Rightarrow> workers_page \<Rightarrow> workers_page \<times> api_call list" where
  "workers_handle WRefresh p = (p, [Workers 1 50])"
| "workers_handle (WAsk y a) p = (p\<lparr>wp_ask := Some (y, a)\<rparr>, [])"
| "workers_handle WCancel p = (p\<lparr>wp_ask := None\<rparr>, [])"
| "workers_handle WConfirm p =
     (case wp_ask p of
        None \<Rightarrow> (p\<lparr>wp_confirming := False\<rparr>, [])
      | Some i \<Rightarrow> (p\<lparr>wp_confirming := True\<rparr>, [worker_call i]))"

definition worker_confirmed :: "bool \<Rightarrow> workers_page \<Rightarrow> workers_page \<times> api_call list" where
  "worker_confirmed ok p =
     (if ok then (p\<lparr>wp_ask := None, wp_confirming := False\<rparr>, [Workers 1 50])
      else (p\<lparr>wp_confirming := False\<rparr>, []))"

definition workers_view :: "browser \<Rightarrow> worker_list option \<Rightarrow> workers_page \<Rightarrow> workers_act node" where
  "workers_view br a p = Hre br (wp_confirming p) (wp_ask p) a"

section \<open>What can be clicked\<close>

lemma vH_closed [simp]: "vH y False t a i b s h = NNull"
  by (simp add: vH_def)

lemma vH_clicks:
  "click_runs (vH y True t a i b s h) = (if y then {[], [s]} else {[], [s], [b]})"
  unfolding vH_def click_runs_def by auto

lemma vH_clickable:
  "clickable (vH y e t a i b s h) = (if e then insert s (if y then {} else {b}) else {})"
  by (cases e) (simp_all, auto simp: clickable_def vH_clicks)

lemma Lre_clickable:
  "clickable (Lre br y0 ask e) =
     {WAsk (w_id w) Quiet | w. w \<in> set e \<and> w_state w = ''running''}
     \<union> {WAsk (w_id w) Deregister | w. w \<in> set e \<and> w_state w = ''stale''}
     \<union> (if ask = None then {} else insert WCancel (if y0 then {} else {WConfirm}))"
  unfolding Lre_def by (simp add: vH_clickable) (auto split: if_splits)

text \<open>A click in the confirmation dialog runs one handler only. A closed dialog renders nothing. In an
  open one every click runs nothing, or cancels, or confirms; confirming never also
  cancels, although the dialog lies inside the backdrop that cancels, and while the
  confirmed action is running it cannot be confirmed again.\<close>

lemma confirm_dialog_clicks:
  "vH y False t a i b s h = NNull
   \<and> click_runs (vH False True t a i b s h) = {[], [s], [b]}
   \<and> click_runs (vH True True t a i b s h) = {[], [s]}"
  by (simp add: vH_clicks)

text \<open>C37: Worker actions follow the state of the worker and need a confirmation. Without an open dialog the
  table offers to quiet exactly the running workers and to remove exactly the stale ones;
  that sends no request. Only confirming sends one, for the worker and the action asked for.\<close>

theorem worker_actions_confirmed:
  "clickable (Lre br y0 None e) =
     {WAsk (w_id w) Quiet | w. w \<in> set e \<and> w_state w = ''running''}
     \<union> {WAsk (w_id w) Deregister | w. w \<in> set e \<and> w_state w = ''stale''}
   \<and> snd (workers_handle (WAsk y a) p) = []
   \<and> snd (workers_handle WConfirm (fst (workers_handle (WAsk y a) p)))
       = [case a of Quiet \<Rightarrow> QuietWorker y | Deregister \<Rightarrow> DeregisterWorker y]
   \<and> snd (workers_handle WConfirm (fst (workers_handle WCancel p))) = []"
  by (cases a) (simp_all add: Lre_clickable worker_call_def)

text \<open>The answer to one confirmation closes whatever dialog is open. If the operator cancels while a
  confirmed request is running and asks for another worker, the dialog for that other
  worker is shown with its Confirm button disabled, and closes when the first answer arrives.\<close>

lemma worker_answer_closes_other_dialog:
  "\<exists>p1 p2. p1 = fst (workers_handle (WAsk ''b'' Deregister) (fst (workers_handle WCancel
       (fst (workers_handle WConfirm (fst (workers_handle (WAsk ''a'' Quiet) workers_init)))))))
     \<and> wp_ask p1 = Some (''b'', Deregister) \<and> WConfirm \<notin> clickable (workers_view br (Some a) p1)
     \<and> p2 = fst (worker_confirmed True p1) \<and> wp_ask p2 = None"
  by (auto simp: workers_init_def worker_confirmed_def workers_view_def Hre_def Lre_clickable)

end
