(* ===== verification/Admin_Dead_Letter.thy ===== *)
theory Admin_Dead_Letter
  imports Admin_Jobs Admin_Workers Admin_Busy
begin

text \<open>
  The dead-letter page: the table \<open>$re\<close> (here \<open>dead_table\<close>) and the page \<open>Pre\<close>.
\<close>

datatype dead_act = XRefresh | XSelect string | XRetry string | XDelete string | XBulk | XConfirm | XCancel
  | XPage int | XDetail detail_act

definition dead_table :: "browser \<Rightarrow> bool \<Rightarrow> bool \<Rightarrow> string option \<Rightarrow> job_row list \<Rightarrow> dead_stats option \<Rightarrow> dead_act node" where
  "dead_table br y0 s y e t =
     NFrag [cond_el (t \<noteq> None) (jsx ''div'' [cls ''grid grid-cols-2 md:grid-cols-4 gap-4 mb-4'']
           [jsx ''div'' [cls ''bg-white dark:bg-gray-900 rounded-lg border border-gray-200 dark:border-gray-800 p-3'']
             [jsx ''div'' [cls ''text-xs text-gray-500''] [NStr ''Total Dead''],
              jsx ''div'' [cls ''text-xl font-bold text-red-600''] [NStr (rl br (ds_total (the t)))]],
            cond_el (ds_by_error_type (the t) \<noteq> None) (NFrag (map (\<lambda>(S, E). jsxk ''div'' S [cls ''bg-white dark:bg-gray-900 rounded-lg border border-gray-200 dark:border-gray-800 p-3'']
                 [jsx ''div'' [cls ''text-xs text-gray-500 truncate''] [NStr S],
                  jsx ''div'' [cls ''text-xl font-bold text-gray-900 dark:text-gray-100''] [NStr (rl br E)]]) (take 3 (the (ds_by_error_type (the t))))))]),
        jsx ''div'' [cls ''flex gap-2 mb-4'']
         [jsx ''button'' [(''onClick'', AAct XBulk), (''disabled'', ABool (e = [])), cls ''text-sm px-3 py-1.5 bg-blue-600 text-white rounded hover:bg-blue-700 disabled:opacity-40''] [NStr ''Bulk Retry All'']],
        jsx ''div'' [cls ''bg-white dark:bg-gray-900 rounded-lg border border-gray-200 dark:border-gray-800 overflow-hidden'']
         [jsx ''table'' [cls ''w-full text-sm'']
           [jsx ''thead'' [cls ''bg-gray-50 dark:bg-gray-800 text-gray-600 dark:text-gray-400 text-xs uppercase'']
             [jsx ''tr'' []
               [jsx ''th'' [cls ''text-left px-4 py-3''] [NStr ''ID''],
                jsx ''th'' [cls ''text-left px-3 py-3''] [NStr ''Type''],
                jsx ''th'' [cls ''text-left px-3 py-3''] [NStr ''Queue''],
                jsx ''th'' [cls ''text-center px-3 py-3''] [NStr ''State''],
                jsx ''th'' [cls ''text-right px-3 py-3''] [NStr ''Created''],
                jsx ''th'' [cls ''text-center px-4 py-3''] [NStr ''Actions'']]],
            jsx ''tbody'' [cls ''divide-y divide-gray-100 dark:divide-gray-800'']
             [NFrag (map (\<lambda>S. jsxk ''tr'' (j_id S) [cls ''hover:bg-gray-50 dark:hover:bg-gray-800/50'']
                 [jsx ''td'' [cls ''px-4 py-3 font-mono text-xs text-gray-500 cursor-pointer'', (''onClick'', AAct (XSelect (j_id S)))]
                   [NStr (substring0 12 (j_id S)),
                    NStr (utf8 [226, 128, 166])],
                  jsx ''td'' [cls ''px-3 py-3 font-medium cursor-pointer'', (''onClick'', AAct (XSelect (j_id S)))] [NStr (j_type S)],
                  jsx ''td'' [cls ''px-3 py-3 text-gray-500''] [NStr (j_queue S)],
                  jsx ''td'' [cls ''px-3 py-3 text-center''] [M_badge (j_state S)],
                  jsx ''td'' [cls ''px-3 py-3 text-right text-gray-500 text-xs''] [NStr (kb br (j_created_at S))],
                  jsx ''td'' [cls ''px-4 py-3 text-center'']
                   [jsx ''div'' [cls ''flex gap-1 justify-center'']
                     [jsx ''button'' [(''onClick'', AAct (XRetry (j_id S))), (''disabled'', ABool (y = Some (j_id S))), cls ''text-xs px-2 py-1 rounded bg-blue-600 text-white hover:bg-blue-700 disabled:opacity-40''] [NStr ''Retry''],
                      jsx ''button'' [(''onClick'', AAct (XDelete (j_id S))), (''disabled'', ABool (y = Some (j_id S))), cls ''text-xs px-2 py-1 rounded border border-red-300 text-red-600 hover:bg-red-50 dark:hover:bg-red-950 disabled:opacity-40''] [NStr ''Delete'']]]]) e)]],
          cond_el (e = []) (jsx ''p'' [cls ''text-center py-8 text-gray-500 text-sm'']
             [NStr (''Dead letter queue is empty. '' @ utf8 [240, 159, 142, 137])])],
        vH y0 s ''Bulk Retry All Dead Letter Jobs''
          (''This will retry all '' @ (number_to_string (case t of None \<Rightarrow> 0 | Some d \<Rightarrow> ds_total d)) @ '' dead letter jobs. Are you sure?'')
          ''Retry All'' XConfirm XCancel False]"

definition Pre :: "browser \<Rightarrow> bool \<Rightarrow> bool \<Rightarrow> string option \<Rightarrow> job_list option \<Rightarrow> dead_stats option \<Rightarrow> string option
    \<Rightarrow> string option \<Rightarrow> job_detail option \<Rightarrow> (string \<Rightarrow> bool) \<Rightarrow> dead_act node" where
  "Pre br y0 bulk busy y b i derr djob opened =
     jsx ''div'' [cls ''space-y-4'']
       [jsx ''div'' [cls ''flex items-center justify-between'']
         [jsx ''h1'' [cls ''text-xl font-bold''] [NStr ''Dead Letter Queue''],
          jsx ''button'' [(''onClick'', AAct XRefresh), cls ''text-sm px-3 py-1.5 border border-gray-300 dark:border-gray-600 rounded hover:bg-gray-100 dark:hover:bg-gray-800''] [NStr ''Refresh'']],
        dead_table br y0 bulk busy (case y of None \<Rightarrow> [] | Some l \<Rightarrow> jl_items l) b,
        cond_el (y \<noteq> None) (mH (pg_page (jl_pagination (the y))) (pg_per_page (jl_pagination (the y))) (pg_total (jl_pagination (the y))) XPage),
        cond_el (truthy_opt i) (map_node XDetail (yH br derr djob opened))]"

section \<open>Handlers\<close>

record dead_page =
  xp_page :: int
  xp_selected :: "string option"
  xp_bulk :: bool
  xp_confirming :: bool
  xp_busy :: busy
  xp_detail :: detail

definition dead_init :: dead_page where
  "dead_init = \<lparr>xp_page = 1, xp_selected = None, xp_bulk = False, xp_confirming = False,
     xp_busy = busy_init, xp_detail = detail_init\<rparr>"

definition dead_call :: "dead_page \<Rightarrow> api_call" where
  "dead_call p = DeadLetter [(''page'', FInt (xp_page p)), (''per_page'', FInt 25)]"

definition dead_select :: "string \<Rightarrow> dead_page \<Rightarrow> dead_page \<times> api_call list" where
  "dead_select c p =
     (let p' = p\<lparr>xp_selected := Some c\<rparr>
      in if \<not> truthy_opt (xp_selected p)
         then (p'\<lparr>xp_detail := detail_init\<rparr>, if c = [] then [] else [Job c])
         else (p'\<lparr>xp_detail := detail_step Retarget (xp_detail p)\<rparr>,
               if c = [] \<or> xp_selected p = Some c then [] else [Job c]))"

fun dead_handle :: "dead_act \<Rightarrow> dead_page \<Rightarrow> dead_page \<times> api_call list" where
  "dead_handle XRefresh p = (p, [dead_call p])"
| "dead_handle (XSelect c) p = dead_select c p"
| "dead_handle (XRetry S) p =
     (p\<lparr>xp_busy := busy_start S (RetryDeadLetter S) (xp_busy p)\<rparr>, [RetryDeadLetter S])"
| "dead_handle (XDelete S) p =
     (p\<lparr>xp_busy := busy_start S (DeleteDeadLetter S) (xp_busy p)\<rparr>, [DeleteDeadLetter S])"
| "dead_handle XBulk p = (p\<lparr>xp_bulk := True\<rparr>, [])"
| "dead_handle XConfirm p = (p\<lparr>xp_confirming := True\<rparr>, [BulkRetryDeadLetter (JObj [])])"
| "dead_handle XCancel p = (p\<lparr>xp_bulk := False\<rparr>, [])"
| "dead_handle (XPage n) p =
     (let p' = p\<lparr>xp_page := n\<rparr> in (p', if n = xp_page p then [] else [dead_call p']))"
| "dead_handle (XDetail DClose) p = (p\<lparr>xp_selected := None\<rparr>, [])"
| "dead_handle (XDetail DRetry) p = (p, [RetryJob (nullish (xp_selected p) [])])"
| "dead_handle (XDetail DCancel) p = (p, [CancelJob (nullish (xp_selected p) [])])"
| "dead_handle (XDetail (DViewer f VToggle)) p =
     (p\<lparr>xp_detail := detail_step (Folded f) (xp_detail p)\<rparr>, [])"
| "dead_handle (XDetail (DViewer f (VCopy s))) p = (p, [])"

text \<open>After the \<open>await\<close> of a row action, and of the confirmed bulk retry.\<close>

definition dead_row_done :: "nat \<Rightarrow> bool \<Rightarrow> dead_page \<Rightarrow> dead_page \<times> api_call list" where
  "dead_row_done n ok p =
     (p\<lparr>xp_busy := busy_done n ok (xp_busy p)\<rparr>, if ok then [dead_call p] else [])"

definition dead_bulk_done :: "bool \<Rightarrow> dead_page \<Rightarrow> dead_page \<times> api_call list" where
  "dead_bulk_done ok p =
     (if ok then (p\<lparr>xp_bulk := False, xp_confirming := False\<rparr>, [dead_call p])
      else (p\<lparr>xp_confirming := False\<rparr>, []))"

definition dead_view :: "browser \<Rightarrow> job_list option \<Rightarrow> dead_stats option \<Rightarrow> dead_page \<Rightarrow> dead_act node" where
  "dead_view br y b p =
     Pre br (xp_confirming p) (xp_bulk p) (b_slot (xp_busy p)) y b (xp_selected p)
       (d_error (xp_detail p)) (d_job (xp_detail p)) (d_opened (xp_detail p))"

section \<open>What can be clicked\<close>

lemma dead_table_clickable:
  "clickable (dead_table br y0 s y e t) =
     (if e = [] then {} else {XBulk})
     \<union> (\<Union>j \<in> set e. insert (XSelect (j_id j))
          (if y = Some (j_id j) then {} else {XRetry (j_id j), XDelete (j_id j)}))
     \<union> (if s then insert XCancel (if y0 then {} else {XConfirm}) else {})"
  unfolding dead_table_def
  by (simp add: vH_clickable case_prod_beta') (auto split: if_splits)

text \<open>In the dead-letter table every row that is not being processed can be retried or deleted, the row being
  processed cannot, every row can be opened, and retrying all jobs is offered for a non-empty
  list and only behind a confirmation: no click sends the bulk request unless the dialog is open.\<close>

lemma dead_letter_actions:
  "(XRetry i \<in> clickable (dead_table br y0 s y e t) \<longleftrightarrow> i \<in> j_id ` set e \<and> y \<noteq> Some i)
   \<and> (XDelete i \<in> clickable (dead_table br y0 s y e t) \<longleftrightarrow> i \<in> j_id ` set e \<and> y \<noteq> Some i)
   \<and> (XSelect i \<in> clickable (dead_table br y0 s y e t) \<longleftrightarrow> i \<in> j_id ` set e)
   \<and> (XBulk \<in> clickable (dead_table br y0 s y e t) \<longleftrightarrow> e \<noteq> [])
   \<and> (XConfirm \<in> clickable (dead_table br y0 s y e t) \<longleftrightarrow> s \<and> \<not> y0)"
  by (auto simp: dead_table_clickable split: if_splits)

end
