(* ===== verification/Admin_Settings.thy ===== *)
theory Admin_Settings
  imports Admin_Jobs
begin

text \<open>
  The settings page \<open>kre\<close>: the manifest of the backend.
\<close>

definition Vh :: "string \<Rightarrow> string \<Rightarrow> 'a node" where
  "Vh e t =
     jsx ''div'' [cls ''flex justify-between text-sm'']
       [jsx ''span'' [cls ''text-gray-500''] [NStr e],
        jsx ''span'' [cls ''font-medium''] [NStr t]]"

text \<open>The three lists read from \<open>extensions\<close>: the official and the experimental ones of the object
  form, and the array form.\<close>

definition ext_official :: "extensions option \<Rightarrow> ext_info list" where
  "ext_official t = (case t of Some (ExtObj a _) \<Rightarrow> nullish a [] | _ \<Rightarrow> [])"

definition ext_experimental :: "extensions option \<Rightarrow> ext_info list" where
  "ext_experimental t = (case t of Some (ExtObj _ i) \<Rightarrow> nullish i [] | _ \<Rightarrow> [])"

definition ext_array :: "extensions option \<Rightarrow> string list" where
  "ext_array t = (case t of Some (ExtArray c) \<Rightarrow> c | _ \<Rightarrow> [])"

definition kre :: "bool \<Rightarrow> manifest_info option \<Rightarrow> viewer_act node" where
  "kre opened e =
     (case e of
        None \<Rightarrow> jsx ''p'' [cls ''text-gray-500'']
       [NStr (''Loading manifest'' @ utf8 [226, 128, 166])]
      | Some m \<Rightarrow>
      (let t = mf_extensions m; a = ext_official t; i = ext_experimental t; c = ext_array t in
      jsx ''div'' [cls ''space-y-6 max-w-2xl'']
       [jsx ''h1'' [cls ''text-xl font-bold''] [NStr ''Settings & Backend Info''],
        jsx ''section'' [cls ''bg-white dark:bg-gray-900 rounded-lg border border-gray-200 dark:border-gray-800 p-4 space-y-3'']
         [jsx ''h2'' [cls ''text-sm font-semibold text-gray-600 dark:text-gray-400 uppercase''] [NStr ''Implementation''],
          Vh ''Name'' (mf_name m),
          Vh ''Version'' (mf_version m),
          Vh ''Language'' (mf_language m),
          Vh ''Backend'' (mf_backend m),
          Vh ''Conformance'' (NP (mf_level m)),
          cond_el (truthy_opt (mf_tier m)) (Vh ''Tier'' (nullish (mf_tier m) [])),
          Vh ''Protocols'' (join_with '', '' (mf_protocols m))],
        cond_el (mf_capabilities m \<noteq> None) (jsx ''section'' [cls ''bg-white dark:bg-gray-900 rounded-lg border border-gray-200 dark:border-gray-800 p-4'']
           [jsx ''h2'' [cls ''text-sm font-semibold text-gray-600 dark:text-gray-400 uppercase mb-3''] [NStr ''Capabilities''],
            jsx ''div'' [cls ''grid grid-cols-2 gap-2 text-sm'']
             [NFrag (map (\<lambda>(s, h). jsxk ''div'' s [cls ''flex items-center gap-2'']
                 [jsx ''span'' [cls (if json_truthy h then ''text-green-600'' else ''text-gray-400'')]
                   [(if json_truthy h then NStr (utf8 [226, 156, 147])
                    else NStr (utf8 [226, 156, 151]))],
                  jsx ''span'' [cls ''text-gray-700 dark:text-gray-300''] [NStr (underscores_to_spaces s)]]) (the (mf_capabilities m)))]]),
        cond_el (a \<noteq> [] \<or> i \<noteq> [] \<or> c \<noteq> []) (jsx ''section'' [cls ''bg-white dark:bg-gray-900 rounded-lg border border-gray-200 dark:border-gray-800 p-4 space-y-3'']
           [jsx ''h2'' [cls ''text-sm font-semibold text-gray-600 dark:text-gray-400 uppercase''] [NStr ''Extensions''],
            NFrag (map (\<lambda>s. jsxk ''div'' (x_uri s) [cls ''flex items-center gap-2 text-sm'']
               [jsx ''span'' [cls ''px-1.5 py-0.5 bg-blue-100 text-blue-700 rounded text-xs font-medium''] [NStr ''Official''],
                jsx ''span'' [] [NStr (x_name s)],
                jsx ''span'' [cls ''text-gray-400 text-xs'']
                 [NStr ''v'',
                  NStr (x_version s)]]) a),
            NFrag (map (\<lambda>s. jsxk ''div'' (x_uri s) [cls ''flex items-center gap-2 text-sm'']
               [jsx ''span'' [cls ''px-1.5 py-0.5 bg-amber-100 text-amber-700 rounded text-xs font-medium''] [NStr ''Experimental''],
                jsx ''span'' [] [NStr (x_name s)],
                jsx ''span'' [cls ''text-gray-400 text-xs'']
                 [NStr ''v'',
                  NStr (x_version s)]]) i),
            NFrag (map (\<lambda>s. jsxk ''div'' s [cls ''text-sm text-gray-600''] [NStr s]) c)]),
        jsx ''section'' []
         [jsx ''h2'' [cls ''text-sm font-semibold text-gray-600 dark:text-gray-400 uppercase mb-2''] [NStr ''Raw Manifest''],
          Ub opened (mf_raw m)]]))"

end
