(* ===== verification/Admin_App.thy ===== *)
theory Admin_App
  imports Router_Link Admin_Layout Admin_Queues Admin_Dead_Letter Admin_Settings
begin

text \<open>
  The application \<open>Gre\<close>: its routes under the basename \<open>/ojs/admin\<close>, the page each
  location shows, and the links of the sidebar.
\<close>

datatype page = PLayout | PDashboard | PQueues | PJobs | PWorkers | PDeadLetter | PSettings

text \<open>The children of \<open>Routes\<close>, and the route objects \<open>GR\<close> makes of them.\<close>

definition route_el :: "string option \<Rightarrow> bool \<Rightarrow> page \<Rightarrow> page route_props" where
  "route_el p index e =
     \<lparr>rp_id = None, rp_caseSensitive = False, rp_element = Some e, rp_Component = None, rp_index = index, rp_path = p,
      rp_hasErrorBoundary = False, rp_rest = []\<rparr>"

definition app_children :: "page jchild list" where
  "app_children =
     [JRoute (route_el None False PLayout)
       [JRoute (route_el None True PDashboard) [],
        JRoute (route_el (Some ''queues'') False PQueues) [],
        JRoute (route_el (Some ''jobs'') False PJobs) [],
        JRoute (route_el (Some ''workers'') False PWorkers) [],
        JRoute (route_el (Some ''dead-letter'') False PDeadLetter) [],
        JRoute (route_el (Some ''settings'') False PSettings) []]]"

definition app_ext :: "string \<Rightarrow> page route_ext" where
  "app_ext i = Ext i None False []"

definition app_routes :: "page route list" where
  "app_routes =
     [Route None False False (Some PLayout) (app_ext ''0'')
       [Route None False True (Some PDashboard) (app_ext ''0-0'') [],
        Route (Some ''queues'') False False (Some PQueues) (app_ext ''0-1'') [],
        Route (Some ''jobs'') False False (Some PJobs) (app_ext ''0-2'') [],
        Route (Some ''workers'') False False (Some PWorkers) (app_ext ''0-3'') [],
        Route (Some ''dead-letter'') False False (Some PDeadLetter) (app_ext ''0-4'') [],
        Route (Some ''settings'') False False (Some PSettings) (app_ext ''0-5'') []]]"

definition app_basename :: string where
  "app_basename = ''/ojs/admin''"

text \<open>The page of a path below the basename, trailing slashes and case aside.\<close>

definition page_at :: "string \<Rightarrow> page option" where
  "page_at p = map_of
     [([], PDashboard), (''/queues'', PQueues), (''/jobs'', PJobs), (''/workers'', PWorkers),
      (''/dead-letter'', PDeadLetter), (''/settings'', PSettings)] (to_lower (drop_trailing p))"

section \<open>Literal patterns\<close>

lemma char_eq_ci: "char_eq True x c \<longleftrightarrow> to_lower [x] = to_lower [c]"
  by (simp add: char_eq_def)

lemma to_lower_eq_Cons:
  "to_lower (x # xs) = to_lower (y # ys) \<longleftrightarrow> to_lower [x] = to_lower [y] \<and> to_lower xs = to_lower ys"
  by (simp add: to_lower_def)

definition slashes :: "string \<Rightarrow> bool" where
  "slashes s \<longleftrightarrow> list_all (\<lambda>c. c = CHR ''/'') s"

lemma rx_literal:
  "rx_match True (map RChar w @ [REnd]) t =
     (if length w \<le> length t \<and> to_lower (take (length w) t) = to_lower w \<and> slashes (drop (length w) t)
      then [([], [])] else [])"
proof (induction w arbitrary: t)
  case (Cons c w)
  note IH = Cons.IH
  show ?case
  proof (cases t)
    case (Cons x xs)
    show ?thesis
      by (simp add: Cons IH char_eq_ci to_lower_eq_Cons [of x "take (length w) xs" c w])
  qed simp
qed (simp add: slashes_def)

lemma drop_trailing_split:
  obtains s where "t = drop_trailing t @ s" "slashes s"
proof -
  let ?w = "takeWhile (\<lambda>c. c = CHR ''/'') (rev t)"
  have "rev t = ?w @ dropWhile (\<lambda>c. c = CHR ''/'') (rev t)" by simp
  then have "t = drop_trailing t @ rev ?w"
    unfolding drop_trailing_def by (metis rev_append rev_rev_ident)
  moreover have "slashes (rev ?w)" by (auto simp: slashes_def list_all_iff dest: set_takeWhileD)
  ultimately show ?thesis using that by blast
qed

lemma drop_trailing_slashes:
  "slashes s \<Longrightarrow> u = [] \<or> last u \<noteq> CHR ''/'' \<Longrightarrow> drop_trailing (u @ s) = u"
proof (induction s rule: rev_induct)
  case Nil
  then show ?case by (cases u rule: rev_cases) (auto simp: drop_trailing_def)
next
  case (snoc x xs)
  then show ?case by (simp add: drop_trailing_def slashes_def)
qed

lemma last_to_lower: "u \<noteq> [] \<Longrightarrow> last (to_lower u) = hd (to_lower [last u])"
  by (simp add: to_lower_def last_map)

lemma slash_lower: "hd (to_lower [x]) = CHR ''/'' \<longleftrightarrow> x = CHR ''/''"
proof -
  have "char_of (n + 32) \<noteq> CHR ''/''" if "65 \<le> n" "n \<le> 90" for n :: nat
  proof
    assume "char_of (n + 32) = CHR ''/''"
    then have "of_char (char_of (n + 32)) = (of_char (CHR ''/'') :: nat)" by simp
    then show False using that by (simp add: of_char_of)
  qed
  then show ?thesis by (auto simp: to_lower_def Let_def)
qed

lemma literal_iff:
  assumes "w \<noteq> []" "last w \<noteq> CHR ''/''"
  shows "length w \<le> length t \<and> to_lower (take (length w) t) = to_lower w \<and> slashes (drop (length w) t)
    \<longleftrightarrow> to_lower (drop_trailing t) = to_lower w"
proof
  assume a: "length w \<le> length t \<and> to_lower (take (length w) t) = to_lower w \<and> slashes (drop (length w) t)"
  let ?u = "take (length w) t"
  have "?u \<noteq> []" using a assms(1) by auto
  moreover from this have "last ?u \<noteq> CHR ''/''"
    using a assms last_to_lower [of ?u] last_to_lower [of w] slash_lower by metis
  ultimately have "drop_trailing (?u @ drop (length w) t) = ?u" using a by (intro drop_trailing_slashes) auto
  then show "to_lower (drop_trailing t) = to_lower w" using a by simp
next
  assume a: "to_lower (drop_trailing t) = to_lower w"
  obtain s where s: "t = drop_trailing t @ s" "slashes s" by (rule drop_trailing_split)
  have n: "length w = length (drop_trailing t)" by (metis a length_to_lower)
  have "take (length w) t = drop_trailing t" "drop (length w) t = s" "length w \<le> length t"
    using arg_cong [OF s(1), of "take (length w)"] arg_cong [OF s(1), of "drop (length w)"]
      arg_cong [OF s(1), of length] n by simp_all
  then show "length w \<le> length t \<and> to_lower (take (length w) t) = to_lower w \<and> slashes (drop (length w) t)"
    using a s(2) by simp
qed

lemma slashes_iff: "slashes t \<longleftrightarrow> drop_trailing t = []"
proof
  assume "slashes t"
  then show "drop_trailing t = []" using drop_trailing_slashes [of t "[]"] by simp
next
  assume "drop_trailing t = []"
  then show "slashes t" by (metis append_Nil drop_trailing_split)
qed

section \<open>The branches of the application\<close>

definition layout_meta :: "page meta" where
  "layout_meta = route_meta (hd app_routes) 0 None"

definition child_meta :: "nat \<Rightarrow> page meta" where
  "child_meta k = route_meta (r_children (hd app_routes) ! k) k None"

definition child_branch :: "nat \<Rightarrow> string \<Rightarrow> int \<Rightarrow> page branch" where
  "child_branch k p n = \<lparr>b_path = p, b_score = n, b_routesMeta = [layout_meta, child_meta k]\<rparr>"

lemmas route_eval = Let_def route_variants_def route_meta_def joinPaths_def computeScore_def
  segment_score_def is_dynamic_def

lemma app_branches:
  "flattenRoutes app_routes 0 [] [] False =
     Inr [child_branch 0 ''/'' 6, child_branch 1 ''/queues'' 13, child_branch 2 ''/jobs'' 13,
          child_branch 3 ''/workers'' 13, child_branch 4 ''/dead-letter'' 13, child_branch 5 ''/settings'' 13]"
  by (simp add: app_routes_def route_eval child_branch_def layout_meta_def child_meta_def)

lemma app_ranked:
  "rankRouteBranches [child_branch 0 ''/'' 6, child_branch 1 ''/queues'' 13, child_branch 2 ''/jobs'' 13,
          child_branch 3 ''/workers'' 13, child_branch 4 ''/dead-letter'' 13, child_branch 5 ''/settings'' 13]
   = [child_branch 1 ''/queues'' 13, child_branch 2 ''/jobs'' 13, child_branch 3 ''/workers'' 13,
      child_branch 4 ''/dead-letter'' 13, child_branch 5 ''/settings'' 13, child_branch 0 ''/'' 6]"
  by (simp add: rankRouteBranches_def sort_by_def compareBranches_def compareIndexes_def child_branch_def
      layout_meta_def child_meta_def route_meta_def)

lemma pattern_literal:
  "CHR ''?'' \<notin> set w \<Longrightarrow> CHR '':'' \<notin> set w \<Longrightarrow> pattern_atoms f w = Some (map RChar w, [])"
proof (induction w arbitrary: f)
  case (Cons c r)
  have "hd (dropWhile is_name r) \<noteq> CHR ''?''" if "dropWhile is_name r \<noteq> []"
    using that Cons.prems(1) by (metis hd_in_set list.set_intros(2) set_dropWhileD)
  moreover have "r = [] \<or> hd r \<noteq> CHR '':''" using Cons.prems(2) by (cases r) auto
  ultimately show ?case using Cons by (subst pattern_atoms.simps) auto
qed (simp add: pattern_atoms.simps)

definition plain :: "string \<Rightarrow> bool" where
  "plain w \<longleftrightarrow> CHR ''?'' \<notin> set w \<and> CHR '':'' \<notin> set w \<and> CHR ''*'' \<notin> set w \<and> CHR ''/'' \<notin> set w"

lemma plain_trim: "CHR ''/'' \<notin> set w \<Longrightarrow> drop_trailing w = w \<and> drop_leading w = w"
proof -
  assume "CHR ''/'' \<notin> set w"
  then have "w = [] \<or> hd w \<noteq> CHR ''/''" "w = [] \<or> last w \<noteq> CHR ''/''"
    by (metis hd_in_set, metis last_in_set)
  then show ?thesis
    using drop_trailing_slashes [of "[]" w] by (cases w) (auto simp: drop_leading_def slashes_def)
qed

lemma compile_plain:
  assumes "plain w"
  shows "compilePath w f True = Some (map RChar (CHR ''/'' # w) @ [REnd], [])"
    "compilePath w f False = Some (map RChar (CHR ''/'' # w) @ (if w = [] then [] else [RLook]), [])"
proof -
  have e: "\<not> ends_with w ''*''" "w \<noteq> ''/''" using assms by (auto simp: ends_with_iff plain_def)
  have "CHR ''/'' # drop_leading (drop_star w) = CHR ''/'' # w"
    using assms e plain_trim by (simp add: drop_star_def plain_def)
  moreover have "pattern_atoms True (CHR ''/'' # w) = Some (map RChar (CHR ''/'' # w), [])"
    using assms by (intro pattern_literal) (auto simp: plain_def)
  ultimately show "compilePath w f True = Some (map RChar (CHR ''/'' # w) @ [REnd], [])"
    "compilePath w f False = Some (map RChar (CHR ''/'' # w) @ (if w = [] then [] else [RLook]), [])"
    using e by (simp_all add: compilePath_def)
qed

lemma matchPath_plain:
  assumes "plain w" "w \<noteq> []"
  shows "(matchPath w False True t \<noteq> None) \<longleftrightarrow> to_lower (drop_trailing t) = to_lower (CHR ''/'' # w)"
proof -
  have l: "last (CHR ''/'' # w) \<noteq> CHR ''/''" using assms last_in_set [OF assms(2)] by (metis plain_def last_ConsR)
  show ?thesis
    unfolding matchPath_def compile_plain(1) [OF assms(1)] option.case prod.case not_False_eq_True rx_literal
    using literal_iff [OF _ l, of t] by (simp add: Let_def)
qed

lemma matchPath_index:
  assumes "starts_with t ''/''"
  shows "(matchPath [] False True t \<noteq> None) \<longleftrightarrow> drop_trailing t = []"
proof -
  obtain r where t: "t = CHR ''/'' # r" using assms by (auto simp: starts_with_iff)
  have "plain []" by (simp add: plain_def)
  moreover have "slashes r = slashes t" by (simp add: t slashes_def)
  ultimately show ?thesis
    unfolding matchPath_def using compile_plain(1) [of "[]" False] slashes_iff [of t]
    by (simp add: t char_eq_def slashes_def [symmetric] Let_def)
qed

lemma matchPath_layout:
  assumes "starts_with t ''/''"
  shows "matchPath [] False False t = Some \<lparr>pm_params = [], pm_pathname = ''/'', pm_pathnameBase = ''/''\<rparr>"
proof -
  obtain r where t: "t = CHR ''/'' # r" using assms by (auto simp: starts_with_iff)
  have "compilePath [] False False = Some ([RChar (CHR ''/'')], [])"
    using compile_plain(2) [of "[]" False] by (simp add: plain_def)
  then show ?thesis
    by (simp add: matchPath_def t char_eq_def trim_slashes_def drop_trailing_def Let_def)
qed

text \<open>The component and the element of a match.\<close>

definition match_el :: "page route_match \<Rightarrow> page option \<times> page option" where
  "match_el m = (x_Component (r_ext (rm_route m)), r_element (rm_route m))"

lemma branch_match:
  assumes "starts_with t ''/''"
  shows "map_option (map match_el) (matchRouteBranch (child_branch k p n) t False) =
    (if matchPath (m_relativePath (child_meta k)) (m_caseSensitive (child_meta k)) True t = None then None
     else Some [(None, Some PLayout), (x_Component (r_ext (m_route (child_meta k))), r_element (m_route (child_meta k)))])"
proof -
  have l: "m_relativePath layout_meta = []" "m_caseSensitive layout_meta = False"
    "r_element (m_route layout_meta) = Some PLayout" "x_Component (r_ext (m_route layout_meta)) = None"
    by (simp_all add: layout_meta_def route_meta_def app_routes_def app_ext_def)
  show ?thesis
    by (auto simp: matchRouteBranch_def child_branch_def l matchPath_layout [OF assms] Let_def joinPaths_def match_el_def
        split: option.splits)
qed

lemma child_meta_paths:
  "m_relativePath (child_meta 0) = []" "m_relativePath (child_meta 1) = ''queues''"
  "m_relativePath (child_meta 2) = ''jobs''" "m_relativePath (child_meta 3) = ''workers''"
  "m_relativePath (child_meta 4) = ''dead-letter''" "m_relativePath (child_meta 5) = ''settings''"
  by (simp_all add: child_meta_def route_meta_def app_routes_def)

lemma child_meta_elements:
  "r_element (m_route (child_meta 0)) = Some PDashboard" "r_element (m_route (child_meta 1)) = Some PQueues"
  "r_element (m_route (child_meta 2)) = Some PJobs" "r_element (m_route (child_meta 3)) = Some PWorkers"
  "r_element (m_route (child_meta 4)) = Some PDeadLetter" "r_element (m_route (child_meta 5)) = Some PSettings"
  by (simp_all add: child_meta_def route_meta_def app_routes_def)

lemma child_meta_Component:
  "k \<le> 5 \<Longrightarrow> x_Component (r_ext (m_route (child_meta k))) = None"
  by (auto simp: child_meta_def route_meta_def app_routes_def app_ext_def numeral_eq_Suc le_Suc_eq)

lemma child_meta_case:
  "k \<le> 5 \<Longrightarrow> m_caseSensitive (child_meta k) = False"
  by (auto simp: child_meta_def route_meta_def app_routes_def numeral_eq_Suc le_Suc_eq)

lemma first_match_map:
  "map_option f (first_match (b # bs) t i) =
     (case map_option f (matchRouteBranch b t i) of Some y \<Rightarrow> Some y | None \<Rightarrow> map_option f (first_match bs t i))"
  by (simp split: option.split)

lemma low_literals:
  "to_lower ''/queues'' = ''/queues''" "to_lower ''/jobs'' = ''/jobs''" "to_lower ''/workers'' = ''/workers''"
  "to_lower ''/dead-letter'' = ''/dead-letter''" "to_lower ''/settings'' = ''/settings''"
  by code_simp+

lemma app_first_match:
  assumes "starts_with t ''/''"
  shows "map_option (map match_el)
      (first_match [child_branch 1 ''/queues'' 13, child_branch 2 ''/jobs'' 13, child_branch 3 ''/workers'' 13,
         child_branch 4 ''/dead-letter'' 13, child_branch 5 ''/settings'' 13, child_branch 0 ''/'' 6] t False)
    = map_option (\<lambda>p. [(None, Some PLayout), (None, Some p)]) (page_at t)"
proof -
  have p: "plain ''queues''" "plain ''jobs''" "plain ''workers''" "plain ''dead-letter''" "plain ''settings''"
    by (simp_all add: plain_def)
  have e: "to_lower (drop_trailing t) = [] \<longleftrightarrow> drop_trailing t = []" by (simp add: to_lower_def)
  show ?thesis
    unfolding first_match_map branch_match [OF assms] child_meta_paths child_meta_elements
    using matchPath_plain [OF p(1), of t] matchPath_plain [OF p(2), of t] matchPath_plain [OF p(3), of t]
      matchPath_plain [OF p(4), of t] matchPath_plain [OF p(5), of t] matchPath_index [OF assms] e
    by (simp add: child_meta_case child_meta_Component low_literals page_at_def) (auto split: if_splits)
qed

section \<open>What a location shows\<close>

lemma decodePath_slash: "starts_with (decodePath (CHR ''/'' # x)) ''/''"
proof (cases "decode_segments (split_on (CHR ''/'') x)")
  case None
  then show ?thesis by (simp add: decodePath_def)
next
  case (Some ts)
  then have "ts \<noteq> []" by (cases "split_on (CHR ''/'') x") (auto split: option.splits)
  then show ?thesis using Some by (simp add: decodePath_def slash_back_def join_with_Cons)
qed

lemma app_base: "router_basename app_basename = app_basename" "app_basename \<noteq> ''/''" "\<not> ends_with app_basename ''/''"
  by (simp_all add: app_basename_def router_basename_def drop_leading_def ends_with_def)

lemma app_location:
  assumes "router_location app_basename w = Some l"
  obtains x where "l_pathname l = CHR ''/'' # x"
  using assms stripBasename_split [OF app_base(2,3), of "l_pathname w"]
  by (fastforce simp: router_location_def app_base(1) starts_with_iff)

lemma app_rendered:
  assumes "router_location app_basename w = Some l"
  shows "rendered enc app_routes app_basename w =
    Inr (case page_at (decodePath (l_pathname l)) of None \<Rightarrow> [] | Some p \<Rightarrow> [PLayout, p])"
proof -
  obtain x where x: "l_pathname l = CHR ''/'' # x" using app_location [OF assms] .
  let ?bs = "[child_branch 1 ''/queues'' 13, child_branch 2 ''/jobs'' 13, child_branch 3 ''/workers'' 13,
         child_branch 4 ''/dead-letter'' 13, child_branch 5 ''/settings'' 13, child_branch 0 ''/'' 6]"
  let ?m = "first_match ?bs (decodePath (l_pathname l)) False"
  have u: "matchRoutes app_routes \<lparr>p_pathname = Some (l_pathname l), p_search = None, p_hash = None\<rparr> ''/'' = Inr ?m"
    by (simp add: matchRoutes_def matchRoutesImpl_def x stripBasename_def app_branches app_ranked
        del: first_match.simps One_nat_def)
  have f: "map_option (map match_el) ?m
      = map_option (\<lambda>p. [(None, Some PLayout), (None, Some p)]) (page_at (decodePath (l_pathname l)))"
    by (rule app_first_match) (simp add: x decodePath_slash)
  show ?thesis
  proof (cases ?m)
    case None
    then have "page_at (decodePath (l_pathname l)) = None" using f by simp
    then show ?thesis using u None
      by (simp add: rendered_def assms useRoutes_def plain_location_def Let_def renderMatches_def x del: first_match.simps)
  next
    case (Some ms)
    from f [unfolded Some] obtain p
      where p: "page_at (decodePath (l_pathname l)) = Some p" "map match_el ms = [(None, Some PLayout), (None, Some p)]"
      by (cases "page_at (decodePath (l_pathname l))") auto
    from p(2) obtain a b where ms: "ms = [a, b]" "match_el a = (None, Some PLayout)" "match_el b = (None, Some p)" by auto
    show ?thesis using u ms(2,3) unfolding Some ms(1)
      by (simp add: rendered_def assms useRoutes_def plain_location_def Let_def renderMatches_def x p(1) [unfolded x] match_el_def
          route_view_def)
  qed
qed

lemma app_routes_created: "createRoutes app_children 0 [] = Inr app_routes"
  by code_simp

text \<open>C17: Every location below the basename shows the page its path names and no other. Trailing slashes, the
  case of the letters and percent-encoding do not matter; a path that names no page shows
  nothing, and so does every location outside \<open>/ojs/admin\<close>.\<close>

theorem app_shows_page:
  "createRoutes app_children 0 [] = Inr app_routes
   \<and> rendered enc app_routes app_basename w =
      Inr (case router_location app_basename w of
             None \<Rightarrow> []
           | Some l \<Rightarrow> (case page_at (decodePath (l_pathname l)) of None \<Rightarrow> [] | Some p \<Rightarrow> [PLayout, p]))"
proof (cases "router_location app_basename w")
  case None
  then show ?thesis by (simp add: rendered_def app_routes_created)
next
  case (Some l)
  then show ?thesis using app_rendered [OF Some] by (simp add: app_routes_created)
qed

section \<open>The links of the sidebar\<close>

definition nav_page :: "nav_item \<Rightarrow> page" where
  "nav_page t = the (page_at (nav_to t))"

definition at_path :: "string \<Rightarrow> location" where
  "at_path p = \<lparr>l_pathname = p, l_search = [], l_hash = []\<rparr>"

lemma nav_items: "t \<in> set zP \<Longrightarrow> nav_to t \<in> {''/'', ''/queues'', ''/jobs'', ''/workers'', ''/dead-letter'', ''/settings''}"
  by (auto simp: zP_def)

lemma useHref_absolute: "starts_with to ''/'' \<Longrightarrow> useHref rel b to ms cur = useHref False b to [] ''/''"
  unfolding useHref_def useResolvedPath_def using resolveTo_absolute by metis

lemma nav_href:
  assumes "p \<in> {''/'', ''/queues'', ''/jobs'', ''/workers'', ''/dead-letter'', ''/settings''}"
  shows "useHref False app_basename p [] ''/'' = app_basename @ (if p = ''/'' then [] else p)"
proof -
  have "useHref False app_basename ''/'' [] ''/'' = app_basename"
    "useHref False app_basename ''/queues'' [] ''/'' = app_basename @ ''/queues''"
    "useHref False app_basename ''/jobs'' [] ''/'' = app_basename @ ''/jobs''"
    "useHref False app_basename ''/workers'' [] ''/'' = app_basename @ ''/workers''"
    "useHref False app_basename ''/dead-letter'' [] ''/'' = app_basename @ ''/dead-letter''"
    "useHref False app_basename ''/settings'' [] ''/'' = app_basename @ ''/settings''"
    by code_simp+
  then show ?thesis using assms by auto
qed

lemma nav_rendered:
  assumes "p \<in> {''/'', ''/queues'', ''/jobs'', ''/workers'', ''/dead-letter'', ''/settings''}"
  shows "rendered enc app_routes app_basename (at_path (app_basename @ (if p = ''/'' then [] else p)))
    = Inr [PLayout, the (page_at p)]"
proof -
  have "map_option l_pathname (router_location app_basename (at_path app_basename)) = Some ''/''"
    "map_option l_pathname (router_location app_basename (at_path (app_basename @ ''/queues''))) = Some ''/queues''"
    "map_option l_pathname (router_location app_basename (at_path (app_basename @ ''/jobs''))) = Some ''/jobs''"
    "map_option l_pathname (router_location app_basename (at_path (app_basename @ ''/workers''))) = Some ''/workers''"
    "map_option l_pathname (router_location app_basename (at_path (app_basename @ ''/dead-letter''))) = Some ''/dead-letter''"
    "map_option l_pathname (router_location app_basename (at_path (app_basename @ ''/settings''))) = Some ''/settings''"
    "page_at (decodePath ''/'') = Some PDashboard" "page_at (decodePath ''/queues'') = Some PQueues"
    "page_at (decodePath ''/jobs'') = Some PJobs" "page_at (decodePath ''/workers'') = Some PWorkers"
    "page_at (decodePath ''/dead-letter'') = Some PDeadLetter" "page_at (decodePath ''/settings'') = Some PSettings"
    "page_at ''/'' = Some PDashboard" "page_at ''/queues'' = Some PQueues" "page_at ''/jobs'' = Some PJobs"
    "page_at ''/workers'' = Some PWorkers" "page_at ''/dead-letter'' = Some PDeadLetter" "page_at ''/settings'' = Some PSettings"
    by code_simp+
  then show ?thesis using assms by (auto dest!: app_rendered)
qed

theorem matchRoutes_best_witness:
  "\<exists>b. matchRouteBranch b (decodePath ''/Jobs/'') False \<noteq> None \<and> b_score (child_branch 2 ''/jobs'' 13) \<le> b_score b
     \<and> b \<in> set [child_branch 0 ''/'' 6, child_branch 1 ''/queues'' 13, child_branch 2 ''/jobs'' 13,
          child_branch 3 ''/workers'' 13, child_branch 4 ''/dead-letter'' 13, child_branch 5 ''/settings'' 13]"
proof -
  let ?p = "\<lparr>p_pathname = Some ''/Jobs/'', p_search = None, p_hash = None\<rparr>"
  let ?j = "child_branch 2 ''/jobs'' 13"
  obtain r where r: "matchRoutes app_routes ?p ''/'' = Inr r"
    by (simp add: matchRoutes_def matchRoutesImpl_def stripBasename_def app_branches)
  have d: "decodePath ''/Jobs/'' = ''/Jobs/''" by code_simp
  have "map_option (map match_el) (matchRouteBranch ?j ''/Jobs/'' False) \<noteq> None"
    unfolding branch_match [of "''/Jobs/''", simplified] by code_simp
  then have j: "matchRouteBranch ?j (decodePath ''/Jobs/'') False \<noteq> None" by (auto simp: d)
  show ?thesis using matchRoutes_best [OF app_branches r] j by (cases r) auto
qed

lemma nav_resolve:
  assumes "p \<in> {''/'', ''/queues'', ''/jobs'', ''/workers'', ''/dead-letter'', ''/settings''}"
  shows "resolveTo p ms cur i = at_path p \<and> below (router_basename app_basename) p = app_basename @ (if p = ''/'' then [] else p)"
proof -
  have "resolveTo ''/'' [] [] False = at_path ''/''" "resolveTo ''/queues'' [] [] False = at_path ''/queues''"
    "resolveTo ''/jobs'' [] [] False = at_path ''/jobs''" "resolveTo ''/workers'' [] [] False = at_path ''/workers''"
    "resolveTo ''/dead-letter'' [] [] False = at_path ''/dead-letter''" "resolveTo ''/settings'' [] [] False = at_path ''/settings''"
    "below (router_basename app_basename) ''/'' = app_basename"
    "below (router_basename app_basename) ''/queues'' = app_basename @ ''/queues''"
    "below (router_basename app_basename) ''/jobs'' = app_basename @ ''/jobs''"
    "below (router_basename app_basename) ''/workers'' = app_basename @ ''/workers''"
    "below (router_basename app_basename) ''/dead-letter'' = app_basename @ ''/dead-letter''"
    "below (router_basename app_basename) ''/settings'' = app_basename @ ''/settings''"
    by code_simp+
  moreover have "starts_with p ''/''" using assms by (auto simp: starts_with_def)
  ultimately show ?thesis using assms resolveTo_absolute [of p ms cur i "[]" "[]" False] by auto
qed

text \<open>The links of the sidebar work from every page: whatever the current location and its matches, the
  address of an entry is its path below the basename, and following it shows the layout with the
  page of that entry.\<close>

lemma nav_address:
  "t \<in> set zP \<Longrightarrow> useHref rel app_basename (nav_to t) ms cur = app_basename @ (if nav_to t = ''/'' then [] else nav_to t)"
proof -
  assume "t \<in> set zP"
  then have n: "nav_to t \<in> {''/'', ''/queues'', ''/jobs'', ''/workers'', ''/dead-letter'', ''/settings''}"
    by (rule nav_items)
  then have "starts_with (nav_to t) ''/''" by (auto simp: starts_with_def)
  then show ?thesis using useHref_absolute [of "nav_to t" rel app_basename ms cur] nav_href [OF n] by simp
qed

lemma nav_links_lead:
  assumes "t \<in> set zP"
  shows "rendered enc app_routes app_basename (at_path (useHref rel app_basename (nav_to t) ms cur)) = Inr [PLayout, nav_page t]"
proof -
  have n: "nav_to t \<in> {''/'', ''/queues'', ''/jobs'', ''/workers'', ''/dead-letter'', ''/settings''}"
    by (rule nav_items [OF assms])
  have "list_all (\<lambda>t. page_at (nav_to t) \<noteq> None) zP" by code_simp
  then show ?thesis
    unfolding nav_address [OF assms] using nav_rendered [OF n] assms by (auto simp: list_all_iff nav_page_def)
qed

text \<open>The \<open>NavLink\<close> of an entry, as the sidebar \<open>UP\<close> writes it, and the anchor it becomes.\<close>

definition nav_entry :: "nav_item \<Rightarrow> 'u nav_props" where
  "nav_entry t =
     \<lparr>nl_ariaCurrent = None, nl_caseSensitive = False,
      nl_className = NavFun (\<lambda>k. ''flex items-center gap-2 px-4 py-2 text-sm '' @
        (if ns_isActive k then ''bg-blue-50 dark:bg-blue-950 text-blue-700 dark:text-blue-300 font-medium border-r-2 border-blue-600''
         else ''text-gray-600 dark:text-gray-400 hover:bg-gray-50 dark:hover:bg-gray-800'')),
      nl_end = (nav_to t = ''/''), nl_style = NavValue None, nl_viewTransition = False,
      nl_children = NavValue [jsx ''span'' [cls ''text-base''] [NStr (nav_icon t)], NStr (nav_label t)],
      nl_link = \<lparr>lk_onClick = None, lk_discover = None, lk_prefetch = None, lk_relative = None, lk_reloadDocument = False,
        lk_target = None, lk_to = nav_to t, lk_rest = [], lk_children = []\<rparr>\<rparr>"

lemma nav_entry_simps [simp]:
  "lk_to (nl_link (nav_entry t)) = nav_to t" "lk_onClick (nl_link (nav_entry t)) = None"
  "\<not> lk_reloadDocument (nl_link (nav_entry t))" "nl_ariaCurrent (nav_entry t) = None"
  by (simp_all add: nav_entry_def)

definition sidebar_anchor :: "link_env \<Rightarrow> nav_item \<Rightarrow> 'u link_action node" where
  "sidebar_anchor env t = Link env False pf_init (NavLink None None env (nav_entry t))"

lemma nav_entry_active:
  assumes "t \<in> set zP" "u \<in> set zP" "le_pathname env = nav_to u"
  shows "ns_isActive (nav_link_state None None env (nav_entry t)) \<longleftrightarrow> t = u"
proof -
  have "nav_to t \<in> {''/'', ''/queues'', ''/jobs'', ''/workers'', ''/dead-letter'', ''/settings''}"
    by (rule nav_items [OF assms(1)])
  then have r: "l_pathname (resolveTo (nav_to t) ms cur i) = nav_to t" for ms cur i
    using nav_resolve by (simp add: at_path_def)
  have "list_all (\<lambda>t. list_all (\<lambda>u. nav_active False (nav_to t = ''/'') (nav_to u) (nav_to t) = (nav_to t = nav_to u)) zP) zP"
    by code_simp
  then have "nav_active False (nav_to t = ''/'') (nav_to u) (nav_to t) = (nav_to t = nav_to u)"
    using assms(1,2) by (simp add: list_all_iff)
  moreover have "inj_on nav_to (set zP)" by (simp add: zP_def)
  then have "(nav_to t = nav_to u) = (t = u)" using assms(1,2) by (rule inj_on_eq_iff)
  ultimately show ?thesis
    by (simp add: nav_link_state_def nav_entry_def useResolvedPath_def r assms(3) Let_def)
qed



section \<open>Following a link\<close>

text \<open>The history and the state of \<open>BrowserRouter\<close>. A click on an entry of the sidebar goes to the handler of
  its \<open>Link\<close>; what the history reports becomes the state.\<close>

record app_state =
  ap_history :: history
  ap_router :: router_state

definition app_start :: "history \<Rightarrow> app_state" where
  "app_start h = \<lparr>ap_history = h, ap_router = initial_router h\<rparr>"

definition app_notified :: "notification list \<Rightarrow> history \<Rightarrow> app_state \<Rightarrow> app_state" where
  "app_notified ns h s = \<lparr>ap_history = h, ap_router = fold on_notify ns (ap_router s)\<rparr>"

definition sidebar_click :: "(string \<Rightarrow> host_result) \<Rightarrow> string \<Rightarrow> string list \<Rightarrow> nav_item \<Rightarrow> click \<Rightarrow> app_state
    \<Rightarrow> click \<times> (history_error + app_state)" where
  "sidebar_click host random ms t ev s =
     (case router_location app_basename (rs_location (ap_router s)) of
        None \<Rightarrow> (ev, Inr s)
      | Some l \<Rightarrow>
          (let (ev', h, r) = linkClick False host random app_basename ms l True None None JNull (nav_to t) ev (ap_history s)
           in (ev', case r of Inl e \<Rightarrow> Inl e | Inr ns \<Rightarrow> Inr (app_notified ns h s))))"

definition app_go :: "int \<Rightarrow> app_state \<Rightarrow> app_state" where
  "app_go n s = (let (h, ns) = go n (ap_history s) in app_notified ns h s)"

definition app_shown :: "(string \<Rightarrow> string) option \<Rightarrow> app_state \<Rightarrow> routes_error + page list" where
  "app_shown enc s = rendered enc app_routes app_basename (rs_location (ap_router s))"

text \<open>The state shows the current entry.\<close>

definition in_sync :: "app_state \<Rightarrow> bool" where
  "in_sync s \<longleftrightarrow> rs_location (ap_router s) = getLocation (hi_browser (ap_history s))"

text \<open>The browser reads the address of an entry of the sidebar as that path.\<close>

definition host_reads_links :: "(string \<Rightarrow> host_result) \<Rightarrow> bool" where
  "host_reads_links host \<longleftrightarrow>
     (\<forall>t \<in> set zP. let p = app_basename @ (if nav_to t = ''/'' then [] else nav_to t) in host p = Accepted (at_path p))"

lemma getLocation_plain:
  "l_pathname (getLocation w) = l_pathname (en_location (current w))"
  "l_search (getLocation w) = l_search (en_location (current w))"
  "l_hash (getLocation w) = l_hash (en_location (current w))"
  by (simp_all add: getLocation_def createLocation_def Let_def)

lemma rendered_pathname:
  assumes "l_pathname a = l_pathname b"
  shows "rendered enc app_routes app_basename a = rendered enc app_routes app_basename b"
proof (cases "router_location app_basename a")
  case None
  then have "router_location app_basename b = None" using assms by (simp add: router_location_def)
  then show ?thesis using None by (simp add: rendered_def)
next
  case (Some l)
  then obtain l' where l': "router_location app_basename b = Some l'" "l_pathname l' = l_pathname l"
    using assms by (auto simp: router_location_def)
  show ?thesis unfolding app_rendered [OF Some] app_rendered [OF l'(1)] l'(2) ..
qed

lemma createPath_plain: "createPath \<lparr>p_pathname = Some p, p_search = Some [], p_hash = Some []\<rparr> = p"
  by (simp add: createPath_def truthy_str_def)

lemma push_plain:
  assumes "history_run host h" "host p = Accepted (at_path p)"
  shows "\<exists>h' ns. push host True random \<lparr>p_pathname = Some p, p_search = Some [], p_hash = Some []\<rparr> st h = (h', Inr ns)
    \<and> history_run host h' \<and> bw_assigned (hi_browser h') = bw_assigned (hi_browser h)
    \<and> ns = [\<lparr>nt_action = PUSH, nt_location = getLocation (hi_browser h'), nt_delta = INum 1\<rparr>]
    \<and> en_location (current (hi_browser h')) = at_path p"
proof -
  let ?to = "\<lparr>p_pathname = Some p, p_search = Some [], p_hash = Some []\<rparr>"
  have "hi_listening h" "bw_pos (hi_browser h) < length (bw_entries (hi_browser h))"
    using history_run_indexed [OF assms(1)] by (auto simp: indexed_def Let_def)
  moreover obtain h' r where e: "push host True random ?to st h = (h', r)" by fastforce
  ultimately have "\<exists>ns. r = Inr ns \<and> bw_assigned (hi_browser h') = bw_assigned (hi_browser h)
      \<and> ns = [\<lparr>nt_action = PUSH, nt_location = getLocation (hi_browser h'), nt_delta = INum 1\<rparr>]
      \<and> en_location (current (hi_browser h')) = at_path p"
    using assms(2)
    by (auto simp: push_def Let_def createLocation_def full_path_def createPath_plain notify_def pushState_def
        current_def nth_append)
  then show ?thesis using e history_run.pushed [OF assms(1)] by blast
qed

lemma replace_plain:
  assumes "history_run host h" "host p = Accepted (at_path p)"
  shows "\<exists>h' ns. replace_entry host True random \<lparr>p_pathname = Some p, p_search = Some [], p_hash = Some []\<rparr> st h = (h', Inr ns)
    \<and> history_run host h' \<and> length (bw_entries (hi_browser h')) = length (bw_entries (hi_browser h))
    \<and> ns = [\<lparr>nt_action = REPLACE, nt_location = getLocation (hi_browser h'), nt_delta = INum 0\<rparr>]
    \<and> en_location (current (hi_browser h')) = at_path p"
proof -
  let ?to = "\<lparr>p_pathname = Some p, p_search = Some [], p_hash = Some []\<rparr>"
  have "hi_listening h" "bw_pos (hi_browser h) < length (bw_entries (hi_browser h))"
    using history_run_indexed [OF assms(1)] by (auto simp: indexed_def Let_def)
  moreover obtain h' r where e: "replace_entry host True random ?to st h = (h', r)" by fastforce
  ultimately have "\<exists>ns. r = Inr ns \<and> length (bw_entries (hi_browser h')) = length (bw_entries (hi_browser h))
      \<and> ns = [\<lparr>nt_action = REPLACE, nt_location = getLocation (hi_browser h'), nt_delta = INum 0\<rparr>]
      \<and> en_location (current (hi_browser h')) = at_path p"
    using assms(2)
    by (auto simp: replace_entry_def Let_def createLocation_def full_path_def createPath_plain notify_def
        replaceState_def current_def)
  then show ?thesis using e history_run.replaced [OF assms(1)] by blast
qed

text \<open>C4: Following an entry of the sidebar. On whatever page the application is, after whatever navigation, a
  plain left click on an entry is handled without a page load and shows the layout with the page of that entry. If
  the entry leads elsewhere than the current location, the back button then shows again what was
  shown before the click; otherwise no history entry is added.\<close>

theorem sidebar_click_shows:
  assumes "history_run host (ap_history s)" and "in_sync s" and "host_reads_links host" and "t \<in> set zP"
    and "router_location app_basename (rs_location (ap_router s)) = Some l"
    and "shouldProcessLinkClick ev None" and "\<not> ck_defaultPrevented ev"
  shows "\<exists>s'. sidebar_click host random ms t ev s = (ev\<lparr>ck_defaultPrevented := True\<rparr>, Inr s')
    \<and> history_run host (ap_history s') \<and> in_sync s' \<and> app_shown enc s' = Inr [PLayout, nav_page t]
    \<and> (if same_place l (at_path (nav_to t))
       then length (bw_entries (hi_browser (ap_history s'))) = length (bw_entries (hi_browser (ap_history s)))
       else app_shown enc (app_go (-1) s') = app_shown enc s)"
proof -
  let ?p = "app_basename @ (if nav_to t = ''/'' then [] else nav_to t)"
  note n = nav_items [OF assms(4)]
  have a: "host ?p = Accepted (at_path ?p)" using assms(3,4) by (auto simp: host_reads_links_def Let_def)
  have shown: "rendered enc app_routes app_basename (getLocation w) = Inr [PLayout, nav_page t]"
    if "en_location (current w) = at_path ?p" for w
    using rendered_pathname [of "getLocation w" "at_path ?p" enc] nav_rendered [OF n, of enc] that
    by (simp add: getLocation_plain at_path_def nav_page_def)
  show ?thesis
  proof (cases "same_place l (at_path (nav_to t))")
    case True
    from replace_plain [OF assms(1) a] obtain h' ns
      where r: "replace_entry host True random \<lparr>p_pathname = Some ?p, p_search = Some [], p_hash = Some []\<rparr> JNull (ap_history s) = (h', Inr ns)"
      "history_run host h'" "length (bw_entries (hi_browser h')) = length (bw_entries (hi_browser (ap_history s)))"
      "ns = [\<lparr>nt_action = REPLACE, nt_location = getLocation (hi_browser h'), nt_delta = INum 0\<rparr>]"
      "en_location (current (hi_browser h')) = at_path ?p" by blast
    then show ?thesis using assms True
      by (auto simp: sidebar_click_def linkClick_def navigate_def useResolvedPath_def nav_resolve [OF n] at_path_def app_notified_def
          on_notify_def in_sync_def app_shown_def shown Let_def)
  next
    case False
    from push_plain [OF assms(1) a] obtain h' ns
      where r: "push host True random \<lparr>p_pathname = Some ?p, p_search = Some [], p_hash = Some []\<rparr> JNull (ap_history s) = (h', Inr ns)"
      "history_run host h'" "bw_assigned (hi_browser h') = bw_assigned (hi_browser (ap_history s))"
      "ns = [\<lparr>nt_action = PUSH, nt_location = getLocation (hi_browser h'), nt_delta = INum 1\<rparr>]"
      "en_location (current (hi_browser h')) = at_path ?p" by blast
    from go_back_pushed [OF assms(1) r(1,3)] obtain h2
      where g: "go (-1) h' = (h2, [\<lparr>nt_action = POP, nt_location = getLocation (hi_browser h2), nt_delta = INum (-1)\<rparr>])"
        "current (hi_browser h2) = current (hi_browser (ap_history s))" by blast
    show ?thesis using r g assms False
      by (auto simp: sidebar_click_def linkClick_def navigate_def useResolvedPath_def nav_resolve [OF n] at_path_def app_notified_def
          on_notify_def in_sync_def app_shown_def shown Let_def app_go_def getLocation_plain intro!: rendered_pathname)
  qed
qed

theorem sidebar_click_shows_witness:
  "\<exists>s s'. sidebar_click plain_host ''k'' [] (zP ! 2)
      \<lparr>ck_button = 0, ck_meta = False, ck_alt = False, ck_ctrl = False, ck_shift = False, ck_defaultPrevented = False\<rparr> s
      = (\<lparr>ck_button = 0, ck_meta = False, ck_alt = False, ck_ctrl = False, ck_shift = False, ck_defaultPrevented = True\<rparr>, Inr s')
    \<and> app_shown None s' = Inr [PLayout, PJobs] \<and> app_shown None (app_go (-1) s') = app_shown None s"
proof -
  let ?w = "\<lparr>bw_entries = [\<lparr>en_location = at_path ''/ojs/admin/queues'', en_state = None\<rparr>], bw_pos = 0, bw_assigned = []\<rparr>"
  let ?h = "(createHistory ?w)\<lparr>hi_listening := True\<rparr>"
  let ?s = "app_start ?h"
  let ?ev = "\<lparr>ck_button = 0, ck_meta = False, ck_alt = False, ck_ctrl = False, ck_shift = False, ck_defaultPrevented = False\<rparr>"
  have r: "history_run plain_host (ap_history ?s)"
    by (rule history_run.load [where n = "\<lparr>en_location = at_path ''/ojs/admin/queues'', en_state = None\<rparr>"])
      (simp_all add: app_start_def listen_def createHistory_def entry_index_def getIndex_def current_def idx_nullish_def)
  have "list_all (\<lambda>t. let p = app_basename @ (if nav_to t = ''/'' then [] else nav_to t) in plain_host p = Accepted (at_path p)) zP"
    by code_simp
  then have k: "host_reads_links plain_host" by (simp add: host_reads_links_def list_all_iff)
  have i: "in_sync ?s" by (simp add: in_sync_def app_start_def initial_router_def)
  have z: "zP ! 2 \<in> set zP" by (simp add: zP_def)
  have n: "nav_to (zP ! 2) = ''/jobs''" "nav_page (zP ! 2) = PJobs" by code_simp+
  have "map_option l_pathname (router_location app_basename (rs_location (ap_router ?s))) = Some ''/queues''"
    "map_option (\<lambda>l. same_place l (at_path ''/jobs'')) (router_location app_basename (rs_location (ap_router ?s))) = Some False"
    by code_simp+
  then obtain l where l: "router_location app_basename (rs_location (ap_router ?s)) = Some l" "\<not> same_place l (at_path ''/jobs'')"
    by auto
  have e: "shouldProcessLinkClick ?ev None" "\<not> ck_defaultPrevented ?ev"
    by (simp_all add: shouldProcessLinkClick_def isModifiedEvent_def)
  show ?thesis
    using sidebar_click_shows [OF r i k z l(1) e, of "''k''" "[]" None] l(2) n by auto
qed

end
