(* ===== verification/Admin_Entry.thy ===== *)
theory Admin_Entry
  imports Ui_Tree
begin

text \<open>
  The two entry files of the bundle: \<open>index.js\<close> preloads the modules the page names and
  mounts the dashboard on the page, and \<open>index2.js\<close> exports the function that mounts it
  elsewhere; and the function that joins class names (\<open>a8\<close> and \<open>Qt\<close> of the bundle).
\<close>

section \<open>Preloading modules\<close>

text \<open>An element of the page, with the attributes the script reads and the mark \<open>ep\<close> it sets. Nodes are
  numbered; a request has the address and the options of \<open>fetch\<close>.\<close>

record dom_el =
  de_tag :: string
  de_rel :: string
  de_href :: string
  de_integrity :: string
  de_referrerPolicy :: string
  de_crossOrigin :: string
  de_ep :: bool

record fetch_options =
  fo_integrity :: "string option"
  fo_referrerPolicy :: "string option"
  fo_credentials :: string

record document =
  dc_node :: "nat \<Rightarrow> dom_el"
  dc_fetched :: "(nat \<times> string \<times> fetch_options) list"

text \<open>The function \<open>n\<close>.\<close>

definition fetch_opts :: "dom_el \<Rightarrow> fetch_options" where
  "fetch_opts e =
     \<lparr>fo_integrity = (if de_integrity e \<noteq> [] then Some (de_integrity e) else None),
      fo_referrerPolicy = (if de_referrerPolicy e \<noteq> [] then Some (de_referrerPolicy e) else None),
      fo_credentials = (if de_crossOrigin e = ''use-credentials'' then ''include''
        else if de_crossOrigin e = ''anonymous'' then ''omit'' else ''same-origin'')\<rparr>"

text \<open>The function \<open>s\<close>, on the node \<open>e\<close>.\<close>

definition preload :: "nat \<Rightarrow> document \<Rightarrow> document" where
  "preload e d =
     (if de_ep (dc_node d e) then d
      else (let d1 = d\<lparr>dc_node := (dc_node d)(e := (dc_node d e)\<lparr>de_ep := True\<rparr>)\<rparr>
            in d1\<lparr>dc_fetched := dc_fetched d1 @ [(e, de_href (dc_node d1 e), fetch_opts (dc_node d1 e))]\<rparr>))"

definition is_preload :: "dom_el \<Rightarrow> bool" where
  "is_preload e \<longleftrightarrow> de_tag e = ''LINK'' \<and> de_rel e = ''modulepreload''"

text \<open>A record of the mutation observer: its type and the nodes that were added.\<close>

record mutation =
  mu_type :: string
  mu_added :: "nat list"

definition observed_node :: "nat \<Rightarrow> document \<Rightarrow> document" where
  "observed_node i d = (if is_preload (dc_node d i) then preload i d else d)"

definition observe :: "mutation list \<Rightarrow> document \<Rightarrow> document" where
  "observe e d = fold (\<lambda>r. if mu_type r = ''childList'' then fold observed_node (mu_added r) else id) e d"

text \<open>The script: \<open>supported\<close> says whether the browser preloads modules itself, \<open>found\<close> are the nodes of the
  query in the order of the document, and the last argument is what the observer reports from then on.\<close>

definition preload_script :: "bool \<Rightarrow> nat list \<Rightarrow> mutation list list \<Rightarrow> document \<Rightarrow> document" where
  "preload_script supported found rs d =
     (if supported then d else fold observe rs (fold preload found d))"

subsection \<open>What is requested\<close>

text \<open>The page after the nodes \<open>D\<close> have been requested, and the nodes that the observer reports as module
  preloads.\<close>

definition request_of :: "document \<Rightarrow> nat \<Rightarrow> nat \<times> string \<times> fetch_options" where
  "request_of d i = (i, de_href (dc_node d i), fetch_opts (dc_node d i))"

definition after :: "document \<Rightarrow> nat list \<Rightarrow> document" where
  "after d D = d\<lparr>dc_node := (\<lambda>i. if i \<in> set D then (dc_node d i)\<lparr>de_ep := True\<rparr> else dc_node d i),
     dc_fetched := map (request_of d) D\<rparr>"

definition reported :: "document \<Rightarrow> mutation list list \<Rightarrow> nat list" where
  "reported d rs = filter (\<lambda>i. is_preload (dc_node d i))
     (concat (map mu_added (filter (\<lambda>r. mu_type r = ''childList'') (concat rs))))"

definition fresh :: "document \<Rightarrow> bool" where
  "fresh d \<longleftrightarrow> dc_fetched d = [] \<and> (\<forall>i. \<not> de_ep (dc_node d i))"

definition add_new :: "nat \<Rightarrow> nat list \<Rightarrow> nat list" where
  "add_new i D = (if i \<in> set D then D else D @ [i])"

lemma fold_add_new: "set (fold add_new xs []) = set xs \<and> fold add_new xs [] = rev (remdups (rev xs))"
  by (induction xs rule: rev_induct) (auto simp: add_new_def)

lemma preload_after: "fresh d \<Longrightarrow> preload i (after d D) = after d (add_new i D)"
  by (auto simp: preload_def after_def add_new_def fresh_def request_of_def fetch_opts_def Let_def fun_eq_iff)

lemma fold_preload_after: "fresh d \<Longrightarrow> fold preload xs (after d D) = after d (fold add_new xs D)"
  by (induction xs arbitrary: D) (simp_all add: preload_after)

lemma observed_after:
  assumes "fresh d"
  shows "observed_node i (after d D) = after d (if is_preload (dc_node d i) then add_new i D else D)"
proof -
  have "is_preload (dc_node (after d D) i) = is_preload (dc_node d i)" by (simp add: after_def is_preload_def)
  then show ?thesis using assms by (simp add: observed_node_def preload_after)
qed

lemma fold_observed_after:
  "fresh d \<Longrightarrow> fold observed_node xs (after d D) = after d (fold add_new (filter (\<lambda>i. is_preload (dc_node d i)) xs) D)"
  by (induction xs arbitrary: D) (simp_all add: observed_after)

lemma fold_observe_after: "fresh d \<Longrightarrow> fold observe rs (after d D) = after d (fold add_new (reported d rs) D)"
proof (induction rs arbitrary: D)
  case (Cons e rs)
  have "observe e (after d D) = after d (fold add_new (reported d [e]) D)"
    using Cons.prems by (induction e arbitrary: D) (auto simp: observe_def reported_def fold_observed_after)
  moreover have "reported d (e # rs) = reported d [e] @ reported d rs" by (simp add: reported_def)
  ultimately show ?case using Cons by simp
qed (simp add: reported_def)

text \<open>C38: The preload script requests each module link exactly once. In a browser that does not preload modules itself,
  on a page whose links have not been handled, the requests are those of the links found at the start
  and of the links added later, each at its first appearance and with the options of its attributes,
  however often the observer reports a node.\<close>

theorem preload_once:
  assumes "fresh d"
  shows "dc_fetched (preload_script False found rs d) = map (request_of d) (rev (remdups (rev (found @ reported d rs))))"
proof -
  have "d = after d []" using assms by (simp add: after_def fresh_def)
  then have "preload_script False found rs d = after d (fold add_new (found @ reported d rs) [])"
    using fold_preload_after [OF assms, of found "[]"] fold_observe_after [OF assms] by (simp add: preload_script_def)
  then show ?thesis using fold_add_new [of "found @ reported d rs"] by (simp add: after_def)
qed

definition sample_link :: "nat \<Rightarrow> dom_el" where
  "sample_link i = \<lparr>de_tag = ''LINK'', de_rel = ''modulepreload'', de_href = ''/a'' @ show_nat i, de_integrity = [],
     de_referrerPolicy = [], de_crossOrigin = ''anonymous'', de_ep = False\<rparr>"

theorem preload_once_witness:
  "map fst (dc_fetched (preload_script False [2, 1] [[\<lparr>mu_type = ''childList'', mu_added = [3, 2, 3]\<rparr>]]
     \<lparr>dc_node = sample_link, dc_fetched = []\<rparr>)) = [2, 1, 3]"
proof -
  have "fresh \<lparr>dc_node = sample_link, dc_fetched = []\<rparr>" by (simp add: fresh_def sample_link_def)
  from preload_once [OF this, of "[2, 1]" "[[\<lparr>mu_type = ''childList'', mu_added = [3, 2, 3]\<rparr>]]"] show ?thesis
    by (simp add: reported_def is_preload_def sample_link_def request_of_def)
qed

section \<open>Mounting\<close>

record mount_options =
  mo_baseUrl :: "string option"
  mo_basename :: "string option"

text \<open>A root of React: what it shows.\<close>

type_synonym react_root = "unit node option"

definition root_render :: "unit node \<Rightarrow> react_root \<Rightarrow> react_root" where
  "root_render n r = Some n"

definition dashboard_el :: "string \<Rightarrow> string \<Rightarrow> unit node" where
  "dashboard_el url base = NElem ''Gre'' None [(''baseUrl'', AStr url), (''basename'', AStr base)] []"

text \<open>The end of \<open>index.js\<close>, and \<open>m\<close> of \<open>index2.js\<close>, with the function it returns.\<close>

definition page_root :: react_root where
  "page_root = root_render (NElem ''StrictMode'' None [] [dashboard_el [] ''/ojs/admin'']) None"

definition mountOJSAdmin :: "mount_options \<Rightarrow> react_root \<times> (react_root \<Rightarrow> react_root)" where
  "mountOJSAdmin e =
     (root_render (dashboard_el (nullish (mo_baseUrl e) []) (nullish (mo_basename e) ''/ojs/admin'')) None, \<lambda>_. None)"

section \<open>Class names\<close>

text \<open>An argument of \<open>Qt\<close>: a value with its truth value and, if it is a string or number, its text; an array;
  or an object with the truth values of its properties. \<open>COther\<close> is a value that contributes nothing.\<close>

datatype class_arg =
    CText string bool
  | CArr "class_arg list"
  | CObj "(string \<times> bool) list"
  | COther bool

fun class_truthy :: "class_arg \<Rightarrow> bool" where
  "class_truthy (CText s b) = b"
| "class_truthy (COther b) = b"
| "class_truthy _ = True"

definition add_class :: "string \<Rightarrow> string \<Rightarrow> string" where
  "add_class i a = (if i = [] then a else i @ '' '' @ a)"

text \<open>\<open>a8\<close> and \<open>Qt\<close> (\<open>clsx\<close>).\<close>

fun toVal :: "class_arg \<Rightarrow> string"
  and val_list :: "class_arg list \<Rightarrow> string \<Rightarrow> string" where
  "toVal (CText s b) = s"
| "toVal (CArr xs) = val_list xs []"
| "toVal (CObj ps) = foldl (\<lambda>i (a, b). if b then add_class i a else i) [] ps"
| "toVal (COther b) = []"
| "val_list [] i = i"
| "val_list (e # es) i =
     (let a = toVal e in val_list es (if class_truthy e \<and> a \<noteq> [] then add_class i a else i))"

definition clsx :: "class_arg list \<Rightarrow> string" where
  "clsx es = val_list es []"

text \<open>The classes an argument names, in order.\<close>

fun classes_of :: "class_arg \<Rightarrow> string list" where
  "classes_of (CText s b) = (if b \<and> s \<noteq> [] then [s] else [])"
| "classes_of (CArr xs) = concat (map classes_of xs)"
| "classes_of (CObj ps) = map fst (filter snd ps)"
| "classes_of (COther b) = []"

text \<open>\<open>clsx\<close> joins the named classes with single spaces.\<close>

fun named :: "class_arg \<Rightarrow> bool" where
  "named (CText s b) = True"
| "named (CArr xs) = list_all named xs"
| "named (CObj ps) = list_all (\<lambda>p. fst p \<noteq> []) ps"
| "named (COther b) = True"

definition classes :: "string list \<Rightarrow> string" where
  "classes ws = foldl add_class [] ws"

lemma add_class_Nil [simp]: "add_class [] a = a"
  by (simp add: add_class_def)

lemma add_class_assoc: "b \<noteq> [] \<Longrightarrow> add_class (add_class i b) c = (if i = [] then add_class b c else i @ '' '' @ add_class b c)"
  by (simp add: add_class_def)

lemma foldl_add_class:
  "b \<noteq> [] \<Longrightarrow> foldl add_class (add_class i b) ws = add_class i (foldl add_class b ws)"
proof (induction ws arbitrary: b)
  case (Cons w ws)
  have "add_class b w \<noteq> []" using Cons.prems by (simp add: add_class_def)
  moreover have "add_class (add_class i b) w = add_class i (add_class b w)"
    using Cons.prems by (simp add: add_class_def)
  ultimately show ?case using Cons.IH [of "add_class b w"] by simp
qed simp

lemma classes_nonempty:
  assumes "list_all (\<lambda>w. w \<noteq> []) ws"
  shows "classes ws = [] \<longleftrightarrow> ws = []"
proof -
  have n: "i \<noteq> [] \<Longrightarrow> foldl add_class i vs \<noteq> []" for i vs
    by (induction vs arbitrary: i) (simp_all add: add_class_def)
  show ?thesis using assms n [of "hd ws" "tl ws"] by (cases ws) (simp_all add: classes_def)
qed

lemma foldl_classes:
  "list_all (\<lambda>w. w \<noteq> []) ws \<Longrightarrow> foldl add_class i ws = (if classes ws = [] then i else add_class i (classes ws))"
  using classes_nonempty [of ws] foldl_add_class [of "hd ws" i "tl ws"]
  by (cases ws) (auto simp: classes_def)

lemma classes_of_named: "named e \<Longrightarrow> list_all (\<lambda>w. w \<noteq> []) (classes_of e)"
proof (induction e)
  case (CArr xs)
  then show ?case by (simp add: list_all_iff)
next
  case (CObj ps)
  then show ?case by (simp add: list_all_iff)
qed simp_all

lemma toVal_classes:
  "named e \<Longrightarrow> class_truthy e \<Longrightarrow> toVal e = classes (classes_of e)"
  "list_all named es \<Longrightarrow> val_list es i = foldl add_class i (concat (map classes_of es))"
proof (induction e and es i rule: toVal_val_list.induct)
  case (6 e es i)
  have f: "foldl add_class i (classes_of e) = (if classes (classes_of e) = [] then i else add_class i (classes (classes_of e)))"
    using 6 by (intro foldl_classes classes_of_named) simp
  show ?case
  proof (cases "class_truthy e")
    case True
    then show ?thesis using 6 f by (cases "classes (classes_of e) = []") (simp_all add: Let_def)
  next
    case False
    then have "classes_of e = []" by (cases e) auto
    then show ?thesis using 6 False by (simp add: Let_def)
  qed
next
  case (3 ps)
  have "foldl (\<lambda>i (a, b). if b then add_class i a else i) i ps = foldl add_class i (map fst (filter snd ps))" for i
    by (induction ps arbitrary: i) auto
  then show ?case by (simp add: classes_def)
qed (simp_all add: classes_def)

end
