(* ===== verification/Lodash_Cache.thy ===== *)
theory Lodash_Cache
  imports Prelude
begin

text \<open>
  The caches of lodash that the chart library uses: \<open>Hash\<close> (on the properties
  of an object), \<open>ListCache\<close> (on a list of pairs), \<open>MapCache\<close> (which splits its
  keys between two hashes and a \<open>Map\<close>), \<open>Stack\<close>, \<open>SetCache\<close>, and \<open>memoize\<close> on top of
  them. The locale \<open>cache\<close> is their common contract, a finite map.
\<close>

section \<open>Keys and values\<close>

text \<open>A key is a JavaScript value; of the numbers the integers and \<open>NaN\<close>. Objects and
  functions are their identity.\<close>

datatype jkey = KStr string | KNum int | KNaN | KBool bool | KNull | KUndefined | KSymbol nat | KObj nat

datatype 'v jval = Undefined | Str string | Val 'v

fun strict_eq :: "jkey \<Rightarrow> jkey \<Rightarrow> bool" where
  "strict_eq KNaN KNaN = False"
| "strict_eq a b = (a = b)"

text \<open>\<open>vM\<close>: \<open>t === a || t !== t && a !== a\<close>.\<close>

definition eq :: "jkey \<Rightarrow> jkey \<Rightarrow> bool" where
  "eq t a \<longleftrightarrow> strict_eq t a \<or> \<not> strict_eq t t \<and> \<not> strict_eq a a"

text \<open>The key of a property: strings and symbols; every other value is turned into a string.\<close>

datatype pkey = PStr string | PSym nat

fun to_pkey :: "jkey \<Rightarrow> pkey" where
  "to_pkey (KStr s) = PStr s"
| "to_pkey (KNum n) = PStr (show_int n)"
| "to_pkey KNaN = PStr ''NaN''"
| "to_pkey (KBool b) = PStr (if b then ''true'' else ''false'')"
| "to_pkey KNull = PStr ''null''"
| "to_pkey KUndefined = PStr ''undefined''"
| "to_pkey (KSymbol n) = PSym n"
| "to_pkey (KObj n) = PStr ''[object Object]''"

section \<open>Hash\<close>

text \<open>An object without a prototype; \<open>undefined\<close> is stored as a marker.\<close>

record 'v hash =
  h_data :: "(pkey \<times> 'v jval) list"
  h_size :: int

definition hash_undefined :: string where
  "hash_undefined = ''__lodash_hash_undefined__''"

fun put :: "'k \<Rightarrow> 'v \<Rightarrow> ('k \<times> 'v) list \<Rightarrow> ('k \<times> 'v) list" where
  "put k v [] = [(k, v)]"
| "put k v (p # ps) = (if fst p = k then (k, v) # ps else p # put k v ps)"

definition drop_key :: "'k \<Rightarrow> ('k \<times> 'v) list \<Rightarrow> ('k \<times> 'v) list" where
  "drop_key k ps = filter (\<lambda>p. fst p \<noteq> k) ps"

definition hashClear :: "'v hash" where
  "hashClear = \<lparr>h_data = [], h_size = 0\<rparr>"

definition prop_get :: "(pkey \<times> 'v jval) list \<Rightarrow> pkey \<Rightarrow> 'v jval" where
  "prop_get d k = (case map_of d k of None \<Rightarrow> Undefined | Some v \<Rightarrow> v)"

definition hashHas :: "'v hash \<Rightarrow> jkey \<Rightarrow> bool" where
  "hashHas h k \<longleftrightarrow> prop_get (h_data h) (to_pkey k) \<noteq> Undefined"

definition hashGet :: "'v hash \<Rightarrow> jkey \<Rightarrow> 'v jval" where
  "hashGet h k =
     (let y = prop_get (h_data h) (to_pkey k) in if y = Str hash_undefined then Undefined else y)"

definition hashDelete :: "'v hash \<Rightarrow> jkey \<Rightarrow> 'v hash \<times> bool" where
  "hashDelete h k =
     (if hashHas h k
      then (h\<lparr>h_data := drop_key (to_pkey k) (h_data h), h_size := h_size h - 1\<rparr>, True) else (h, False))"

definition hashSet :: "'v hash \<Rightarrow> jkey \<Rightarrow> 'v jval \<Rightarrow> 'v hash" where
  "hashSet h k v =
     \<lparr>h_data = put (to_pkey k) (if v = Undefined then Str hash_undefined else v) (h_data h),
      h_size = h_size h + (if hashHas h k then 0 else 1)\<rparr>"

text \<open>The constructors fill an empty cache with the given pairs.\<close>

definition new_hash :: "(jkey \<times> 'v jval) list \<Rightarrow> 'v hash" where
  "new_hash es = foldl (\<lambda>c (k, v). hashSet c k v) hashClear es"

section \<open>ListCache\<close>

record 'v list_cache =
  lc_data :: "(jkey \<times> 'v jval) list"
  lc_size :: int

definition listCacheClear :: "'v list_cache" where
  "listCacheClear = \<lparr>lc_data = [], lc_size = 0\<rparr>"

text \<open>\<open>D_\<close>: the search runs from the end.\<close>

fun assoc_loop :: "(jkey \<times> 'v) list \<Rightarrow> jkey \<Rightarrow> nat \<Rightarrow> int" where
  "assoc_loop a i 0 = -1"
| "assoc_loop a i (Suc c) = (if eq (fst (a ! c)) i then int c else assoc_loop a i c)"

definition assocIndexOf :: "(jkey \<times> 'v) list \<Rightarrow> jkey \<Rightarrow> int" where
  "assocIndexOf a i = assoc_loop a i (length a)"

definition listCacheDelete :: "'v list_cache \<Rightarrow> jkey \<Rightarrow> 'v list_cache \<times> bool" where
  "listCacheDelete c k =
     (let s = lc_data c; h = assocIndexOf s k
      in if h < 0 then (c, False)
         else (\<lparr>lc_data = (if h = int (length s) - 1 then butlast s else take (nat h) s @ drop (Suc (nat h)) s),
                lc_size = lc_size c - 1\<rparr>, True))"

definition listCacheGet :: "'v list_cache \<Rightarrow> jkey \<Rightarrow> 'v jval" where
  "listCacheGet c k =
     (let i = assocIndexOf (lc_data c) k in if i < 0 then Undefined else snd (lc_data c ! nat i))"

definition listCacheHas :: "'v list_cache \<Rightarrow> jkey \<Rightarrow> bool" where
  "listCacheHas c k \<longleftrightarrow> -1 < assocIndexOf (lc_data c) k"

definition listCacheSet :: "'v list_cache \<Rightarrow> jkey \<Rightarrow> 'v jval \<Rightarrow> 'v list_cache" where
  "listCacheSet c k v =
     (let s = assocIndexOf (lc_data c) k
      in if s < 0 then \<lparr>lc_data = lc_data c @ [(k, v)], lc_size = lc_size c + 1\<rparr>
         else c\<lparr>lc_data := (lc_data c)[nat s := (fst (lc_data c ! nat s), v)]\<rparr>)"

definition new_list_cache :: "(jkey \<times> 'v jval) list \<Rightarrow> 'v list_cache" where
  "new_list_cache es = foldl (\<lambda>c (k, v). listCacheSet c k v) listCacheClear es"

section \<open>MapCache\<close>

text \<open>The \<open>Map\<close> of the language: pairs in the order of insertion.\<close>

type_synonym 'v es_map = "(jkey \<times> 'v jval) list"

record 'v map_cache =
  mc_size :: int
  mc_hash :: "'v hash"
  mc_map :: "'v es_map"
  mc_string :: "'v hash"

definition mapCacheClear :: "'v map_cache" where
  "mapCacheClear = \<lparr>mc_size = 0, mc_hash = new_hash [], mc_map = [], mc_string = new_hash []\<rparr>"

definition isKeyable :: "jkey \<Rightarrow> bool" where
  "isKeyable k \<longleftrightarrow>
     (case k of KStr s \<Rightarrow> s \<noteq> ''__proto__'' | KNum _ \<Rightarrow> True | KNaN \<Rightarrow> True | KSymbol _ \<Rightarrow> True | KBool _ \<Rightarrow> True
      | KNull \<Rightarrow> True | _ \<Rightarrow> False)"

text \<open>\<open>z_\<close>: the part of the cache that holds a key.\<close>

datatype part = PartHash | PartMap | PartString

definition getMapData :: "jkey \<Rightarrow> part" where
  "getMapData k = (if isKeyable k then (case k of KStr _ \<Rightarrow> PartString | _ \<Rightarrow> PartHash) else PartMap)"

definition mapCacheDelete :: "'v map_cache \<Rightarrow> jkey \<Rightarrow> 'v map_cache \<times> bool" where
  "mapCacheDelete m k =
     (case getMapData k of
        PartHash \<Rightarrow> (let (h, i) = hashDelete (mc_hash m) k
                    in (m\<lparr>mc_hash := h, mc_size := mc_size m - (if i then 1 else 0)\<rparr>, i))
      | PartString \<Rightarrow> (let (h, i) = hashDelete (mc_string m) k
                      in (m\<lparr>mc_string := h, mc_size := mc_size m - (if i then 1 else 0)\<rparr>, i))
      | PartMap \<Rightarrow> (let i = map_of (mc_map m) k \<noteq> None
                   in (m\<lparr>mc_map := drop_key k (mc_map m), mc_size := mc_size m - (if i then 1 else 0)\<rparr>, i)))"

definition mapCacheGet :: "'v map_cache \<Rightarrow> jkey \<Rightarrow> 'v jval" where
  "mapCacheGet m k =
     (case getMapData k of
        PartHash \<Rightarrow> hashGet (mc_hash m) k
      | PartString \<Rightarrow> hashGet (mc_string m) k
      | PartMap \<Rightarrow> (case map_of (mc_map m) k of None \<Rightarrow> Undefined | Some v \<Rightarrow> v))"

definition mapCacheHas :: "'v map_cache \<Rightarrow> jkey \<Rightarrow> bool" where
  "mapCacheHas m k =
     (case getMapData k of
        PartHash \<Rightarrow> hashHas (mc_hash m) k
      | PartString \<Rightarrow> hashHas (mc_string m) k
      | PartMap \<Rightarrow> map_of (mc_map m) k \<noteq> None)"

definition mapCacheSet :: "'v map_cache \<Rightarrow> jkey \<Rightarrow> 'v jval \<Rightarrow> 'v map_cache" where
  "mapCacheSet m k v =
     (case getMapData k of
        PartHash \<Rightarrow> (let c = hashSet (mc_hash m) k v
                    in m\<lparr>mc_hash := c, mc_size := mc_size m + (if h_size c = h_size (mc_hash m) then 0 else 1)\<rparr>)
      | PartString \<Rightarrow> (let c = hashSet (mc_string m) k v
                      in m\<lparr>mc_string := c, mc_size := mc_size m + (if h_size c = h_size (mc_string m) then 0 else 1)\<rparr>)
      | PartMap \<Rightarrow> (let c = put k v (mc_map m)
                   in m\<lparr>mc_map := c, mc_size := mc_size m + (if length c = length (mc_map m) then 0 else 1)\<rparr>))"

definition new_map_cache :: "(jkey \<times> 'v jval) list \<Rightarrow> 'v map_cache" where
  "new_map_cache es = foldl (\<lambda>c (k, v). mapCacheSet c k v) mapCacheClear es"

section \<open>Stack and SetCache\<close>

text \<open>A stack starts as a \<open>ListCache\<close> and becomes a \<open>MapCache\<close> when it has 199 pairs.\<close>

datatype 'v stack_data = SList "'v list_cache" | SMap "'v map_cache"

record 'v stack =
  st_data :: "'v stack_data"
  st_size :: int

definition stackClear :: "'v stack" where
  "stackClear = \<lparr>st_data = SList (new_list_cache []), st_size = 0\<rparr>"

definition stackGet :: "'v stack \<Rightarrow> jkey \<Rightarrow> 'v jval" where
  "stackGet s k = (case st_data s of SList c \<Rightarrow> listCacheGet c k | SMap m \<Rightarrow> mapCacheGet m k)"

definition stackHas :: "'v stack \<Rightarrow> jkey \<Rightarrow> bool" where
  "stackHas s k = (case st_data s of SList c \<Rightarrow> listCacheHas c k | SMap m \<Rightarrow> mapCacheHas m k)"

definition stackDelete :: "'v stack \<Rightarrow> jkey \<Rightarrow> 'v stack \<times> bool" where
  "stackDelete s k =
     (case st_data s of
        SList c \<Rightarrow> (let (c', i) = listCacheDelete c k in (\<lparr>st_data = SList c', st_size = lc_size c'\<rparr>, i))
      | SMap m \<Rightarrow> (let (m', i) = mapCacheDelete m k in (\<lparr>st_data = SMap m', st_size = mc_size m'\<rparr>, i)))"

text \<open>While it is a list, a pair is added without a search for the key.\<close>

definition stackSet :: "'v stack \<Rightarrow> jkey \<Rightarrow> 'v jval \<Rightarrow> 'v stack" where
  "stackSet s k v =
     (case st_data s of
        SList c \<Rightarrow>
          if length (lc_data c) < 199
          then (let c' = \<lparr>lc_data = lc_data c @ [(k, v)], lc_size = lc_size c + 1\<rparr>
                in \<lparr>st_data = SList c', st_size = lc_size c'\<rparr>)
          else (let m = mapCacheSet (new_map_cache (lc_data c)) k v in \<lparr>st_data = SMap m, st_size = mc_size m\<rparr>)
      | SMap m0 \<Rightarrow> (let m = mapCacheSet m0 k v in \<lparr>st_data = SMap m, st_size = mc_size m\<rparr>))"

definition new_stack :: "(jkey \<times> 'v jval) list \<Rightarrow> 'v stack" where
  "new_stack es = (let g = new_list_cache es in \<lparr>st_data = SList g, st_size = lc_size g\<rparr>)"

definition setCacheAdd :: "'v map_cache \<Rightarrow> jkey \<Rightarrow> 'v map_cache" where
  "setCacheAdd c a = mapCacheSet c a (Str hash_undefined)"

definition setCacheHas :: "'v map_cache \<Rightarrow> jkey \<Rightarrow> bool" where
  "setCacheHas c t = mapCacheHas c t"

definition new_set_cache :: "jkey list \<Rightarrow> 'v map_cache" where
  "new_set_cache ks = foldl setCacheAdd (new_map_cache []) ks"

section \<open>Memoize\<close>

text \<open>\<open>u8\<close>: one call of a memoized function, with the key \<open>y\<close> of its arguments, and \<open>s9\<close>, whose
  resolver empties a cache of 500 entries.\<close>

definition memo_step :: "('c \<Rightarrow> jkey \<Rightarrow> bool) \<Rightarrow> ('c \<Rightarrow> jkey \<Rightarrow> 'v jval) \<Rightarrow> ('c \<Rightarrow> jkey \<Rightarrow> 'v jval \<Rightarrow> 'c) \<Rightarrow> ('a \<Rightarrow> 'v jval)
    \<Rightarrow> ('a \<Rightarrow> jkey) \<Rightarrow> 'c \<Rightarrow> 'a \<Rightarrow> 'c \<times> 'v jval" where
  "memo_step has get set' f key g a =
     (if has g (key a) then (g, get g (key a)) else (let b = f a in (set' g (key a) b, b)))"

definition memoize :: "('a \<Rightarrow> 'v jval) \<Rightarrow> ('a \<Rightarrow> jkey) \<Rightarrow> 'v map_cache \<Rightarrow> 'a \<Rightarrow> 'v map_cache \<times> 'v jval" where
  "memoize f key g a = memo_step mapCacheHas mapCacheGet mapCacheSet f key g a"

definition memoizeCapped :: "('a \<Rightarrow> 'v jval) \<Rightarrow> ('a \<Rightarrow> jkey) \<Rightarrow> 'v map_cache \<Rightarrow> 'a \<Rightarrow> 'v map_cache \<times> 'v jval" where
  "memoizeCapped f key g a = memoize f key (if mc_size g = 500 then mapCacheClear else g) a"

fun calls :: "('c \<Rightarrow> 'a \<Rightarrow> 'c \<times> 'b) \<Rightarrow> 'c \<Rightarrow> 'a list \<Rightarrow> 'c \<times> 'b list" where
  "calls m g [] = (g, [])"
| "calls m g (a # as) = (let (g1, b) = m g a; (g2, bs) = calls m g1 as in (g2, b # bs))"

section \<open>Pairs\<close>

lemma eq_iff [simp]: "eq a b \<longleftrightarrow> a = b"
  by (cases a; cases b) (simp_all add: eq_def)

lemma map_of_put [simp]: "map_of (put k v ps) = (map_of ps)(k \<mapsto> v)"
  by (induction ps) auto

lemma keys_put: "fst ` set (put k v ps) = insert k (fst ` set ps)"
  by (induction ps) auto

lemma distinct_put: "distinct (map fst ps) \<Longrightarrow> distinct (map fst (put k v ps))"
proof (induction ps)
  case (Cons p ps)
  have "fst p \<notin> fst ` set (put k v ps)" if "fst p \<noteq> k" using Cons.prems that keys_put [of k v ps] by auto
  then show ?case using Cons by auto
qed simp

lemma length_put: "length (put k v ps) = length ps + (if map_of ps k = None then 1 else 0)"
  by (induction ps) auto

lemma map_of_drop_key [simp]: "map_of (drop_key k ps) = (map_of ps)(k := None)"
  by (induction ps) (auto simp: drop_key_def)

lemma distinct_drop_key: "distinct (map fst ps) \<Longrightarrow> distinct (map fst (drop_key k ps))"
  by (simp add: drop_key_def distinct_map_filter)

section \<open>The contract\<close>

text \<open>Looking up what was stored, for the keys a cache is used with. The marker of \<open>Hash\<close> is the one
  value that cannot be stored.\<close>

abbreviation storable :: "'v jval \<Rightarrow> bool" where
  "storable v \<equiv> v \<noteq> Str hash_undefined"

locale lookup_table =
  fixes get :: "'c \<Rightarrow> jkey \<Rightarrow> 'v jval" and has :: "'c \<Rightarrow> jkey \<Rightarrow> bool" and set' :: "'c \<Rightarrow> jkey \<Rightarrow> 'v jval \<Rightarrow> 'c"
    and empty0 :: 'c and inv :: "'c \<Rightarrow> bool" and keys :: "jkey \<Rightarrow> bool"
  assumes inv_empty: "inv empty0"
    and inv_set: "inv c \<Longrightarrow> keys k \<Longrightarrow> storable v \<Longrightarrow> inv (set' c k v)"
    and has_empty: "keys k \<Longrightarrow> \<not> has empty0 k"
    and get_absent: "inv c \<Longrightarrow> keys k \<Longrightarrow> \<not> has c k \<Longrightarrow> get c k = Undefined"
    and has_set: "inv c \<Longrightarrow> keys k \<Longrightarrow> keys k' \<Longrightarrow> storable v \<Longrightarrow> has (set' c k v) k' \<longleftrightarrow> k' = k \<or> has c k'"
    and get_set: "inv c \<Longrightarrow> keys k \<Longrightarrow> keys k' \<Longrightarrow> storable v \<Longrightarrow> get (set' c k v) k' = (if k' = k then v else get c k')"
begin

lemma memo_step_correct:
  assumes "inv c" "\<And>a. keys (key a)" "\<And>a. storable (f a)" "\<And>a b. key a = key b \<Longrightarrow> f a = f b"
    and "\<And>b. has c (key b) \<Longrightarrow> get c (key b) = f b" "memo_step has get set' f key c a = (c', r)"
  shows "r = f a \<and> inv c' \<and> (\<forall>b. has c' (key b) \<longrightarrow> get c' (key b) = f b)"
proof (cases "has c (key a)")
  case True
  then show ?thesis using assms(1,5,6) by (auto simp: memo_step_def)
next
  case False
  then have c': "r = f a" "c' = set' c (key a) (f a)" using assms(6) by (auto simp: memo_step_def Let_def)
  have "get c' (key b) = f b" if "has c' (key b)" for b
  proof (cases "key b = key a")
    case True
    then show ?thesis using get_set [OF assms(1,2) _ assms(3)] assms(2,4) c'(2) by metis
  next
    case False
    then have "has c (key b)" using that has_set [OF assms(1,2,2,3)] c'(2) by simp
    then show ?thesis using False get_set [OF assms(1,2,2,3)] c'(2) assms(5) by simp
  qed
  then show ?thesis using c' inv_set [OF assms(1,2,3)] by simp
qed

lemma foldl_set:
  assumes "inv c" "list_all (\<lambda>(k, v). keys k \<and> storable v) es" "keys k"
  shows "inv (foldl (\<lambda>c (k, v). set' c k v) c es)
    \<and> has (foldl (\<lambda>c (k, v). set' c k v) c es) k = (map_of (rev es) k \<noteq> None \<or> has c k)
    \<and> get (foldl (\<lambda>c (k, v). set' c k v) c es) k = (case map_of (rev es) k of None \<Rightarrow> get c k | Some v \<Rightarrow> v)"
  using assms
proof (induction es rule: rev_induct)
  case (snoc e es)
  obtain k' v where e: "e = (k', v)" by force
  have p: "keys k'" "storable v" using snoc.prems(2) e by auto
  have "inv (foldl (\<lambda>c (k, v). set' c k v) c es)
    \<and> has (foldl (\<lambda>c (k, v). set' c k v) c es) k = (map_of (rev es) k \<noteq> None \<or> has c k)
    \<and> get (foldl (\<lambda>c (k, v). set' c k v) c es) k = (case map_of (rev es) k of None \<Rightarrow> get c k | Some v \<Rightarrow> v)"
    using snoc by simp
  then show ?case using p snoc.prems by (auto simp: e inv_set has_set get_set)
qed simp

end

text \<open>Removing keys and counting them.\<close>

locale cache = lookup_table +
  fixes del :: "'c \<Rightarrow> jkey \<Rightarrow> 'c \<times> bool" and size' :: "'c \<Rightarrow> int"
  assumes inv_del: "inv c \<Longrightarrow> keys k \<Longrightarrow> inv (fst (del c k))"
    and has_del: "inv c \<Longrightarrow> keys k \<Longrightarrow> keys k' \<Longrightarrow> has (fst (del c k)) k' \<longleftrightarrow> k' \<noteq> k \<and> has c k'"
    and get_del: "inv c \<Longrightarrow> keys k \<Longrightarrow> keys k' \<Longrightarrow> k' \<noteq> k \<Longrightarrow> get (fst (del c k)) k' = get c k'"
    and del_found: "inv c \<Longrightarrow> keys k \<Longrightarrow> snd (del c k) = has c k"
    and size_empty: "size' empty0 = 0"
    and size_set: "inv c \<Longrightarrow> keys k \<Longrightarrow> size' (set' c k v) = size' c + (if has c k then 0 else 1)"
    and size_del: "inv c \<Longrightarrow> keys k \<Longrightarrow> size' (fst (del c k)) = size' c - (if has c k then 1 else 0)"

text \<open>A history of operations, and what it means for a finite map.\<close>

datatype 'v cache_op = OSet jkey "'v jval" | ODelete jkey | OClear

fun run_op :: "('c \<Rightarrow> jkey \<Rightarrow> 'v jval \<Rightarrow> 'c) \<Rightarrow> ('c \<Rightarrow> jkey \<Rightarrow> 'c \<times> bool) \<Rightarrow> 'c \<Rightarrow> 'c \<Rightarrow> 'v cache_op \<Rightarrow> 'c" where
  "run_op set' del empty0 c (OSet k v) = set' c k v"
| "run_op set' del empty0 c (ODelete k) = fst (del c k)"
| "run_op set' del empty0 c OClear = empty0"

definition map_op :: "(jkey \<rightharpoonup> 'v jval) \<Rightarrow> 'v cache_op \<Rightarrow> (jkey \<rightharpoonup> 'v jval)" where
  "map_op m p = (case p of OSet k v \<Rightarrow> m(k \<mapsto> v) | ODelete k \<Rightarrow> m(k := None) | OClear \<Rightarrow> Map.empty)"

definition map_ops :: "'v cache_op list \<Rightarrow> (jkey \<rightharpoonup> 'v jval)" where
  "map_ops ops = foldl map_op Map.empty ops"

definition op_ok :: "(jkey \<Rightarrow> bool) \<Rightarrow> 'v cache_op \<Rightarrow> bool" where
  "op_ok keys p = (case p of OSet k v \<Rightarrow> keys k \<and> storable v | ODelete k \<Rightarrow> keys k | OClear \<Rightarrow> True)"

lemma map_ops_snoc: "map_ops (ops @ [p]) = map_op (map_ops ops) p"
  by (simp add: map_ops_def)

lemma finite_map_ops: "finite (dom (map_ops ops))"
proof (induction ops rule: rev_induct)
  case (snoc p ops)
  have "dom (map_ops (ops @ [p])) \<subseteq> insert (case p of OSet k _ \<Rightarrow> k | ODelete k \<Rightarrow> k | OClear \<Rightarrow> KNull) (dom (map_ops ops))"
    by (cases p) (auto simp: map_ops_snoc map_op_def split: if_splits)
  then show ?case using snoc by (metis finite_insert finite_subset)
qed (simp add: map_ops_def)

context cache
begin

lemma run_op_refines:
  assumes "inv c" "op_ok keys p" "finite (dom m)" "dom m \<subseteq> {k. keys k}" "size' c = int (card (dom m))"
    and "\<And>k. keys k \<Longrightarrow> has c k = (m k \<noteq> None) \<and> get c k = (case m k of None \<Rightarrow> Undefined | Some v \<Rightarrow> v)"
  defines "c' \<equiv> run_op set' del empty0 c p" and "m' \<equiv> map_op m p"
  shows "inv c' \<and> dom m' \<subseteq> {k. keys k} \<and> size' c' = int (card (dom m'))
    \<and> (\<forall>k. keys k \<longrightarrow> has c' k = (m' k \<noteq> None) \<and> get c' k = (case m' k of None \<Rightarrow> Undefined | Some v \<Rightarrow> v))"
proof (cases p)
  case (OSet k v)
  then have k: "keys k" "storable v" using assms(2) by (simp_all add: op_ok_def)
  have "card (insert k (dom m)) = card (dom m) + (if m k = None then 1 else 0)"
    using assms(3) by (auto simp: card_insert_if)
  then show ?thesis using OSet k assms(1,4-6)
    by (auto simp: c'_def m'_def map_op_def inv_set has_set get_set size_set)
next
  case (ODelete k)
  then have k: "keys k" using assms(2) by (simp add: op_ok_def)
  have "int (card (dom m - {k})) = int (card (dom m)) - (if m k = None then 0 else 1)"
  proof (cases "m k = None")
    case False
    then have "k \<in> dom m" by auto
    moreover from this have "card (dom m) \<noteq> 0" using assms(3) by auto
    ultimately show ?thesis using False by (simp add: card_Diff_singleton of_nat_diff Suc_leI)
  qed (simp add: domIff)
  then show ?thesis using ODelete k assms(1,4-6) inv_del [OF assms(1) k] has_del [OF assms(1) k] get_del [OF assms(1) k]
      size_del [OF assms(1) k]
    by (auto simp: c'_def m'_def map_op_def get_absent split: if_splits)
next
  case OClear
  then show ?thesis using assms(4) by (auto simp: c'_def m'_def map_op_def inv_empty has_empty size_empty get_absent)
qed

lemma run_ops_refine:
  assumes "list_all (op_ok keys) ops"
  defines "c \<equiv> foldl (run_op set' del empty0) empty0 ops"
  shows "inv c \<and> dom (map_ops ops) \<subseteq> {k. keys k} \<and> size' c = int (card (dom (map_ops ops)))
    \<and> (\<forall>k. keys k \<longrightarrow> has c k = (map_ops ops k \<noteq> None)
         \<and> get c k = (case map_ops ops k of None \<Rightarrow> Undefined | Some v \<Rightarrow> v))"
  using assms(1) unfolding c_def
proof (induction ops rule: rev_induct)
  case Nil
  then show ?case by (auto simp: map_ops_def inv_empty has_empty size_empty get_absent)
next
  case (snoc p ops)
  then have p: "op_ok keys p" and IH: "inv (foldl (run_op set' del empty0) empty0 ops)" "dom (map_ops ops) \<subseteq> {k. keys k}"
    "size' (foldl (run_op set' del empty0) empty0 ops) = int (card (dom (map_ops ops)))"
    "\<And>k. keys k \<Longrightarrow> has (foldl (run_op set' del empty0) empty0 ops) k = (map_ops ops k \<noteq> None)
         \<and> get (foldl (run_op set' del empty0) empty0 ops) k = (case map_ops ops k of None \<Rightarrow> Undefined | Some v \<Rightarrow> v)"
    by simp_all
  show ?case using run_op_refines [OF IH(1) p finite_map_ops IH(2-4)] by (simp add: map_ops_snoc)
qed

end

section \<open>The caches satisfy it\<close>

lemma show_int_chars: "c \<in> set (show_int n) \<Longrightarrow> is_digit c \<or> c = CHR ''-''"
  by (auto simp: show_int_def dest: show_nat_digits split: if_splits)

lemma show_int_inj [simp]: "show_int m = show_int n \<longleftrightarrow> m = n"
proof
  have d: "\<not> is_digit (CHR ''-'')" by (simp add: is_digit_def)
  have "hd (show_nat k) \<noteq> CHR ''-''" for k using show_nat_digits [of "hd (show_nat k)" k] d by (metis hd_in_set show_nat_not_Nil)
  then have h: "show_nat k \<noteq> CHR ''-'' # s" for k s by (metis list.sel(1))
  assume "show_int m = show_int n"
  then show "m = n" using h h [THEN not_sym] by (auto simp: show_int_def split: if_splits)
qed simp

lemma show_int_not_word [simp]:
  "show_int n \<noteq> ''NaN''" "show_int n \<noteq> ''true''" "show_int n \<noteq> ''false''" "show_int n \<noteq> ''null''"
  using show_int_chars [of "CHR ''a''" n] show_int_chars [of "CHR ''r''" n] show_int_chars [of "CHR ''l''" n]
  by (auto simp: is_digit_def)

lemma show_int_not_word' [simp]:
  "''NaN'' \<noteq> show_int n" "''true'' \<noteq> show_int n" "''false'' \<noteq> show_int n" "''null'' \<noteq> show_int n"
  by (metis show_int_not_word)+

lemma to_pkey_inj:
  "getMapData a = getMapData b \<Longrightarrow> getMapData a \<noteq> PartMap \<Longrightarrow> to_pkey a = to_pkey b \<longleftrightarrow> a = b"
  by (cases a; cases b) (auto simp: getMapData_def isKeyable_def split: if_splits)

definition hash_inv :: "'v hash \<Rightarrow> bool" where
  "hash_inv h \<longleftrightarrow> (\<forall>p. map_of (h_data h) p \<noteq> Some Undefined)"

lemma prop_get_put [simp]: "prop_get (put p v d) q = (if q = p then v else prop_get d q)"
  by (simp add: prop_get_def)

lemma prop_get_drop [simp]: "prop_get (drop_key p d) q = (if q = p then Undefined else prop_get d q)"
  by (simp add: prop_get_def)

lemmas hash_defs = hashGet_def hashHas_def hashSet_def hashDelete_def hashClear_def hash_inv_def new_hash_def Let_def

lemma hash_part:
  assumes "p \<noteq> PartMap"
  shows "cache hashGet hashHas hashSet hashClear hash_inv (\<lambda>k. getMapData k = p) hashDelete h_size"
  using assms to_pkey_inj
  by unfold_locales (auto simp: hash_defs prop_get_def hash_undefined_def split: option.splits if_splits)

interpretation hash_part: cache hashGet hashHas hashSet hashClear hash_inv "\<lambda>k. getMapData k = PartHash" hashDelete h_size
  by (rule hash_part) simp

interpretation string_part: cache hashGet hashHas hashSet hashClear hash_inv "\<lambda>k. getMapData k = PartString" hashDelete h_size
  by (rule hash_part) simp

definition map_cache_inv :: "'v map_cache \<Rightarrow> bool" where
  "map_cache_inv m \<longleftrightarrow> hash_inv (mc_hash m) \<and> hash_inv (mc_string m)"

lemma new_hash_Nil [simp]: "new_hash [] = hashClear"
  by (simp add: new_hash_def)

lemmas map_cache_defs = mapCacheGet_def mapCacheHas_def mapCacheSet_def mapCacheDelete_def mapCacheClear_def
  map_cache_inv_def Let_def

lemma map_part_size: "length (put k v ps) = length ps \<longleftrightarrow> map_of ps k \<noteq> None"
  by (simp add: length_put)

interpretation map_cache: cache mapCacheGet mapCacheHas mapCacheSet mapCacheClear map_cache_inv "\<lambda>k. True" mapCacheDelete mc_size
proof
  fix c :: "'a map_cache" and k k' and v :: "'a jval"
  note h = hash_part.inv_set hash_part.has_set hash_part.get_set hash_part.inv_del hash_part.has_del hash_part.get_del
    hash_part.del_found hash_part.size_set hash_part.get_absent hash_part.inv_empty hash_part.has_empty
  note s = string_part.inv_set string_part.has_set string_part.get_set string_part.inv_del string_part.has_del string_part.get_del
    string_part.del_found string_part.size_set string_part.get_absent string_part.inv_empty string_part.has_empty
  show "map_cache_inv (mapCacheClear :: 'a map_cache)" by (simp add: map_cache_defs h)
  show "\<not> mapCacheHas (mapCacheClear :: 'a map_cache) k"
    by (cases "getMapData k") (simp_all add: map_cache_defs h s)
  show "mc_size (mapCacheClear :: 'a map_cache) = 0" by (simp add: map_cache_defs)
  assume i: "map_cache_inv c"
  then have i': "hash_inv (mc_hash c)" "hash_inv (mc_string c)" by (simp_all add: map_cache_inv_def)
  show "map_cache_inv (mapCacheSet c k v)" if "storable v"
    using that i' by (cases "getMapData k") (simp_all add: map_cache_defs h s)
  show "\<not> mapCacheHas c k \<Longrightarrow> mapCacheGet c k = Undefined"
    using i' by (cases "getMapData k") (simp_all add: map_cache_defs h s)
  show "mapCacheHas (mapCacheSet c k v) k' \<longleftrightarrow> k' = k \<or> mapCacheHas c k'" if "storable v"
    using that i' by (cases "getMapData k"; cases "getMapData k'") (auto simp add: map_cache_defs h s)
  show "mapCacheGet (mapCacheSet c k v) k' = (if k' = k then v else mapCacheGet c k')" if "storable v"
    using that i' by (cases "getMapData k"; cases "getMapData k'") (auto simp add: map_cache_defs h s)
  show "map_cache_inv (fst (mapCacheDelete c k))"
    using i' h(4) [of "mc_hash c" k] s(4) [of "mc_string c" k]
    by (cases "getMapData k") (auto simp add: map_cache_defs split: prod.splits)
  show "mapCacheHas (fst (mapCacheDelete c k)) k' \<longleftrightarrow> k' \<noteq> k \<and> mapCacheHas c k'"
    using i' h(5) [of "mc_hash c" k k'] s(5) [of "mc_string c" k k']
    by (cases "getMapData k"; cases "getMapData k'") (auto simp add: map_cache_defs split: prod.splits)
  show "mapCacheGet (fst (mapCacheDelete c k)) k' = mapCacheGet c k'" if "k' \<noteq> k"
    using that i' h(6) [of "mc_hash c" k k'] s(6) [of "mc_string c" k k']
    by (cases "getMapData k"; cases "getMapData k'") (auto simp add: map_cache_defs split: prod.splits)
  show "snd (mapCacheDelete c k) = mapCacheHas c k"
    using i' h(7) [of "mc_hash c" k] s(7) [of "mc_string c" k]
    by (cases "getMapData k") (auto simp add: map_cache_defs split: prod.splits)
  show "mc_size (mapCacheSet c k v) = mc_size c + (if mapCacheHas c k then 0 else 1)"
    using i' by (cases "getMapData k") (auto simp add: map_cache_defs h s map_part_size)
  show "mc_size (fst (mapCacheDelete c k)) = mc_size c - (if mapCacheHas c k then 1 else 0)"
    using i' h(7) [of "mc_hash c" k] s(7) [of "mc_string c" k]
    by (cases "getMapData k") (auto simp add: map_cache_defs split: prod.splits)
qed

text \<open>In a \<open>ListCache\<close> the last pair of a key counts.\<close>

definition pairs_map :: "(jkey \<times> 'v) list \<Rightarrow> (jkey \<rightharpoonup> 'v)" where
  "pairs_map ps = map_of (rev ps)"

lemma pairs_map_snoc [simp]: "pairs_map (ps @ [(k, v)]) = (pairs_map ps)(k \<mapsto> v)"
  by (simp add: pairs_map_def)

lemma pairs_map_append: "pairs_map (ps @ qs) k = (case pairs_map qs k of None \<Rightarrow> pairs_map ps k | Some v \<Rightarrow> Some v)"
  by (simp add: pairs_map_def map_add_def split: option.split)

lemma pairs_map_None: "pairs_map ps k = None \<longleftrightarrow> k \<notin> fst ` set ps"
  by (simp add: pairs_map_def map_of_eq_None_iff)

lemma assoc_loop_split:
  "n \<le> length a \<Longrightarrow>
    (assoc_loop a i n = -1 \<and> i \<notin> fst ` set (take n a))
    \<or> (\<exists>j < n. assoc_loop a i n = int j \<and> fst (a ! j) = i \<and> i \<notin> fst ` set (drop (Suc j) (take n a)))"
proof (induction n)
  case (Suc n)
  have t: "take (Suc n) a = take n a @ [a ! n]" using Suc.prems by (simp add: take_Suc_conv_app_nth)
  show ?case
  proof (cases "fst (a ! n) = i")
    case True
    then show ?thesis using Suc.prems by (intro disjI2 exI [of _ n]) (simp add: t)
  next
    case False
    then show ?thesis using Suc by (fastforce simp: t)
  qed
qed simp

lemma assocIndexOf_cases:
  obtains "assocIndexOf a i = -1" "pairs_map a i = None"
  | j pre v post where "assocIndexOf a i = int j" "a = pre @ (i, v) # post" "length pre = j" "i \<notin> fst ` set post"
      "pairs_map a i = Some v"
proof -
  from assoc_loop_split [of "length a" a i, OF order_refl] show thesis
  proof (elim disjE exE conjE)
    assume "assoc_loop a i (length a) = -1" "i \<notin> fst ` set (take (length a) a)"
    then show thesis using that(1) by (simp add: assocIndexOf_def pairs_map_None)
  next
    fix j assume j: "j < length a" "assoc_loop a i (length a) = int j" "fst (a ! j) = i"
      "i \<notin> fst ` set (drop (Suc j) (take (length a) a))"
    have a: "a = take j a @ (i, snd (a ! j)) # drop (Suc j) a"
      using j(1,3) id_take_nth_drop by (metis prod.collapse)
    have "pairs_map a i = Some (snd (a ! j))"
      using j(4) pairs_map_None [of "drop (Suc j) a" i]
      by (subst a) (simp add: pairs_map_append pairs_map_append [of "[(i, snd (a ! j))]", simplified] pairs_map_def map_add_def)
    then show thesis using j a by (intro that(2) [of j "take j a" "snd (a ! j)" "drop (Suc j) a"]) (simp_all add: assocIndexOf_def)
  qed
qed

lemma list_cache_lookup:
  "listCacheHas c k \<longleftrightarrow> pairs_map (lc_data c) k \<noteq> None"
  "listCacheGet c k = (case pairs_map (lc_data c) k of None \<Rightarrow> Undefined | Some v \<Rightarrow> v)"
  by (cases rule: assocIndexOf_cases [of "lc_data c" k]; simp add: listCacheHas_def listCacheGet_def nth_append)+

lemma list_cache_set: "pairs_map (lc_data (listCacheSet c k v)) = (pairs_map (lc_data c))(k \<mapsto> v)"
proof (cases rule: assocIndexOf_cases [of "lc_data c" k])
  case 1
  then show ?thesis by (simp add: listCacheSet_def)
next
  case (2 j pre w post)
  have "lc_data (listCacheSet c k v) = pre @ (k, v) # post"
    using 2(1,3) by (simp add: listCacheSet_def 2(2) nth_append list_update_append)
  moreover have "map_of (rev post) k = None" using 2(4) by (simp add: map_of_eq_None_iff)
  ultimately show ?thesis
    unfolding 2(2) by (auto simp: fun_eq_iff pairs_map_def map_add_def split: option.splits)
qed

lemma list_cache_del:
  assumes "distinct (map fst (lc_data c))"
  shows "pairs_map (lc_data (fst (listCacheDelete c k))) = (pairs_map (lc_data c))(k := None)
    \<and> distinct (map fst (lc_data (fst (listCacheDelete c k)))) \<and> snd (listCacheDelete c k) = listCacheHas c k"
proof (cases rule: assocIndexOf_cases [of "lc_data c" k])
  case 1
  then show ?thesis using assms by (simp add: listCacheDelete_def listCacheHas_def fun_upd_idem)
next
  case (2 j pre w post)
  have d: "lc_data (fst (listCacheDelete c k)) = pre @ post" "snd (listCacheDelete c k)" "listCacheHas c k"
    using 2(1,3) by (auto simp: listCacheDelete_def 2(2) listCacheHas_def butlast_append Let_def)
  have n: "map_of (rev post) k = None" "map_of (rev pre) k = None"
    using assms 2(4) by (auto simp: map_of_eq_None_iff 2(2))
  show ?thesis using d(2,3) assms n unfolding d(1)
    by (auto simp: fun_eq_iff pairs_map_def map_add_def 2(2) split: option.splits)
qed

lemma list_cache_keys:
  "distinct (map fst (lc_data c)) \<Longrightarrow> distinct (map fst (lc_data (listCacheSet c k v)))"
proof (cases rule: assocIndexOf_cases [of "lc_data c" k])
  case 1
  then show "distinct (map fst (lc_data c)) \<Longrightarrow> ?thesis" by (auto simp: listCacheSet_def pairs_map_None)
next
  case (2 j pre w post)
  then show "distinct (map fst (lc_data c)) \<Longrightarrow> ?thesis" by (auto simp: listCacheSet_def nth_append list_update_append)
qed

lemma list_cache_size:
  "lc_size (listCacheSet c k v) = lc_size c + (if listCacheHas c k then 0 else 1)"
  "lc_size (fst (listCacheDelete c k)) = lc_size c - (if listCacheHas c k then 1 else 0)"
  by (auto simp: listCacheSet_def listCacheDelete_def listCacheHas_def Let_def)

interpretation list_cache: cache listCacheGet listCacheHas listCacheSet listCacheClear
  "\<lambda>c. distinct (map fst (lc_data c))" "\<lambda>k. True" listCacheDelete lc_size
  by unfold_locales
    (simp_all add: list_cache_lookup list_cache_set list_cache_del list_cache_keys list_cache_size,
      simp_all add: listCacheClear_def pairs_map_def)

text \<open>A stack keeps the contract of a lookup table, but not that of a cache.\<close>

definition stack_inv :: "'v stack \<Rightarrow> bool" where
  "stack_inv s \<longleftrightarrow>
     (case st_data s of
        SList c \<Rightarrow> list_all (\<lambda>(k, v). storable v) (lc_data c)
      | SMap m \<Rightarrow> map_cache_inv m)"

lemma map_cache_clear [simp]:
  "map_cache_inv mapCacheClear" "\<not> mapCacheHas mapCacheClear k" "mapCacheGet mapCacheClear k = Undefined"
  "mc_size mapCacheClear = 0"
  by (simp_all add: map_cache.inv_empty map_cache.has_empty map_cache.get_absent map_cache.size_empty)

lemma new_map_cache_lookup:
  assumes "list_all (\<lambda>(k, v). storable v) es"
  shows "map_cache_inv (new_map_cache es) \<and> mapCacheHas (new_map_cache es) k = (pairs_map es k \<noteq> None)
    \<and> mapCacheGet (new_map_cache es) k = (case pairs_map es k of None \<Rightarrow> Undefined | Some v \<Rightarrow> v)"
  using map_cache.foldl_set [OF map_cache.inv_empty, of es k] assms
  by (simp add: new_map_cache_def pairs_map_def split: option.split)

lemma new_map_cache_inv [simp]: "list_all (\<lambda>(k, v). storable v) es \<Longrightarrow> map_cache_inv (new_map_cache es)"
  using new_map_cache_lookup by blast

lemmas stack_defs = stackGet_def stackHas_def stackSet_def stack_inv_def stackClear_def Let_def

interpretation stack: lookup_table stackGet stackHas stackSet stackClear stack_inv "\<lambda>k. True"
proof
  fix c :: "'a stack" and k k' and v :: "'a jval"
  have e: "new_list_cache [] = (listCacheClear :: 'a list_cache)" by (simp add: new_list_cache_def)
  show "stack_inv (stackClear :: 'a stack)" by (simp add: stack_defs e listCacheClear_def)
  show "\<not> stackHas (stackClear :: 'a stack) k" using list_cache.has_empty [of k] by (simp add: stack_defs e)
  assume i: "stack_inv c"
  show "\<not> stackHas c k \<Longrightarrow> stackGet c k = Undefined"
    using i map_cache.get_absent [of _ k] by (cases "st_data c") (simp_all add: stack_defs list_cache_lookup)
  assume v: "storable v"
  show "stack_inv (stackSet c k v)"
    using i v map_cache.inv_set by (cases "st_data c") (auto simp: stack_defs)
  show "stackHas (stackSet c k v) k' \<longleftrightarrow> k' = k \<or> stackHas c k'"
    using i v new_map_cache_lookup [of _ k'] map_cache.has_set [where k = k and k' = k' and v = v]
    by (cases "st_data c") (auto simp add: stack_defs list_cache_lookup)
  show "stackGet (stackSet c k v) k' = (if k' = k then v else stackGet c k')"
    using i v new_map_cache_lookup [of _ k'] map_cache.get_set [where k = k and k' = k' and v = v]
    by (cases "st_data c") (auto simp add: stack_defs list_cache_lookup)
qed

section \<open>Properties\<close>



lemma memoizeCapped_step:
  assumes "map_cache_inv g" "\<And>a. storable (f a)" "\<And>a b. key a = key b \<Longrightarrow> f a = f b"
    and "\<And>b. mapCacheHas g (key b) \<Longrightarrow> mapCacheGet g (key b) = f b" "mc_size g \<le> 500"
    and "memoizeCapped f key g a = (g', r)"
  shows "r = f a \<and> map_cache_inv g' \<and> (\<forall>b. mapCacheHas g' (key b) \<longrightarrow> mapCacheGet g' (key b) = f b) \<and> mc_size g' \<le> 500"
proof -
  let ?g = "if mc_size g = 500 then mapCacheClear else g"
  have g: "map_cache_inv ?g" "\<And>b. mapCacheHas ?g (key b) \<Longrightarrow> mapCacheGet ?g (key b) = f b" "mc_size ?g < 500"
    using assms(1,4,5) by (auto split: if_splits)
  have s: "memo_step mapCacheHas mapCacheGet mapCacheSet f key ?g a = (g', r)"
    using assms(6) by (simp add: memoizeCapped_def memoize_def)
  have "mc_size g' \<le> mc_size ?g + 1"
    using s map_cache.size_set [OF g(1), of "key a"] by (auto simp: memo_step_def Let_def split: if_splits)
  then show ?thesis using map_cache.memo_step_correct [OF g(1) _ assms(2,3) g(2) s] g(3) by simp
qed

lemma memoizeCapped_calls:
  assumes "map_cache_inv g" "\<And>a. storable (f a)" "\<And>a b. key a = key b \<Longrightarrow> f a = f b"
    and "\<And>b. mapCacheHas g (key b) \<Longrightarrow> mapCacheGet g (key b) = f b" "mc_size g \<le> 500"
  shows "snd (calls (memoizeCapped f key) g as) = map f as \<and> mc_size (fst (calls (memoizeCapped f key) g as)) \<le> 500"
  using assms(1,4,5)
proof (induction as arbitrary: g)
  case (Cons a as)
  obtain g1 b where m: "memoizeCapped f key g a = (g1, b)" by fastforce
  from memoizeCapped_step [OF Cons.prems(1) assms(2,3) Cons.prems(2,3) m] Cons.IH [of g1]
  show ?case by (auto simp: m split: prod.splits)
qed simp

text \<open>C20: A function memoized with \<open>memoizeCapped\<close> computes the same as the function itself: every sequence of
  calls, from an empty cache, returns the function's results, and the cache never has more than 500 entries.
  The key of a call must decide its result, and the function must not return the marker of \<open>Hash\<close>.\<close>

theorem memoizeCapped_equivalent:
  assumes "\<And>a. f a \<noteq> Str hash_undefined" and "\<And>a b. key a = key b \<Longrightarrow> f a = f b"
  shows "snd (calls (memoizeCapped f key) mapCacheClear as) = map f as
    \<and> mc_size (fst (calls (memoizeCapped f key) mapCacheClear as)) \<le> 500"
  by (rule memoizeCapped_calls [OF map_cache_clear(1) assms]) simp_all

theorem memoizeCapped_equivalent_witness:
  "snd (calls (memoizeCapped (\<lambda>s. Val (length s)) KStr) mapCacheClear [''a.b'', ''a'', ''a.b'']) = [Val 3, Val 1, Val 3]"
proof -
  have "snd (calls (memoizeCapped (\<lambda>s. Val (length s)) KStr) mapCacheClear [''a.b'', ''a'', ''a.b''])
      = map (\<lambda>s. Val (length s)) [''a.b'', ''a'', ''a.b'']"
    by (rule conjunct1 [OF memoizeCapped_equivalent]) simp_all
  then show ?thesis by (simp del: calls.simps)
qed

text \<open>A key that is set twice in a small stack and deleted once is still there, with the older value.\<close>

lemma stack_delete_uncovers:
  "stackGet (fst (stackDelete (stackSet (stackSet stackClear (KObj 1) (Val False)) (KObj 1) (Val True)) (KObj 1))) (KObj 1)
     = Val False"
  by (simp add: stackClear_def stackSet_def stackDelete_def stackGet_def new_list_cache_def listCacheClear_def listCacheDelete_def
      listCacheGet_def assocIndexOf_def Let_def)

text \<open>The marker itself is read back as \<open>undefined\<close>.\<close>

lemma hash_marker_lost: "hashGet (hashSet hashClear (KNum 1) (Str hash_undefined)) (KNum 1) = Undefined"
  by (simp add: hashGet_def hashSet_def)

end
