(* ===== verification/Lodash_Debounce.thy ===== *)
theory Lodash_Debounce
  imports Prelude
begin

text \<open>
  \<open>debounce\<close> and \<open>throttle\<close> of lodash (\<open>hV\<close>, \<open>pV\<close>), which the chart library puts
  around its resize and mouse handlers. Times are milliseconds of the clock,
  passed to each operation; the timer is the time it is due at. Each
  operation returns the arguments with which the wrapped function was called.
  The wrapped function \<open>f\<close> does not call the debounced one.
\<close>

section \<open>Options\<close>

text \<open>A field of the options object is \<^const>\<open>None\<close> when it is absent.\<close>

record options =
  op_leading :: "bool option"
  op_maxWait :: "int option"
  op_trailing :: "bool option"

record params =
  db_wait :: int
  db_leading :: bool
  db_maxWait :: "int option"
  db_trailing :: bool

definition debounce_params :: "int \<Rightarrow> options option \<Rightarrow> params" where
  "debounce_params g b =
     (case b of
        None \<Rightarrow> \<lparr>db_wait = g, db_leading = False, db_maxWait = None, db_trailing = True\<rparr>
      | Some p \<Rightarrow>
          \<lparr>db_wait = g, db_leading = nullish (op_leading p) False,
           db_maxWait = map_option (\<lambda>m. max m g) (op_maxWait p), db_trailing = nullish (op_trailing p) True\<rparr>)"

definition throttle_params :: "int \<Rightarrow> options option \<Rightarrow> params" where
  "throttle_params s h =
     debounce_params s (Some
       \<lparr>op_leading = Some (case h of None \<Rightarrow> True | Some p \<Rightarrow> nullish (op_leading p) True),
        op_maxWait = Some s,
        op_trailing = Some (case h of None \<Rightarrow> True | Some p \<Rightarrow> nullish (op_trailing p) True)\<rparr>)"

section \<open>The debounced function\<close>

record ('a, 'r) debounced =
  lastArgs :: "'a option"
  result :: "'r option"
  timerId :: "int option"
  lastCallTime :: "int option"
  lastInvokeTime :: int

definition new_debounced :: "('a, 'r) debounced" where
  "new_debounced = \<lparr>lastArgs = None, result = None, timerId = None, lastCallTime = None, lastInvokeTime = 0\<rparr>"

text \<open>\<open>$\<close>.\<close>

definition invokeFunc :: "('a \<Rightarrow> 'r) \<Rightarrow> int \<Rightarrow> ('a, 'r) debounced \<Rightarrow> ('a, 'r) debounced \<times> 'a list" where
  "invokeFunc f t d =
     (case lastArgs d of
        None \<Rightarrow> (d\<lparr>lastInvokeTime := t\<rparr>, [])
      | Some a \<Rightarrow> (d\<lparr>lastArgs := None, lastInvokeTime := t, result := Some (f a)\<rparr>, [a]))"

text \<open>\<open>M\<close>.\<close>

definition leadingEdge :: "params \<Rightarrow> ('a \<Rightarrow> 'r) \<Rightarrow> int \<Rightarrow> ('a, 'r) debounced \<Rightarrow> ('a, 'r) debounced \<times> 'a list" where
  "leadingEdge p f t d =
     (let d1 = d\<lparr>lastInvokeTime := t, timerId := Some (t + db_wait p)\<rparr>
      in if db_leading p then invokeFunc f t d1 else (d1, []))"

text \<open>\<open>B\<close> and \<open>k\<close>; \<open>B\<close> is only reached after a call.\<close>

definition remainingWait :: "params \<Rightarrow> int \<Rightarrow> ('a, 'r) debounced \<Rightarrow> int" where
  "remainingWait p t d =
     (let ge = t - nullish (lastCallTime d) 0; be = t - lastInvokeTime d; V = db_wait p - ge
      in case db_maxWait p of Some E \<Rightarrow> min V (E - be) | None \<Rightarrow> V)"

definition shouldInvoke :: "params \<Rightarrow> int \<Rightarrow> ('a, 'r) debounced \<Rightarrow> bool" where
  "shouldInvoke p t d =
     (case lastCallTime d of
        None \<Rightarrow> True
      | Some C \<Rightarrow> db_wait p \<le> t - C \<or> t - C < 0
          \<or> (case db_maxWait p of Some E \<Rightarrow> E \<le> t - lastInvokeTime d | None \<Rightarrow> False))"

text \<open>\<open>F\<close> and \<open>X\<close>.\<close>

definition trailingEdge :: "params \<Rightarrow> ('a \<Rightarrow> 'r) \<Rightarrow> int \<Rightarrow> ('a, 'r) debounced \<Rightarrow> ('a, 'r) debounced \<times> 'a list" where
  "trailingEdge p f t d =
     (let d1 = d\<lparr>timerId := None\<rparr>
      in if db_trailing p \<and> lastArgs d1 \<noteq> None then invokeFunc f t d1 else (d1\<lparr>lastArgs := None\<rparr>, []))"

definition timerExpired :: "params \<Rightarrow> ('a \<Rightarrow> 'r) \<Rightarrow> int \<Rightarrow> ('a, 'r) debounced \<Rightarrow> ('a, 'r) debounced \<times> 'a list" where
  "timerExpired p f t d =
     (if shouldInvoke p t d then trailingEdge p f t d
      else (d\<lparr>timerId := Some (t + remainingWait p t d)\<rparr>, []))"

text \<open>\<open>re\<close>, \<open>oe\<close> and \<open>Q\<close>.\<close>

definition cancel :: "('a, 'r) debounced \<Rightarrow> ('a, 'r) debounced" where
  "cancel d = d\<lparr>lastInvokeTime := 0, lastArgs := None, lastCallTime := None, timerId := None\<rparr>"

definition flush :: "params \<Rightarrow> ('a \<Rightarrow> 'r) \<Rightarrow> int \<Rightarrow> ('a, 'r) debounced \<Rightarrow> ('a, 'r) debounced \<times> 'a list" where
  "flush p f t d = (if timerId d = None then (d, []) else trailingEdge p f t d)"

definition debounced_call :: "params \<Rightarrow> ('a \<Rightarrow> 'r) \<Rightarrow> int \<Rightarrow> 'a \<Rightarrow> ('a, 'r) debounced \<Rightarrow> ('a, 'r) debounced \<times> 'a list" where
  "debounced_call p f t a d0 =
     (let ge = shouldInvoke p t d0;
          d = d0\<lparr>lastArgs := Some a, lastCallTime := Some t\<rparr>
      in if ge \<and> timerId d = None then leadingEdge p f t d
         else if ge \<and> db_maxWait p \<noteq> None then invokeFunc f t (d\<lparr>timerId := Some (t + db_wait p)\<rparr>)
         else (if timerId d = None then d\<lparr>timerId := Some (t + db_wait p)\<rparr> else d, []))"

section \<open>Histories\<close>

datatype 'a debounce_event = Call int 'a | Timer int | Cancel | Flush int

fun debounce_step :: "params \<Rightarrow> ('a \<Rightarrow> 'r) \<Rightarrow> 'a debounce_event \<Rightarrow> ('a, 'r) debounced \<Rightarrow> ('a, 'r) debounced \<times> 'a list" where
  "debounce_step p f (Call t a) d = debounced_call p f t a d"
| "debounce_step p f (Timer t) d = (case timerId d of Some due \<Rightarrow> if due \<le> t then timerExpired p f t d else (d, []) | None \<Rightarrow> (d, []))"
| "debounce_step p f Cancel d = (cancel d, [])"
| "debounce_step p f (Flush t) d = flush p f t d"

definition debounce_run :: "params \<Rightarrow> ('a \<Rightarrow> 'r) \<Rightarrow> 'a debounce_event list \<Rightarrow> ('a, 'r) debounced" where
  "debounce_run p f es = fold (\<lambda>e d. fst (debounce_step p f e d)) es new_debounced"

text \<open>Arguments that wait have a timer and the time of their call.\<close>

definition armed :: "('a, 'r) debounced \<Rightarrow> bool" where
  "armed d \<longleftrightarrow> (lastArgs d \<noteq> None \<longrightarrow> timerId d \<noteq> None \<and> lastCallTime d \<noteq> None)"

lemmas debounce_defs = debounced_call_def timerExpired_def trailingEdge_def leadingEdge_def invokeFunc_def cancel_def flush_def Let_def

lemma step_armed: "armed d \<Longrightarrow> armed (fst (debounce_step p f e d))"
  by (cases e) (auto simp: armed_def debounce_defs split: option.splits)

lemma run_armed: "armed (debounce_run p f es)"
proof -
  have "armed d \<Longrightarrow> armed (fold (\<lambda>e d. fst (debounce_step p f e d)) es d)" for d
    by (induction es arbitrary: d) (simp_all add: step_armed)
  then show ?thesis by (simp add: debounce_run_def new_debounced_def armed_def)
qed

lemma not_yet:
  assumes "\<not> shouldInvoke p t d" "lastCallTime d = Some C"
  shows "t < t + remainingWait p t d \<and> t + remainingWait p t d \<le> C + db_wait p"
    and "t + remainingWait p t d \<le> t' \<Longrightarrow> shouldInvoke p t' (d\<lparr>timerId := x\<rparr>)"
  using assms by (auto simp: shouldInvoke_def remainingWait_def Let_def split: option.splits)

lemma invoke_trailing:
  "shouldInvoke p t d \<Longrightarrow> db_trailing p \<Longrightarrow> lastArgs d = Some a \<Longrightarrow> snd (timerExpired p f t d) = [a]"
  by (simp add: debounce_defs)

text \<open>C14: With a trailing edge no call is lost. After any history of calls, timer events, cancellations and flushes, arguments
  that wait have a timer. When it fires, the wrapped function is called with exactly these, the latest, arguments, or the
  timer is set again, to a later time that is at most \<open>wait\<close> after the last call, and when that one fires the function
  is called with them.\<close>

theorem debounce_delivers:
  assumes "lastArgs (debounce_run p f es) = Some a" and "db_trailing p"
  shows "\<exists>due. timerId (debounce_run p f es) = Some due
    \<and> (\<forall>t. case timerExpired p f t (debounce_run p f es) of (d1, log) \<Rightarrow>
         if log = [] then lastArgs d1 = Some a \<and>
             (\<exists>due1. timerId d1 = Some due1 \<and> t < due1 \<and> due1 \<le> the (lastCallTime d1) + db_wait p
                \<and> (\<forall>t1. snd (timerExpired p f (max t1 due1) d1) = [a]))
         else log = [a])"
proof -
  let ?d = "debounce_run p f es"
  obtain due C where d: "timerId ?d = Some due" "lastCallTime ?d = Some C"
    using run_armed [of p f es] assms(1) by (auto simp: armed_def)
  have "case timerExpired p f t ?d of (d1, log) \<Rightarrow>
         if log = [] then lastArgs d1 = Some a \<and>
             (\<exists>due1. timerId d1 = Some due1 \<and> t < due1 \<and> due1 \<le> the (lastCallTime d1) + db_wait p
                \<and> (\<forall>t1. snd (timerExpired p f (max t1 due1) d1) = [a]))
         else log = [a]" for t
  proof (cases "shouldInvoke p t ?d")
    case True
    then show ?thesis using invoke_trailing [OF True assms(2,1), of f] by (auto split: prod.split)
  next
    case False
    let ?d1 = "?d\<lparr>timerId := Some (t + remainingWait p t ?d)\<rparr>"
    have e: "timerExpired p f t ?d = (?d1, [])" using False by (simp add: timerExpired_def)
    have "snd (timerExpired p f (max t1 (t + remainingWait p t ?d)) ?d1) = [a]" for t1
      using not_yet(2) [OF False d(2)] assms by (intro invoke_trailing) simp_all
    then show ?thesis using not_yet(1) [OF False d(2)] assms(1) d(2) by (simp add: e)
  qed
  then show ?thesis using d(1) by blast
qed

theorem debounce_delivers_witness:
  "snd (timerExpired (debounce_params 100 None) id 130
     (debounce_run (debounce_params 100 None) id [Call 0 (1::nat), Call 30 2])) = [2]"
proof -
  let ?p = "debounce_params 100 None"
  let ?d = "debounce_run ?p id [Call 0 (1::nat), Call 30 2]"
  have d: "lastArgs ?d = Some 2" "db_trailing ?p" "shouldInvoke ?p 130 ?d" by code_simp+
  from debounce_delivers [OF d(1,2)] have "case timerExpired ?p id 130 ?d of (d1, log) \<Rightarrow>
      if log = [] then lastArgs d1 = Some 2 \<and>
        (\<exists>due1. timerId d1 = Some due1 \<and> 130 < due1 \<and> due1 \<le> the (lastCallTime d1) + db_wait ?p
           \<and> (\<forall>t1. snd (timerExpired ?p id (max t1 due1) d1) = [2]))
      else log = [2]" by (elim exE conjE) (erule spec)
  moreover have "snd (timerExpired ?p id 130 ?d) \<noteq> []" by code_simp
  ultimately show ?thesis by (auto split: prod.splits if_splits)
qed

text \<open>A throttled function can run twice within its wait: once on the trailing edge, and again for a call shortly after.\<close>

lemma throttle_twice_within_wait:
  "let p = throttle_params 100 None; d = debounce_run p id [Call 0 (1::nat), Call 10 2]
   in snd (debounce_step p id (Timer 100) d) = [2]
      \<and> snd (debounce_step p id (Call 115 3) (fst (debounce_step p id (Timer 100) d))) = [3]"
  by code_simp

end
