(* ===== verification/Lodash_Sort.thy ===== *)
theory Lodash_Sort
  imports Router_Match "HOL-Library.Char_ord" "HOL-Library.List_Lexorder" "HOL-Library.Product_Lexorder"
begin

text \<open>
  Sorting in lodash: \<open>compareAscending\<close>, \<open>compareMultiple\<close>, \<open>baseSortBy\<close>, \<open>baseOrderBy\<close> and
  \<open>sortBy\<close>, with \<open>baseGet\<close>, \<open>createBaseEach\<close>, \<open>baseMap\<close>, \<open>overRest\<close> and \<open>shortOut\<close> that they are built
  from. Properties are own properties, and numbers are finite or \<open>NaN\<close>.
\<close>

section \<open>Values\<close>

datatype jsv =
    VUndef
  | VNull
  | VNaN
  | VNum rat
  | VStr string
  | VBool bool
  | VSym nat
  | VObj "(string \<times> jsv) list"
  | VArr "jsv list"

text \<open>The operators \<open>===\<close>, \<open>>\<close> and \<open><\<close> of the language. \<open>prim\<close> gives the primitive value of objects and
  arrays, and \<open>num_of\<close> the number a string converts to. Comparing a symbol throws, and the
  code does not do it.\<close>

fun strict_eq :: "jsv \<Rightarrow> jsv \<Rightarrow> bool" where
  "strict_eq VNaN _ = False"
| "strict_eq a b = (a = b)"

fun to_num :: "(string \<Rightarrow> rat option) \<Rightarrow> jsv \<Rightarrow> rat option" where
  "to_num num_of VNull = Some 0"
| "to_num num_of (VNum x) = Some x"
| "to_num num_of (VStr s) = num_of s"
| "to_num num_of (VBool b) = Some (if b then 1 else 0)"
| "to_num num_of _ = None"

record coercion =
  co_prim :: "jsv \<Rightarrow> jsv"
  co_num :: "string \<Rightarrow> rat option"

fun as_prim :: "coercion \<Rightarrow> jsv \<Rightarrow> jsv" where
  "as_prim C (VObj o') = co_prim C (VObj o')"
| "as_prim C (VArr xs) = co_prim C (VArr xs)"
| "as_prim C v = v"

definition js_less :: "coercion \<Rightarrow> jsv \<Rightarrow> jsv \<Rightarrow> bool" where
  "js_less C a b =
     (case (as_prim C a, as_prim C b) of
        (VStr s, VStr t) \<Rightarrow> s < t
      | (x, y) \<Rightarrow> (case (to_num (co_num C) x, to_num (co_num C) y) of (Some m, Some n) \<Rightarrow> m < n | _ \<Rightarrow> False))"

definition isSymbol :: "jsv \<Rightarrow> bool" where
  "isSymbol v \<longleftrightarrow> (case v of VSym _ \<Rightarrow> True | _ \<Rightarrow> False)"

section \<open>Comparing\<close>

text \<open>\<open>mG\<close>.\<close>

definition compareAscending :: "coercion \<Rightarrow> jsv \<Rightarrow> jsv \<Rightarrow> int" where
  "compareAscending C a i =
     (if \<not> strict_eq a i then
        (let c = (a \<noteq> VUndef); s = (a = VNull); h = strict_eq a a; y = isSymbol a;
             g = (i \<noteq> VUndef); b = (i = VNull); O' = strict_eq i i; S = isSymbol i
         in if \<not> b \<and> \<not> S \<and> \<not> y \<and> js_less C i a \<or> y \<and> g \<and> O' \<and> \<not> b \<and> \<not> S \<or> s \<and> g \<and> O' \<or> \<not> c \<and> O' \<or> \<not> h then 1
            else if \<not> s \<and> \<not> y \<and> \<not> S \<and> js_less C a i \<or> S \<and> c \<and> h \<and> \<not> s \<and> \<not> y \<or> b \<and> c \<and> h \<or> \<not> g \<and> h \<or> \<not> O' then -1
            else 0)
      else 0)"

record 'v sort_item =
  si_criteria :: "jsv list"
  si_index :: nat
  si_value :: 'v

text \<open>\<open>vG\<close>; \<open>s\<close> is the index of the criterion and \<open>c\<close> are the orders. The lists of criteria have the same
  length.\<close>

fun compare_from :: "coercion \<Rightarrow> nat \<Rightarrow> jsv list \<Rightarrow> jsv list \<Rightarrow> string list \<Rightarrow> int option" where
  "compare_from C s (h # hs) (y # ys) c =
     (let O' = compareAscending C h y
      in if O' \<noteq> 0 then Some (if length c \<le> s then O' else O' * (if c ! s = ''desc'' then -1 else 1))
         else compare_from C (Suc s) hs ys c)"
| "compare_from C s _ _ c = None"

definition compareMultiple :: "coercion \<Rightarrow> 'v sort_item \<Rightarrow> 'v sort_item \<Rightarrow> string list \<Rightarrow> int" where
  "compareMultiple C a i c =
     (case compare_from C 0 (si_criteria a) (si_criteria i) c of
        Some r \<Rightarrow> r
      | None \<Rightarrow> int (si_index a) - int (si_index i))"

section \<open>Collections\<close>

text \<open>\<open>pG\<close> (\<open>createBaseEach\<close>) on a list: the callback gets the element and its index, and stops the loop by
  returning \<open>false\<close>.\<close>

fun each_from :: "('v \<Rightarrow> nat \<Rightarrow> 's \<Rightarrow> 's \<times> bool) \<Rightarrow> ('v \<times> nat) list \<Rightarrow> 's \<Rightarrow> 's" where
  "each_from f [] s = s"
| "each_from f ((v, i) # r) s = (let (s', go) = f v i s in if go then each_from f r s' else s')"

definition baseEach :: "bool \<Rightarrow> 'v list \<Rightarrow> ('v \<Rightarrow> nat \<Rightarrow> 's \<Rightarrow> 's \<times> bool) \<Rightarrow> 's \<Rightarrow> 's" where
  "baseEach i c f s = (let xs = zip c [0..<length c] in each_from f (if i then rev xs else xs) s)"

text \<open>\<open>J8\<close> (\<open>baseMap\<close>).\<close>

definition baseMap :: "'v list \<Rightarrow> ('v \<Rightarrow> nat \<Rightarrow> 'b) \<Rightarrow> 'b list" where
  "baseMap i c = baseEach False i (\<lambda>y g h. (h @ [c y g], True)) []"

text \<open>Reading a property, and \<open>xM\<close> (\<open>baseGet\<close>) along a list of keys.\<close>

definition js_get :: "jsv \<Rightarrow> string \<Rightarrow> jsv" where
  "js_get v k =
     (case v of
        VObj o' \<Rightarrow> nullish (map_of o' k) VUndef
      | VArr xs \<Rightarrow> nullish (map_of (zip (map show_nat [0..<length xs]) xs) k) (if k = ''length'' then VNum (of_nat (length xs)) else VUndef)
      | _ \<Rightarrow> VUndef)"

fun get_from :: "jsv \<Rightarrow> string list \<Rightarrow> nat \<Rightarrow> jsv \<times> nat \<times> string list" where
  "get_from i [] s = (i, s, [])"
| "get_from i (k # c) s = (if i = VNull \<or> i = VUndef then (i, s, k # c) else get_from (js_get i k) c (Suc s))"

definition baseGet :: "jsv \<Rightarrow> string list \<Rightarrow> jsv" where
  "baseGet i c = (let (v, s, r) = get_from i c 0 in if s \<noteq> 0 \<and> r = [] then v else VUndef)"

section \<open>Sorting\<close>

text \<open>\<open>yG\<close> (\<open>baseSortBy\<close>).\<close>

definition baseSortBy :: "'v sort_item list \<Rightarrow> ('v sort_item \<Rightarrow> 'v sort_item \<Rightarrow> int) \<Rightarrow> 'v list" where
  "baseSortBy t a = map si_value (sort_by a t)"

text \<open>An iteratee is a function, absent, a list of keys, or an object shorthand that \<open>baseIteratee\<close> makes
  a function of (the parameter \<open>shorthand\<close>). \<open>castPath\<close> makes keys of the only key of a list.\<close>

datatype iteratee = ItFun "jsv \<Rightarrow> jsv" | ItNull | ItKeys "string list" | ItShort jsv

record lodash =
  lo_castPath :: "string \<Rightarrow> jsv \<Rightarrow> string list"
  lo_shorthand :: "jsv \<Rightarrow> jsv \<Rightarrow> jsv"

primrec iteratee_fun :: "lodash \<Rightarrow> iteratee \<Rightarrow> jsv \<Rightarrow> jsv" where
  "iteratee_fun l (ItFun f) = f"
| "iteratee_fun l ItNull = id"
| "iteratee_fun l (ItKeys C) = (\<lambda>R. case C of [k] \<Rightarrow> baseGet R (lo_castPath l k R) | _ \<Rightarrow> baseGet R C)"
| "iteratee_fun l (ItShort v) = lo_shorthand l v"

text \<open>\<open>gG\<close> (\<open>baseOrderBy\<close>).\<close>

definition baseOrderBy :: "coercion \<Rightarrow> lodash \<Rightarrow> jsv list \<Rightarrow> iteratee list \<Rightarrow> string list \<Rightarrow> jsv list" where
  "baseOrderBy K l O' S E =
     (let fs = (if S \<noteq> [] then map (iteratee_fun l) S else [id]);
          D = baseMap O' (\<lambda>C w. \<lparr>si_criteria = map (\<lambda>U. U C) fs, si_index = w, si_value = C\<rparr>)
      in baseSortBy D (\<lambda>C R. compareMultiple K C R E))"

text \<open>\<open>SG\<close> (\<open>overRest\<close>): the first arguments, padded with \<open>undefined\<close>, and the list of the others.\<close>

definition overRest :: "int \<Rightarrow> int option \<Rightarrow> 'a option list \<Rightarrow> 'a option list \<times> 'a option list" where
  "overRest len c h =
     (let n = nat (max (nullish c (len - 1)) 0)
      in (map (\<lambda>y. if y < length h then h ! y else None) [0..<n], drop n h))"

text \<open>\<open>_G\<close> (\<open>shortOut\<close>): after 800 calls each at most 16 ms after the previous one, the function is not called.\<close>

record short_out =
  so_count :: nat
  so_last :: int

definition shortOut :: "int \<Rightarrow> short_out \<Rightarrow> short_out \<times> bool" where
  "shortOut y s =
     (let g = 16 - (y - so_last s); s1 = s\<lparr>so_last := y\<rparr>
      in if 0 < g then (let n = Suc (so_count s) in (s1\<lparr>so_count := n\<rparr>, n < 800)) else (s1\<lparr>so_count := 0\<rparr>, True))"

text \<open>\<open>TG\<close> (\<open>sortBy\<close>): an argument is an iteratee or a list of them. The two guards for iteratee calls are
  false, since no iteratee of the model is a number or a string.\<close>

datatype sort_arg = One iteratee | Many "iteratee list"

definition baseFlatten1 :: "sort_arg list \<Rightarrow> iteratee list" where
  "baseFlatten1 i = foldl (\<lambda>y O'. case O' of Many xs \<Rightarrow> y @ xs | One x \<Rightarrow> y @ [x]) [] i"

definition sortBy :: "coercion \<Rightarrow> lodash \<Rightarrow> jsv list option \<Rightarrow> sort_arg list \<Rightarrow> jsv list" where
  "sortBy K l s h = (case s of None \<Rightarrow> [] | Some c \<Rightarrow> baseOrderBy K l c (baseFlatten1 h) [])"

section \<open>The order of the criteria\<close>

text \<open>Values that the language compares come first, then symbols, \<open>null\<close>, \<open>undefined\<close> and \<open>NaN\<close>.\<close>

fun crit_key :: "jsv \<Rightarrow> nat \<times> rat \<times> string" where
  "crit_key (VNum x) = (0, x, [])"
| "crit_key (VBool b) = (0, if b then 1 else 0, [])"
| "crit_key (VStr s) = (0, 0, s)"
| "crit_key (VSym _) = (1, 0, [])"
| "crit_key VNull = (2, 0, [])"
| "crit_key VUndef = (3, 0, [])"
| "crit_key VNaN = (4, 0, [])"
| "crit_key _ = (5, 0, [])"

text \<open>The pairs on which \<^const>\<open>compareAscending\<close> is that order: primitive values, not a string with a
  number or a boolean, and not two \<open>NaN\<close>.\<close>

fun numeric :: "jsv \<Rightarrow> bool" where
  "numeric (VNum _) = True" | "numeric (VBool _) = True" | "numeric _ = False"

fun textual :: "jsv \<Rightarrow> bool" where
  "textual (VStr _) = True" | "textual _ = False"

definition comparable :: "jsv \<Rightarrow> jsv \<Rightarrow> bool" where
  "comparable a b \<longleftrightarrow>
     crit_key a < (5, 0, []) \<and> crit_key b < (5, 0, []) \<and> \<not> (a = VNaN \<and> b = VNaN)
     \<and> \<not> (numeric a \<and> textual b) \<and> \<not> (textual a \<and> numeric b)"

lemma compareAscending_key:
  "comparable a b \<Longrightarrow> compareAscending C a b =
     (if crit_key a < crit_key b then -1 else if crit_key b < crit_key a then 1 else 0)"
  by (cases a; cases b)
    (auto simp: compareAscending_def js_less_def comparable_def isSymbol_def Let_def)

lemma compare_from_key:
  assumes "list_all2 comparable hs ys"
  shows "case compare_from C s hs ys [] of
      None \<Rightarrow> map crit_key hs = map crit_key ys
    | Some r \<Rightarrow> r < 0 \<and> map crit_key hs < map crit_key ys \<or> 0 < r \<and> map crit_key ys < map crit_key hs"
  using assms
proof (induction hs ys arbitrary: s rule: list_all2_induct)
  case (Cons h hs y ys)
  have "crit_key h < crit_key y \<or> crit_key y < crit_key h \<or> crit_key h = crit_key y" by fastforce
  then show ?case
    using Cons.IH [of "Suc s"] compareAscending_key [OF Cons.hyps(1), of C]
    by (auto simp: Let_def Cons_less_Cons split: option.splits)
qed simp

lemma compareMultiple_key:
  assumes "list_all2 comparable (si_criteria x) (si_criteria y)" and "si_index x < si_index y"
  shows "compareMultiple C x y [] \<le> 0 \<longleftrightarrow> map crit_key (si_criteria x) \<le> map crit_key (si_criteria y)"
  using compare_from_key [OF assms(1), of C 0] assms(2)
  by (auto simp: compareMultiple_def split: option.splits)

section \<open>A comparator sort as a sort by key\<close>

lemma insert_by_key:
  "\<forall>y \<in> set ys. (c x y \<le> 0) = (k x \<le> k y) \<Longrightarrow> insert_by c x ys = insort_key k x ys"
  by (induction ys) auto

lemma sort_by_key:
  "sorted_wrt (\<lambda>x y. (c x y \<le> 0) = (k x \<le> k y)) xs \<Longrightarrow> sort_by c xs = sort_key k xs"
  by (induction xs) (simp_all add: sort_by_def insert_by_key)

lemma map_insort_key: "map g (insort_key (\<lambda>x. k (g x)) x xs) = insort_key k (g x) (map g xs)"
  by (induction xs) simp_all

lemma map_sort_key: "map g (sort_key (\<lambda>x. k (g x)) xs) = sort_key k (map g xs)"
  by (induction xs) (simp_all add: map_insort_key)

lemma each_from_append:
  "each_from (\<lambda>y g h. (h @ [c y g], True)) xs s = s @ map (\<lambda>(v, i). c v i) xs"
  by (induction xs arbitrary: s) auto

lemma baseMap_zip: "baseMap i c = map (\<lambda>(v, j). c v j) (zip i [0..<length i])"
  by (simp add: baseMap_def baseEach_def each_from_append)

lemma baseFlatten1_concat: "baseFlatten1 i = concat (map (\<lambda>a. case a of Many xs \<Rightarrow> xs | One x \<Rightarrow> [x]) i)"
proof -
  have "foldl (\<lambda>y O'. case O' of Many xs \<Rightarrow> y @ xs | One x \<Rightarrow> y @ [x]) y i
      = y @ concat (map (\<lambda>a. case a of Many xs \<Rightarrow> xs | One x \<Rightarrow> [x]) i)" for y
    by (induction i arbitrary: y) (auto split: sort_arg.split)
  then show ?thesis by (simp add: baseFlatten1_def)
qed

text \<open>The criteria of a call.\<close>

definition criteria :: "lodash \<Rightarrow> iteratee list \<Rightarrow> (jsv \<Rightarrow> jsv) list" where
  "criteria l S = (if S \<noteq> [] then map (iteratee_fun l) S else [id])"

lemma sorted_wrt_zip_index:
  assumes "\<And>x y i j. x \<in> set xs \<Longrightarrow> P x y \<Longrightarrow> i < j \<Longrightarrow> Q (x, i) (y, j)" "sorted_wrt P xs"
  shows "sorted_wrt Q (zip xs [n..<n + length xs])"
  using assms
proof (induction xs arbitrary: n)
  case (Cons x xs)
  have "Q (x, n) q" if "q \<in> set (zip xs [Suc n..<Suc n + length xs])" for q
  proof -
    obtain y j where q: "q = (y, j)" by fastforce
    have "y \<in> set xs" "j \<in> set [Suc n..<Suc n + length xs]"
      using that unfolding q by (rule set_zip_leftD, rule set_zip_rightD)
    then show ?thesis using Cons.prems q by (simp del: upt_Suc)
  qed
  moreover have "sorted_wrt Q (zip xs [Suc n..<Suc n + length xs])"
    using Cons.prems by (intro Cons.IH) auto
  ultimately show ?case
    by (simp add: upt_conv_Cons del: upt_Suc)
qed simp

text \<open>C6: \<open>sortBy\<close> is a stable sort. When in every criterion the values of the collection are comparable with each
  other, the result is the collection sorted by the list of its criteria, the first one first, with equal
  elements in their order in the collection; the arguments may be iteratees or lists of them.\<close>

theorem sortBy_stable:
  assumes "\<forall>f \<in> set (criteria l (baseFlatten1 h)). sorted_wrt comparable (map f c)"
  shows "sortBy K l (Some c) h = sort_key (\<lambda>v. map (\<lambda>f. crit_key (f v)) (criteria l (baseFlatten1 h))) c"
proof -
  let ?fs = "criteria l (baseFlatten1 h)"
  let ?item = "\<lambda>(v, j). \<lparr>si_criteria = map (\<lambda>U. U v) ?fs, si_index = j, si_value = v\<rparr>"
  let ?k = "\<lambda>it. map (\<lambda>f. crit_key (f (si_value it))) ?fs"
  let ?D = "map ?item (zip c [0..<length c])"
  have p: "sorted_wrt (\<lambda>x y. \<forall>f \<in> set ?fs. comparable (f x) (f y)) c"
    using assms by (auto simp: sorted_wrt_map sorted_wrt_iff_nth_less)
  have "sorted_wrt (\<lambda>x y. (compareMultiple K (?item x) (?item y) [] \<le> 0) = (?k (?item x) \<le> ?k (?item y))) (zip c [0..<0 + length c])"
    by (rule sorted_wrt_zip_index [OF _ p])
      (simp add: compareMultiple_key list_all2_map1 list_all2_map2 list_all2_same comp_def)
  then have "sort_by (\<lambda>C R. compareMultiple K C R []) ?D = sort_key ?k ?D"
    by (intro sort_by_key) (simp add: sorted_wrt_map)
  then have "sortBy K l (Some c) h = map si_value (sort_key ?k ?D)"
    by (simp add: sortBy_def baseOrderBy_def baseSortBy_def baseMap_zip criteria_def Let_def)
  also have "\<dots> = sort_key (\<lambda>v. map (\<lambda>f. crit_key (f v)) ?fs) (map si_value ?D)"
    by (rule map_sort_key)
  also have "map si_value ?D = c" by (simp add: comp_def case_prod_unfold)
  finally show ?thesis .
qed

theorem sortBy_stable_witness:
  "\<forall>K l. sortBy K l (Some [VObj [(''v'', VNum 2)], VObj [], VObj [(''v'', VNum 1)]]) [One (ItFun (\<lambda>x. js_get x ''v''))]
   = [VObj [(''v'', VNum 1)], VObj [(''v'', VNum 2)], VObj []]"
  by (intro allI, subst sortBy_stable) (simp_all add: baseFlatten1_def criteria_def js_get_def comparable_def nullish_def)

section \<open>Calls cut short\<close>

text \<open>\<open>shortOut\<close> never skips one of its first 799 calls, and none that comes 16 ms or more after the previous
  one.\<close>

lemma so_count_bound: "so_count (fold (\<lambda>y s. fst (shortOut y s)) ts s) \<le> so_count s + length ts"
proof (induction ts arbitrary: s)
  case (Cons y ts)
  have "so_count (fst (shortOut y s)) \<le> Suc (so_count s)" by (simp add: shortOut_def Let_def)
  then show ?case using Cons.IH [of "fst (shortOut y s)"] by simp
qed simp

lemma shortOut_first_calls:
  assumes "so_count s = 0" "length ts < 799"
  shows "snd (shortOut y (fold (\<lambda>y s. fst (shortOut y s)) ts s))"
  using so_count_bound [of ts s] assms by (auto simp: shortOut_def Let_def)

lemma shortOut_slow: "16 \<le> y - so_last s \<Longrightarrow> snd (shortOut y s) \<and> so_count (fst (shortOut y s)) = 0"
  by (simp add: shortOut_def Let_def)

end
