(* ===== verification/Event_Emitter.thy ===== *)
theory Event_Emitter
  imports Prelude
begin

text \<open>
  The event emitter through which synchronised charts talk (\<open>Bne\<close>). The
  listeners of an event are one object or, from the second on, an array of
  them; the specification is a list of listeners for each event. A call of a
  listener may change the emitter in any way.
\<close>

section \<open>State\<close>

text \<open>Functions and contexts are their identity; the context 0 is the emitter itself.\<close>

record listener =
  ee_fn :: nat
  ee_context :: nat
  ee_once :: bool

datatype slot = One listener | Many "listener list"

text \<open>\<open>_events\<close> is an object without a prototype, so names need no prefix.\<close>

record emitter =
  em_events :: "(string \<times> slot) list"
  em_count :: int

datatype emitter_error = ListenerMustBeAFunction

definition new_emitter :: emitter where
  "new_emitter = \<lparr>em_events = [], em_count = 0\<rparr>"

section \<open>Operations\<close>

text \<open>\<open>s\<close>: \<^const>\<open>None\<close> as the function stands for a value that is no function.\<close>

definition addListener :: "bool \<Rightarrow> string \<Rightarrow> nat option \<Rightarrow> nat option \<Rightarrow> emitter \<Rightarrow> emitter_error + emitter" where
  "addListener once b fn context g =
     (case fn of
        None \<Rightarrow> Inl ListenerMustBeAFunction
      | Some f \<Rightarrow>
          (let w = \<lparr>ee_fn = f, ee_context = nullish context 0, ee_once = once\<rparr>
           in Inr (case map_of (em_events g) b of
                     Some (One l) \<Rightarrow> g\<lparr>em_events := obj_set b (Many [l, w]) (em_events g)\<rparr>
                   | Some (Many ls) \<Rightarrow> g\<lparr>em_events := obj_set b (Many (ls @ [w])) (em_events g)\<rparr>
                   | None \<Rightarrow> \<lparr>em_events = obj_set b (One w) (em_events g), em_count = em_count g + 1\<rparr>)))"

text \<open>\<open>h\<close>.\<close>

definition clearEvent :: "string \<Rightarrow> emitter \<Rightarrow> emitter" where
  "clearEvent b g =
     (let c = em_count g - 1
      in if c = 0 then \<lparr>em_events = [], em_count = c\<rparr>
         else \<lparr>em_events = filter (\<lambda>p. fst p \<noteq> b) (em_events g), em_count = c\<rparr>)"

definition eventNames :: "emitter \<Rightarrow> string list" where
  "eventNames g = (if em_count g = 0 then [] else map fst (em_events g))"

definition listeners :: "string \<Rightarrow> emitter \<Rightarrow> nat list" where
  "listeners b g =
     (case map_of (em_events g) b of
        None \<Rightarrow> [] | Some (One l) \<Rightarrow> [ee_fn l] | Some (Many ls) \<Rightarrow> map ee_fn ls)"

definition listenerCount :: "string \<Rightarrow> emitter \<Rightarrow> nat" where
  "listenerCount b g =
     (case map_of (em_events g) b of None \<Rightarrow> 0 | Some (One l) \<Rightarrow> 1 | Some (Many ls) \<Rightarrow> length ls)"

definition removeListener :: "string \<Rightarrow> nat option \<Rightarrow> nat option \<Rightarrow> bool \<Rightarrow> emitter \<Rightarrow> emitter" where
  "removeListener b fn context once g =
     (case map_of (em_events g) b of
        None \<Rightarrow> g
      | Some s \<Rightarrow>
          (case fn of
             None \<Rightarrow> clearEvent b g
           | Some f \<Rightarrow>
               (case s of
                  One l \<Rightarrow>
                    if ee_fn l = f \<and> (\<not> once \<or> ee_once l) \<and> (context = None \<or> context = Some (ee_context l))
                    then clearEvent b g else g
                | Many ls \<Rightarrow>
                    (let R = filter (\<lambda>l. ee_fn l \<noteq> f \<or> once \<and> \<not> ee_once l
                               \<or> context \<noteq> None \<and> context \<noteq> Some (ee_context l)) ls
                     in if R \<noteq> [] then g\<lparr>em_events := obj_set b (if length R = 1 then One (hd R) else Many R) (em_events g)\<rparr>
                        else clearEvent b g))))"

definition removeAllListeners :: "string option \<Rightarrow> emitter \<Rightarrow> emitter" where
  "removeAllListeners b g =
     (case b of
        Some n \<Rightarrow> if n \<noteq> [] then (if map_of (em_events g) n \<noteq> None then clearEvent n g else g) else new_emitter
      | None \<Rightarrow> new_emitter)"

text \<open>\<open>emit\<close>: the array and its length are read once, so the listeners called are those of the start.
  \<open>call\<close> is what a call of a listener does to the emitter. The result has the calls made.\<close>

fun emit_loop :: "(listener \<Rightarrow> 'a \<Rightarrow> emitter \<Rightarrow> emitter) \<Rightarrow> string \<Rightarrow> 'a \<Rightarrow> listener list \<Rightarrow> emitter \<Rightarrow> emitter \<times> listener list" where
  "emit_loop call b x [] g = (g, [])"
| "emit_loop call b x (l # ls) g =
     (let g1 = (if ee_once l then removeListener b (Some (ee_fn l)) None True g else g);
          (g2, log) = emit_loop call b x ls (call l x g1)
      in (g2, l # log))"

definition emit :: "(listener \<Rightarrow> 'a \<Rightarrow> emitter \<Rightarrow> emitter) \<Rightarrow> string \<Rightarrow> 'a \<Rightarrow> emitter \<Rightarrow> emitter \<times> listener list \<times> bool" where
  "emit call b x g =
     (case map_of (em_events g) b of
        None \<Rightarrow> (g, [], False)
      | Some (One l) \<Rightarrow> (let (g', log) = emit_loop call b x [l] g in (g', log, True))
      | Some (Many ls) \<Rightarrow> (let (g', log) = emit_loop call b x ls g in (g', log, True)))"

section \<open>The specification\<close>

text \<open>The listeners of each event, in the order of their registration.\<close>

definition registered_at :: "emitter \<Rightarrow> string \<Rightarrow> listener list" where
  "registered_at g b =
     (case map_of (em_events g) b of None \<Rightarrow> [] | Some (One l) \<Rightarrow> [l] | Some (Many ls) \<Rightarrow> ls)"

definition matches_call :: "nat \<Rightarrow> nat option \<Rightarrow> bool \<Rightarrow> listener \<Rightarrow> bool" where
  "matches_call f context once l \<longleftrightarrow>
     ee_fn l = f \<and> (once \<longrightarrow> ee_once l) \<and> (context = None \<or> context = Some (ee_context l))"

datatype emitter_op =
    OnOp bool string nat "nat option"
  | OffOp string "nat option" "nat option" bool
  | ClearOp "string option"

fun run_emitter :: "emitter_op \<Rightarrow> emitter \<Rightarrow> emitter" where
  "run_emitter (OnOp once b f c) g = (case addListener once b (Some f) c g of Inl _ \<Rightarrow> g | Inr g' \<Rightarrow> g')"
| "run_emitter (OffOp b f c once) g = removeListener b f c once g"
| "run_emitter (ClearOp b) g = removeAllListeners b g"

fun spec_emitter :: "emitter_op \<Rightarrow> (string \<Rightarrow> listener list) \<Rightarrow> (string \<Rightarrow> listener list)" where
  "spec_emitter (OnOp once b f c) m =
     m(b := m b @ [\<lparr>ee_fn = f, ee_context = nullish c 0, ee_once = once\<rparr>])"
| "spec_emitter (OffOp b f c once) m =
     m(b := (case f of None \<Rightarrow> [] | Some f' \<Rightarrow> filter (\<lambda>l. \<not> matches_call f' c once l) (m b)))"
| "spec_emitter (ClearOp b) m =
     (case b of Some n \<Rightarrow> if n \<noteq> [] then m(n := []) else (\<lambda>_. []) | None \<Rightarrow> (\<lambda>_. []))"

definition emitter_inv :: "emitter \<Rightarrow> bool" where
  "emitter_inv g \<longleftrightarrow>
     distinct (map fst (em_events g)) \<and> em_count g = int (length (em_events g))
     \<and> (\<forall>b ls. map_of (em_events g) b = Some (Many ls) \<longrightarrow> 2 \<le> length ls)"

section \<open>The refinement\<close>

lemma length_obj_set: "length (obj_set k v xs) = length xs + (if map_of xs k = None then 1 else 0)"
  by (induction xs) auto

lemma map_of_filter_key: "map_of (filter (\<lambda>p. fst p \<noteq> k) xs) = (map_of xs)(k := None)"
  by (induction xs) auto

lemma length_filter_key:
  "distinct (map fst xs) \<Longrightarrow> map_of xs k \<noteq> None \<Longrightarrow> length (filter (\<lambda>p. fst p \<noteq> k) xs) + 1 = length xs"
proof (induction xs)
  case (Cons p xs)
  have "fst p \<notin> fst ` set xs" using Cons.prems(1) by simp
  then have "filter (\<lambda>q. fst q \<noteq> fst p) xs = xs" by (intro filter_True) (metis imageI)
  then show ?case using Cons by (cases "fst p = k") simp_all
qed simp

lemma clearEvent_spec:
  assumes "emitter_inv g" "map_of (em_events g) b \<noteq> None"
  shows "emitter_inv (clearEvent b g) \<and> map_of (em_events (clearEvent b g)) = (map_of (em_events g))(b := None)"
proof -
  let ?f = "filter (\<lambda>p. fst p \<noteq> b) (em_events g)"
  have l: "length ?f + 1 = length (em_events g)"
    using assms by (intro length_filter_key) (simp_all add: emitter_inv_def)
  show ?thesis
  proof (cases "em_count g - 1 = 0")
    case True
    then have "?f = []" using l assms(1) by (simp add: emitter_inv_def)
    then have "map_of ?f = Map.empty" by simp
    then show ?thesis using True by (simp add: clearEvent_def emitter_inv_def map_of_filter_key)
  next
    case False
    then show ?thesis using assms l
      by (auto simp: clearEvent_def emitter_inv_def map_of_filter_key distinct_map_filter Let_def split: if_splits)
  qed
qed

lemma set_slot_inv:
  assumes "emitter_inv g" "map_of (em_events g) b \<noteq> None" "\<And>ls. s = Many ls \<Longrightarrow> 2 \<le> length ls"
  shows "emitter_inv (g\<lparr>em_events := obj_set b s (em_events g)\<rparr>)"
  using assms by (auto simp: emitter_inv_def length_obj_set distinct_obj_set split: if_splits)

lemma registered_upd:
  "registered_at g' b' = (case ((map_of (em_events g))(b := s)) b' of None \<Rightarrow> [] | Some (One l) \<Rightarrow> [l] | Some (Many ls) \<Rightarrow> ls)"
  if "map_of (em_events g') = (map_of (em_events g))(b := s)"
  using that by (simp add: registered_at_def)

lemma add_refines:
  assumes "emitter_inv g" "addListener once b (Some f) c g = Inr g'"
  shows "emitter_inv g' \<and> registered_at g' =
    (registered_at g)(b := registered_at g b @ [\<lparr>ee_fn = f, ee_context = nullish c 0, ee_once = once\<rparr>])"
proof (cases "map_of (em_events g) b")
  case None
  then have g': "g' = \<lparr>em_events = obj_set b (One \<lparr>ee_fn = f, ee_context = nullish c 0, ee_once = once\<rparr>) (em_events g),
      em_count = em_count g + 1\<rparr>" using assms(2) by (simp add: addListener_def Let_def)
  have "emitter_inv g'" using assms(1) None
    by (auto simp: g' emitter_inv_def length_obj_set distinct_obj_set split: if_splits)
  then show ?thesis using None by (auto simp: g' registered_at_def)
next
  case (Some s)
  then obtain s' where g': "g' = g\<lparr>em_events := obj_set b s' (em_events g)\<rparr>"
    and s': "s' = Many (registered_at g b @ [\<lparr>ee_fn = f, ee_context = nullish c 0, ee_once = once\<rparr>])"
    using assms(2) by (cases s) (auto simp: addListener_def Let_def registered_at_def)
  have "1 \<le> length (registered_at g b)"
    using assms(1) Some by (cases s) (fastforce simp: registered_at_def emitter_inv_def)+
  then have "emitter_inv g'" unfolding g' using assms(1) Some by (intro set_slot_inv) (auto simp: s')
  then show ?thesis by (auto simp: g' s' registered_at_def)
qed

lemma clear_refines:
  assumes "emitter_inv g" "map_of (em_events g) b \<noteq> None"
  shows "emitter_inv (clearEvent b g) \<and> registered_at (clearEvent b g) = (registered_at g)(b := [])"
  using clearEvent_spec [OF assms] by (auto simp: registered_at_def fun_eq_iff)

lemma remove_refines:
  assumes "emitter_inv g"
  shows "emitter_inv (removeListener b fn c once g) \<and> registered_at (removeListener b fn c once g) =
    (registered_at g)(b := (case fn of None \<Rightarrow> [] | Some f \<Rightarrow> filter (\<lambda>l. \<not> matches_call f c once l) (registered_at g b)))"
proof (cases "map_of (em_events g) b")
  case None
  then show ?thesis using assms by (auto simp: removeListener_def registered_at_def fun_eq_iff split: option.split)
next
  case (Some s)
  note cl = clear_refines [OF assms, of b] 
  show ?thesis
  proof (cases fn)
    case None
    then show ?thesis using Some cl by (simp add: removeListener_def)
  next
    case f: (Some f)
    have m: "(\<lambda>l. ee_fn l \<noteq> f \<or> once \<and> \<not> ee_once l \<or> c \<noteq> None \<and> c \<noteq> Some (ee_context l)) = (\<lambda>l. \<not> matches_call f c once l)"
      by (auto simp: matches_call_def)
    show ?thesis
    proof (cases s)
      case (One l)
      then have r: "registered_at g b = [l]" using Some by (simp add: registered_at_def)
      show ?thesis using Some f One cl r assms
        by (auto simp: removeListener_def matches_call_def)
    next
      case (Many ls)
      then have r: "registered_at g b = ls" using Some by (simp add: registered_at_def)
      let ?R = "filter (\<lambda>l. \<not> matches_call f c once l) ls"
      let ?s = "if length ?R = 1 then One (hd ?R) else Many ?R"
      have e: "removeListener b fn c once g =
          (if ?R \<noteq> [] then g\<lparr>em_events := obj_set b ?s (em_events g)\<rparr> else clearEvent b g)"
        by (simp only: removeListener_def Some f Many option.case slot.case m Let_def)
      show ?thesis
      proof (cases "?R = []")
        case True
        then show ?thesis using e cl Some by (simp add: f r)
      next
        case False
        then have "length ?R = 1 \<or> 2 \<le> length ?R" by (cases ?R rule: list.exhaust; cases "tl ?R") auto
        then have "emitter_inv (g\<lparr>em_events := obj_set b ?s (em_events g)\<rparr>)"
          using assms Some by (intro set_slot_inv) (auto split: if_splits)
        moreover have "(if length ?R = 1 then [hd ?R] else ?R) = ?R" by (cases ?R) auto
        ultimately show ?thesis using e False Some Many by (auto simp: f registered_at_def fun_eq_iff)
      qed
    qed
  qed
qed

lemma run_refines:
  assumes "emitter_inv g"
  shows "emitter_inv (run_emitter p g) \<and> registered_at (run_emitter p g) = spec_emitter p (registered_at g)"
proof (cases p)
  case (OnOp once b f c)
  obtain g' where "addListener once b (Some f) c g = Inr g'" by (simp add: addListener_def Let_def)
  then show ?thesis using OnOp add_refines [OF assms] by simp
next
  case (OffOp b f c once)
  then show ?thesis using remove_refines [OF assms, of b f c once] by (simp add: fun_upd_def)
next
  case (ClearOp b)
  have n: "emitter_inv new_emitter \<and> registered_at new_emitter = (\<lambda>_. [])"
    by (simp add: new_emitter_def emitter_inv_def registered_at_def fun_eq_iff)
  have "registered_at g = (registered_at g)(k := [])" if "map_of (em_events g) k = None" for k
    using that by (simp add: registered_at_def fun_eq_iff)
  then show ?thesis using ClearOp n clear_refines [OF assms] assms
    by (auto simp: removeAllListeners_def split: option.splits)
qed

lemma listeners_refine:
  "listeners b g = map ee_fn (registered_at g b)" "listenerCount b g = length (registered_at g b)"
  by (simp_all add: listeners_def listenerCount_def registered_at_def split: option.splits slot.splits)

lemma registered_empty:
  assumes "emitter_inv g"
  shows "registered_at g b = [] \<longleftrightarrow> map_of (em_events g) b = None"
proof (cases "map_of (em_events g) b")
  case (Some s)
  then have "s = Many ls \<Longrightarrow> ls \<noteq> []" for ls using assms by (fastforce simp: emitter_inv_def)
  then show ?thesis using Some by (cases s) (auto simp: registered_at_def)
qed (simp add: registered_at_def)

lemma eventNames_refine:
  assumes "emitter_inv g"
  shows "set (eventNames g) = {b. registered_at g b \<noteq> []}" "distinct (eventNames g)"
proof -
  have "b \<in> fst ` set (em_events g) \<longleftrightarrow> map_of (em_events g) b \<noteq> None" for b
    by (metis map_of_eq_None_iff)
  moreover have "map_of (em_events g) b \<noteq> None \<longleftrightarrow> registered_at g b \<noteq> []" for b
    using registered_empty [OF assms] by simp
  moreover have "em_count g = 0 \<longleftrightarrow> em_events g = []" using assms by (simp add: emitter_inv_def)
  ultimately show "set (eventNames g) = {b. registered_at g b \<noteq> []}" "distinct (eventNames g)"
    using assms by (auto simp: eventNames_def emitter_inv_def)
qed

text \<open>C5: The emitter implements a list of listeners for each event. After any sequence of \<open>on\<close>, \<open>once\<close>, \<open>removeListener\<close> and
  \<open>removeAllListeners\<close>, \<open>listeners\<close>, \<open>listenerCount\<close> and \<open>eventNames\<close> answer as the same
  operations on those lists do: registration appends, removal filters, and an event has a name exactly
  while it has listeners.\<close>

theorem emitter_refines_lists:
  "let g = fold run_emitter ops new_emitter; m = fold spec_emitter ops (\<lambda>_. [])
   in listeners b g = map ee_fn (m b) \<and> listenerCount b g = length (m b)
      \<and> set (eventNames g) = {b. m b \<noteq> []} \<and> distinct (eventNames g)"
proof -
  have "emitter_inv (fold run_emitter ops g0) \<and> registered_at (fold run_emitter ops g0) = fold spec_emitter ops (registered_at g0)"
    if "emitter_inv g0" for g0 using that
    by (induction ops arbitrary: g0) (simp_all add: run_refines)
  moreover have "emitter_inv new_emitter" "registered_at new_emitter = (\<lambda>_. [])"
    by (simp_all add: new_emitter_def emitter_inv_def registered_at_def fun_eq_iff)
  ultimately have "emitter_inv (fold run_emitter ops new_emitter)"
    "registered_at (fold run_emitter ops new_emitter) = fold spec_emitter ops (\<lambda>_. [])" by metis+
  then show ?thesis
    using listeners_refine [of b "fold run_emitter ops new_emitter"] eventNames_refine [of "fold run_emitter ops new_emitter"]
    by (simp add: Let_def)
qed

section \<open>Emitting\<close>

lemma emit_loop_log: "snd (emit_loop call b x ls g) = ls"
  by (induction ls arbitrary: g) (simp_all add: Let_def split_beta)

text \<open>\<open>emit\<close> calls the listeners registered when it starts, each once and in order, whatever they do to the
  emitter, and reports whether there were any.\<close>

lemma emit_calls:
  assumes "emitter_inv g"
  shows "fst (snd (emit call b x g)) = registered_at g b \<and> snd (snd (emit call b x g)) = (registered_at g b \<noteq> [])"
proof (cases "map_of (em_events g) b")
  case None
  then show ?thesis by (simp add: emit_def registered_at_def)
next
  case (Some s)
  then have "snd (snd (emit call b x g)) \<and> fst (snd (emit call b x g)) = registered_at g b"
    using emit_loop_log [of call b x] by (cases s) (simp_all add: emit_def registered_at_def split_beta del: emit_loop.simps)
  then show ?thesis using Some registered_empty [OF assms] by simp
qed

end
