(* ===== verification/Decimal_Core.thy ===== *)
theory Decimal_Core
  imports Prelude Complex_Main
begin

text \<open>
  The decimal numbers of the chart library: limbs in base \<open>10000000\<close>, most significant first, with an exponent
  that counts limbs. This theory has the representation and its value, the comparison and the
  queries. The arithmetic of the library on limbs stays below \<open>2\<close> to the \<open>53\<close>, where
  it is exact, and it truncates quotients with \<open>| 0\<close>; so limbs are natural numbers here.
\<close>

definition Kr :: nat where
  "Kr = 10000000"

definition qn :: nat where
  "qn = 7"

record decimal =
  d_s :: int
  d_e :: int
  d_d :: "nat list"

datatype decimal_error =
    InvalidArgument string
  | OutOfRange int
  | DivisionByZero
  | NotANumber

text \<open>The settings of a constructor; the logarithm of ten is not needed here.\<close>

record settings =
  st_precision :: nat
  st_rounding :: nat
  st_toExpNeg :: int
  st_toExpPos :: int

definition PQ :: settings where
  "PQ = \<lparr>st_precision = 20, st_rounding = 4, st_toExpNeg = -7, st_toExpPos = 21\<rparr>"

definition zero_decimal :: decimal where
  "zero_decimal = \<lparr>d_s = 0, d_e = 0, d_d = [0]\<rparr>"

section \<open>The value\<close>

primrec limbs :: "nat list \<Rightarrow> nat" where
  "limbs [] = 0"
| "limbs (a # d) = a * Kr ^ length d + limbs d"

definition base_pow :: "int \<Rightarrow> rat" where
  "base_pow k = of_nat Kr powi k"

definition magnitude :: "nat list \<Rightarrow> int \<Rightarrow> rat" where
  "magnitude d e = of_nat (limbs d) * base_pow (e - int (length d) + 1)"

definition dval :: "decimal \<Rightarrow> rat" where
  "dval x = of_int (d_s x) * magnitude (d_d x) (d_e x)"

definition limbs_ok :: "nat list \<Rightarrow> bool" where
  "limbs_ok d \<longleftrightarrow> d \<noteq> [] \<and> hd d \<noteq> 0 \<and> last d \<noteq> 0 \<and> (\<forall>a \<in> set d. a < Kr)"

definition dec_ok :: "decimal \<Rightarrow> bool" where
  "dec_ok x \<longleftrightarrow> x = zero_decimal \<or> (d_s x = 1 \<or> d_s x = -1) \<and> limbs_ok (d_d x)"

lemma Kr_pos [simp]: "0 < Kr" "Kr \<noteq> 0" "1 < Kr"
  by (simp_all add: Kr_def)

lemma limbs_append: "limbs (xs @ ys) = limbs xs * Kr ^ length ys + limbs ys"
  by (induction xs) (simp_all add: power_add algebra_simps)

lemma limbs_zeros [simp]: "limbs (replicate n 0) = 0"
  by (induction n) simp_all

lemma limbs_less: "\<forall>a \<in> set d. a < Kr \<Longrightarrow> limbs d < Kr ^ length d"
proof (induction d)
  case (Cons a d)
  then have "Suc a \<le> Kr" "limbs d < Kr ^ length d" by auto
  then have "a * Kr ^ length d + limbs d < Suc a * Kr ^ length d" by simp
  also have "\<dots> \<le> Kr * Kr ^ length d" using \<open>Suc a \<le> Kr\<close> by (rule mult_le_mono1)
  finally show ?case by simp
qed simp

lemma limbs_ge: "a \<noteq> 0 \<Longrightarrow> Kr ^ length d \<le> limbs (a # d)"
  by (cases a) simp_all

lemma base_pow_pos [simp]: "0 < base_pow k"
  by (simp add: base_pow_def)

lemma base_pow_nonzero [simp]: "base_pow k \<noteq> 0"
  using base_pow_pos [of k] by linarith

lemma base_pow_add: "base_pow (j + k) = base_pow j * base_pow k"
  by (simp add: base_pow_def power_int_add)

lemma base_pow_nat: "base_pow (int n) = of_nat (Kr ^ n)"
  by (simp add: base_pow_def)

lemma base_pow_le: "j \<le> k \<Longrightarrow> base_pow j \<le> base_pow k"
  by (simp add: base_pow_def power_int_increasing Kr_def)

lemma base_pow_0 [simp]: "base_pow 0 = 1"
  by (simp add: base_pow_def)

text \<open>Zeros at the end do not count, and a zero in front only shifts the exponent.\<close>

lemma magnitude_append_zeros [simp]: "magnitude (d @ replicate n 0) e = magnitude d e"
proof -
  have "base_pow (e - int (length d) + 1) = of_nat (Kr ^ n) * base_pow (e - int (length d + n) + 1)"
    using base_pow_add [of "int n" "e - int (length d + n) + 1"] by (simp add: base_pow_nat algebra_simps)
  then show ?thesis by (simp add: magnitude_def limbs_append mult.assoc)
qed

lemma magnitude_zero_Cons [simp]: "magnitude (0 # d) e = magnitude d (e - 1)"
  by (simp add: magnitude_def algebra_simps)

lemma magnitude_prepend_zeros: "magnitude (replicate n 0 @ d) e = magnitude d (e - int n)"
  by (induction n arbitrary: e) (simp_all add: algebra_simps)

text \<open>Reading the magnitude in units of the limb at position \<open>k\<close>.\<close>

definition frac_val :: "nat list \<Rightarrow> rat" where
  "frac_val d = of_nat (limbs d) / of_nat (Kr ^ length d)"

lemma frac_val_simps [simp]: "frac_val [] = 0" "frac_val (a # d) = (of_nat a + frac_val d) / of_nat Kr"
  by (simp_all add: frac_val_def field_simps)

lemma frac_val_nonneg [simp]: "0 \<le> frac_val d"
  by (simp add: frac_val_def)

lemma frac_val_less: "\<forall>a \<in> set d. a < Kr \<Longrightarrow> frac_val d < 1"
proof -
  assume "\<forall>a \<in> set d. a < Kr"
  then have "(of_nat (limbs d) :: rat) < of_nat (Kr ^ length d)" unfolding of_nat_less_iff by (rule limbs_less)
  then show ?thesis by (simp add: frac_val_def pos_divide_less_eq)
qed

lemma frac_val_pos: "d \<noteq> [] \<Longrightarrow> last d \<noteq> 0 \<Longrightarrow> 0 < frac_val d"
proof (induction d)
  case (Cons a d)
  then have "0 < of_nat a + frac_val d"
    by (cases "d = []") (auto intro: add_nonneg_pos)
  then show ?case by simp
qed simp

lemma magnitude_scale: "magnitude d e = frac_val d * base_pow (e + 1)"
proof -
  have "base_pow (e + 1) = base_pow (e - int (length d) + 1) * base_pow (int (length d))"
    by (subst base_pow_add [symmetric]) simp
  then show ?thesis by (simp add: magnitude_def frac_val_def base_pow_nat)
qed

lemma magnitude_less: "\<forall>a \<in> set d. a < Kr \<Longrightarrow> magnitude d e < base_pow (e + 1)"
  unfolding magnitude_scale using frac_val_less [of d] base_pow_pos [of "e + 1"] by simp

lemma magnitude_ge:
  assumes "d \<noteq> []" "hd d \<noteq> 0"
  shows "base_pow e \<le> magnitude d e"
proof -
  obtain a ds where d: "d = a # ds" "a \<noteq> 0" using assms by (cases d) auto
  have "(of_nat (Kr ^ length ds) :: rat) \<le> of_nat (limbs d)" unfolding of_nat_le_iff d(1) using d(2) by (rule limbs_ge)
  then have "of_nat (Kr ^ length ds) * base_pow (e - int (length d) + 1) \<le> magnitude d e"
    unfolding magnitude_def by (rule mult_right_mono) (simp add: less_imp_le)
  moreover have "of_nat (Kr ^ length ds) * base_pow (e - int (length d) + 1) = base_pow e"
    unfolding base_pow_nat [symmetric] base_pow_add [symmetric] by (simp add: d(1))
  ultimately show ?thesis by simp
qed

lemma magnitude_nonneg [simp]: "0 \<le> magnitude d e"
  by (simp add: magnitude_def less_imp_le)

lemma magnitude_pos: "limbs_ok d \<Longrightarrow> 0 < magnitude d e"
  using less_le_trans [OF base_pow_pos magnitude_ge [of d e]] by (simp add: limbs_ok_def)

lemma magnitude_pos_iff: "0 < magnitude d e \<longleftrightarrow> limbs d \<noteq> 0"
  by (simp add: magnitude_def zero_less_mult_iff)

section \<open>Comparing\<close>

text \<open>\<open>cmp\<close>: signs, exponents, then the limbs; \<open>n\<close> says that both numbers are negative.\<close>

definition cmp_sign :: "bool \<Rightarrow> bool \<Rightarrow> int" where
  "cmp_sign gt n = (if gt \<noteq> n then 1 else -1)"

fun cmp_limbs :: "bool \<Rightarrow> nat list \<Rightarrow> nat list \<Rightarrow> int" where
  "cmp_limbs n [] [] = 0"
| "cmp_limbs n (a # d) [] = cmp_sign True n"
| "cmp_limbs n [] (b # d) = cmp_sign False n"
| "cmp_limbs n (a # d) (b # d') = (if a \<noteq> b then cmp_sign (b < a) n else cmp_limbs n d d')"

definition dec_cmp :: "decimal \<Rightarrow> decimal \<Rightarrow> int" where
  "dec_cmp s e =
     (if d_s s \<noteq> d_s e then (if d_s s \<noteq> 0 then d_s s else - d_s e)
      else if d_e s \<noteq> d_e e then cmp_sign (d_e e < d_e s) (d_s s < 0)
      else cmp_limbs (d_s s < 0) (d_d s) (d_d e))"

definition dec_eq :: "decimal \<Rightarrow> decimal \<Rightarrow> bool" where "dec_eq x y \<longleftrightarrow> dec_cmp x y = 0"
definition dec_gt :: "decimal \<Rightarrow> decimal \<Rightarrow> bool" where "dec_gt x y \<longleftrightarrow> 0 < dec_cmp x y"
definition dec_gte :: "decimal \<Rightarrow> decimal \<Rightarrow> bool" where "dec_gte x y \<longleftrightarrow> 0 \<le> dec_cmp x y"
definition dec_lt :: "decimal \<Rightarrow> decimal \<Rightarrow> bool" where "dec_lt x y \<longleftrightarrow> dec_cmp x y < 0"
definition dec_lte :: "decimal \<Rightarrow> decimal \<Rightarrow> bool" where "dec_lte x y \<longleftrightarrow> dec_cmp x y < 1"

definition dec_abs :: "decimal \<Rightarrow> decimal" where
  "dec_abs e = (if d_s e \<noteq> 0 then e\<lparr>d_s := 1\<rparr> else e)"

definition dec_neg :: "decimal \<Rightarrow> decimal" where
  "dec_neg e = e\<lparr>d_s := - d_s e\<rparr>"

definition isneg :: "decimal \<Rightarrow> bool" where "isneg x \<longleftrightarrow> d_s x < 0"
definition ispos :: "decimal \<Rightarrow> bool" where "ispos x \<longleftrightarrow> 0 < d_s x"
definition isZero :: "decimal \<Rightarrow> bool" where "isZero x \<longleftrightarrow> d_s x = 0"
definition isint :: "decimal \<Rightarrow> bool" where "isint x \<longleftrightarrow> int (length (d_d x)) - 2 < d_e x"

text \<open>Limb lists of numbers with the same exponent, compared as fractions.\<close>

lemma cmp_limbs_sign:
  assumes "\<forall>a \<in> set d. a < Kr" "\<forall>a \<in> set d'. a < Kr" "d = [] \<or> last d \<noteq> 0" "d' = [] \<or> last d' \<noteq> 0"
  shows "of_int (cmp_limbs n d d') = (if n then -1 else 1) * sgn (frac_val d - frac_val d')"
  using assms
proof (induction n d d' rule: cmp_limbs.induct)
  case (2 n a d)
  then have "0 < frac_val (a # d)" by (intro frac_val_pos) auto
  then show ?case by (simp add: cmp_sign_def del: frac_val_simps(2))
next
  case (3 n b d)
  then have "0 < frac_val (b # d)" by (intro frac_val_pos) auto
  then show ?case by (simp add: cmp_sign_def del: frac_val_simps(2))
next
  case (4 n a d b d')
  have f: "frac_val d < 1" "frac_val d' < 1" using 4 by (auto intro!: frac_val_less)
  have e: "frac_val (a # d) - frac_val (b # d') = ((of_nat a - of_nat b) + (frac_val d - frac_val d')) / of_nat Kr"
    by (simp add: diff_divide_distrib add_divide_distrib)
  have s: "sgn (x / of_nat Kr) = sgn x" for x :: rat by (simp add: sgn_if zero_less_divide_iff divide_less_0_iff)
  consider "a = b" | "a < b" | "b < a" by linarith
  then show ?case
  proof cases
    case 1
    moreover have "d = [] \<or> last d \<noteq> 0" "d' = [] \<or> last d' \<noteq> 0" using 4 by (auto split: if_splits)
    ultimately show ?thesis using 4 unfolding e s by simp
  next
    case 2
    then have "(of_nat a :: rat) + 1 \<le> of_nat b" by (metis Suc_leI add.commute of_nat_Suc of_nat_le_iff)
    then have "of_nat a - of_nat b + (frac_val d - frac_val d') < 0" using f(1) frac_val_nonneg [of d'] by linarith
    then show ?thesis using 2 unfolding e s by (simp add: cmp_sign_def)
  next
    case 3
    then have "(of_nat b :: rat) + 1 \<le> of_nat a" by (metis Suc_leI add.commute of_nat_Suc of_nat_le_iff)
    then have "0 < of_nat a - of_nat b + (frac_val d - frac_val d')" using f(2) frac_val_nonneg [of d] by linarith
    then show ?thesis using 3 unfolding e s by (simp add: cmp_sign_def)
  qed
qed simp

lemma limbs_okD: "limbs_ok d \<Longrightarrow> (\<forall>a \<in> set d. a < Kr) \<and> (d = [] \<or> last d \<noteq> 0) \<and> d \<noteq> [] \<and> hd d \<noteq> 0"
  by (auto simp: limbs_ok_def)

text \<open>The comparison of two magnitudes.\<close>

lemma compare_magnitudes:
  assumes "limbs_ok d" "limbs_ok d'"
  shows "of_int (if e \<noteq> e' then cmp_sign (e' < e) n else cmp_limbs n d d')
    = (if n then -1 else 1) * sgn (magnitude d e - magnitude d' e')"
proof -
  note ok = limbs_okD [OF assms(1)] limbs_okD [OF assms(2)]
  consider "e = e'" | "e < e'" | "e' < e" by linarith
  then show ?thesis
  proof cases
    case 1
    have "magnitude d e - magnitude d' e = (frac_val d - frac_val d') * base_pow (e + 1)"
      by (simp add: magnitude_scale algebra_simps)
    then have "sgn (magnitude d e - magnitude d' e) = sgn (frac_val d - frac_val d')"
      by (simp add: sgn_mult sgn_1_pos)
    then show ?thesis using 1 cmp_limbs_sign [of d d' n] ok by auto
  next
    case 2
    then have "magnitude d e < magnitude d' e'"
      using magnitude_less [of d e] magnitude_ge [of d' e'] ok base_pow_le [of "e + 1" e'] by (auto intro: less_le_trans)
    then show ?thesis using 2 by (simp add: cmp_sign_def)
  next
    case 3
    then have "magnitude d' e' < magnitude d e"
      using magnitude_less [of d' e'] magnitude_ge [of d e] ok base_pow_le [of "e' + 1" e] by (auto intro: less_le_trans)
    then show ?thesis using 3 by (simp add: cmp_sign_def)
  qed
qed

lemma dval_zero [simp]: "dval zero_decimal = 0"
  by (simp add: dval_def zero_decimal_def)

lemma dec_okE:
  assumes "dec_ok x"
  obtains "x = zero_decimal" | s where "d_s x = s" "s = 1 \<or> s = -1" "limbs_ok (d_d x)"
  using assms by (auto simp: dec_ok_def)

lemma dval_sign: "dec_ok x \<Longrightarrow> sgn (dval x) = of_int (d_s x)"
  by (erule dec_okE) (auto simp: dval_def zero_decimal_def sgn_mult sgn_1_pos dest: magnitude_pos [where e = "d_e x"])

text \<open>C32: Comparing decimal numbers is comparing their values, for all signs, lengths and exponents.\<close>

theorem dec_cmp_exact:
  assumes "dec_ok x" and "dec_ok y"
  shows "of_int (dec_cmp x y) = sgn (dval x - dval y)"
proof (cases "d_s x = d_s y")
  case True
  show ?thesis
  proof (cases "d_s x = 0")
    case True
    then have "x = zero_decimal" "y = zero_decimal" using assms \<open>d_s x = d_s y\<close> by (auto simp: dec_ok_def)
    then show ?thesis by (simp add: dec_cmp_def zero_decimal_def)
  next
    case False
    then have ok: "limbs_ok (d_d x)" "limbs_ok (d_d y)" and s: "d_s x = 1 \<or> d_s x = -1"
      using assms \<open>d_s x = d_s y\<close> by (auto simp: dec_ok_def zero_decimal_def)
    have "dval x - dval y = of_int (d_s x) * (magnitude (d_d x) (d_e x) - magnitude (d_d y) (d_e y))"
      by (simp add: dval_def \<open>d_s x = d_s y\<close> algebra_simps)
    then have "sgn (dval x - dval y) = (if d_s x < 0 then -1 else 1) * sgn (magnitude (d_d x) (d_e x) - magnitude (d_d y) (d_e y))"
      using s by (auto simp: sgn_if)
    then show ?thesis
      using compare_magnitudes [OF ok, of "d_e x" "d_e y" "d_s x < 0"] \<open>d_s x = d_s y\<close> by (simp add: dec_cmp_def)
  qed
next
  case False
  have "sgn (dval x) = of_int (d_s x)" "sgn (dval y) = of_int (d_s y)" using assms by (simp_all add: dval_sign)
  moreover have "d_s x \<in> {-1, 0, 1}" "d_s y \<in> {-1, 0, 1}" using assms by (auto simp: dec_ok_def zero_decimal_def)
  ultimately show ?thesis using False
    by (auto simp: dec_cmp_def sgn_if split: if_splits)
qed

theorem dec_cmp_exact_witness:
  "dec_cmp \<lparr>d_s = -1, d_e = 1, d_d = [3, 5]\<rparr> \<lparr>d_s = -1, d_e = 1, d_d = [3]\<rparr> = -1"
proof -
  have "dec_ok \<lparr>d_s = -1, d_e = 1, d_d = [3, 5]\<rparr>" "dec_ok \<lparr>d_s = -1, d_e = 1, d_d = [3]\<rparr>"
    by (simp_all add: dec_ok_def limbs_ok_def Kr_def)
  from dec_cmp_exact [OF this] show ?thesis by (simp add: dval_def magnitude_def base_pow_def Kr_def)
qed

end
