(* ===== verification/Decimal_Round.thy ===== *)
theory Decimal_Round
  imports Decimal_Core
begin

text \<open>
  Rounding of decimal numbers: \<open>xn\<close> keeps a number of significant digits. The quotients by powers of ten
  that the code computes in floating point and truncates are the integer quotients, because
  the dividends are below \<open>10000000\<close>.
\<close>

section \<open>The code\<close>

text \<open>The number of digits of a limb: the loop that divides by ten.\<close>

fun count10 :: "nat \<Rightarrow> nat" where
  "count10 n = (if n < 10 then 1 else Suc (count10 (n div 10)))"

declare count10.simps [simp del]

text \<open>\<open>Rr\<close>: the exponent of the leading digit.\<close>

definition exponent :: "decimal \<Rightarrow> int" where
  "exponent e = d_e e * int qn + int (count10 (hd (d_d e))) - 1"

definition pop_zeros :: "nat list \<Rightarrow> nat list" where
  "pop_zeros d = rev (dropWhile (\<lambda>a. a = 0) (rev d))"

definition max_exponent :: int where
  "max_exponent = 9007199254740991 div 7"

definition check_exponent :: "bool \<Rightarrow> decimal \<Rightarrow> decimal_error + decimal" where
  "check_exponent ext e =
     (if ext \<and> (max_exponent < d_e e \<or> d_e e < - max_exponent) then Inl (OutOfRange (exponent e)) else Inr e)"

text \<open>Whether the kept digits are increased: \<open>a\<close> is the rounding mode, \<open>y\<close> the first digit that is dropped, \<open>rest\<close>
  whether something follows it, \<open>od\<close> whether the last kept digit is odd.\<close>

definition round_up :: "nat option \<Rightarrow> bool \<Rightarrow> nat \<Rightarrow> bool \<Rightarrow> bool \<Rightarrow> bool" where
  "round_up m neg y rest od =
     (case m of
        None \<Rightarrow> False
      | Some a \<Rightarrow>
          if a < 4 then (y \<noteq> 0 \<or> rest) \<and> (a = 0 \<or> a = (if neg then 3 else 2))
          else 5 < y \<or> y = 5 \<and> (a = 4 \<or> rest \<or> a = 6 \<and> od \<or> a = (if neg then 8 else 7)))"

text \<open>The carry loop, on the limbs from the last to the first; the flag says that the first limb overflowed.\<close>

fun bump :: "nat list \<Rightarrow> nat \<Rightarrow> nat list \<times> bool" where
  "bump [] s = ([], False)"
| "bump [x] s = (if x + s = Kr then ([1], True) else ([x + s], False))"
| "bump (x # y # r) s =
     (if x + s \<noteq> Kr then ((x + s) # y # r, False) else (let (r', o') = bump (y # r) 1 in (0 # r', o')))"

text \<open>The limb \<open>b\<close> at index \<open>O'\<close> where the cut is, the number \<open>i\<close> of its digits (of seven) that stay, its number of
  digits \<open>h\<close> and the number \<open>c\<close> of its written digits that stay.\<close>

record cut =
  ct_O :: nat
  ct_b :: nat
  ct_h :: int
  ct_i :: int
  ct_c :: int

definition find_cut :: "nat list \<Rightarrow> int \<Rightarrow> cut option" where
  "find_cut S t =
     (let h = int (count10 (hd S)); i = t - h
      in if i < 0 then Some \<lparr>ct_O = 0, ct_b = hd S, ct_h = h, ct_i = i + int qn, ct_c = t\<rparr>
         else (let O' = nat ((i + 7) div int qn)
               in if length S \<le> O' then None
                  else (let b = S ! O'; h' = int (count10 b); i' = i mod int qn
                        in Some \<lparr>ct_O = O', ct_b = b, ct_h = h', ct_i = i', ct_c = i' - int qn + h'\<rparr>)))"

definition cut_up :: "nat option \<Rightarrow> bool \<Rightarrow> nat list \<Rightarrow> int \<Rightarrow> cut \<Rightarrow> bool" where
  "cut_up m neg S t k =
     (let s = 10 ^ nat (ct_h k - ct_c k - 1);
          y = ct_b k div s mod 10;
          rest = (t < 0 \<or> Suc (ct_O k) < length S \<or> ct_b k mod s \<noteq> 0);
          prev = (if 0 < ct_i k then (if 0 < ct_c k then ct_b k div 10 ^ nat (ct_h k - ct_c k) else 0)
                  else if ct_O k = 0 then 0 else S ! (ct_O k - 1))
      in round_up m neg y rest (odd (prev mod 10)))"

text \<open>\<open>xn\<close>; \<open>t\<close> is the number of significant digits and \<open>m\<close> the rounding mode. Without a mode the digits are
  dropped.\<close>

definition tiny :: "bool \<Rightarrow> decimal \<Rightarrow> int \<Rightarrow> decimal" where
  "tiny g e t =
     (if g then (let t' = t - exponent e - 1
                 in e\<lparr>d_d := [10 ^ nat ((- t') mod int qn)], d_e := (- t') div int qn\<rparr>)
      else zero_decimal)"

definition kept :: "nat list \<Rightarrow> cut \<Rightarrow> nat list \<times> nat" where
  "kept S k =
     (if ct_i k = 0 then (take (ct_O k) S, 1)
      else (let s = 10 ^ nat (int qn - ct_i k)
            in (take (ct_O k) S @
                  [if 0 < ct_c k then (ct_b k div 10 ^ nat (ct_h k - ct_c k) mod 10 ^ nat (ct_c k)) * s else 0], s)))"

definition xn :: "bool \<Rightarrow> decimal \<Rightarrow> int \<Rightarrow> nat option \<Rightarrow> decimal_error + decimal" where
  "xn ext e t m =
     (let S = d_d e in
      case find_cut S t of
        None \<Rightarrow> Inr e
      | Some k \<Rightarrow>
          (let g = cut_up m (d_s e < 0) S t k
           in if t < 1 \<or> hd S = 0 then Inr (tiny g e t)
              else (let (S1, s) = kept S k;
                        (S2, o') = (if g then map_prod rev id (bump (rev S1) s) else (S1, False))
                    in check_exponent ext (e\<lparr>d_d := pop_zeros S2, d_e := d_e e + (if o' then 1 else 0)\<rparr>))))"

section \<open>Rounding rational numbers\<close>

text \<open>What each rounding mode means for a nonnegative number \<open>m\<close> that is to be made an integer, and the sign of the
  number it stands for.\<close>

definition round_spec :: "nat option \<Rightarrow> bool \<Rightarrow> rat \<Rightarrow> int" where
  "round_spec mode neg m =
     (case mode of
        None \<Rightarrow> \<lfloor>m\<rfloor>
      | Some a \<Rightarrow>
          if a = 0 then \<lceil>m\<rceil>
          else if a = 1 then \<lfloor>m\<rfloor>
          else if a = 2 then (if neg then \<lfloor>m\<rfloor> else \<lceil>m\<rceil>)
          else if a = 3 then (if neg then \<lceil>m\<rceil> else \<lfloor>m\<rfloor>)
          else if a = 4 then \<lfloor>m + 1 / 2\<rfloor>
          else if a = 5 then \<lceil>m - 1 / 2\<rceil>
          else if a = 6 then (if frac m = 1 / 2 then (if even \<lfloor>m\<rfloor> then \<lfloor>m\<rfloor> else \<lfloor>m\<rfloor> + 1) else \<lfloor>m + 1 / 2\<rfloor>)
          else if a = 7 then (if neg then \<lceil>m - 1 / 2\<rceil> else \<lfloor>m + 1 / 2\<rfloor>)
          else (if neg then \<lfloor>m + 1 / 2\<rfloor> else \<lceil>m - 1 / 2\<rceil>))"

text \<open>The decision by the first dropped digit and the rest: \<open>m\<close> is \<open>q + (y + r) / 10\<close>.\<close>

lemma round_up_correct:
  assumes "0 \<le> r" "r < 1" "y < 10" "\<forall>a. mode = Some a \<longrightarrow> a \<le> 8"
  shows "round_spec mode neg (of_nat q + (of_nat y + r) / 10)
    = int q + (if round_up mode neg y (r \<noteq> 0) (odd q) then 1 else 0)"
proof -
  let ?f = "(of_nat y + r) / 10 :: rat"
  let ?m = "of_nat q + ?f"
  have "y \<le> 9" using assms(3) by simp
  then have "of_nat y \<le> (of_nat 9 :: rat)" by (simp only: of_nat_le_iff)
  then have y9: "of_nat y \<le> (9 :: rat)" by simp
  have f: "0 \<le> ?f" "?f < 1" using assms(1,2) y9 by auto
  have fl: "\<lfloor>?m\<rfloor> = int q" using f by (simp add: floor_eq_iff)
  have ce: "\<lceil>?m\<rceil> = int q + (if y \<noteq> 0 \<or> r \<noteq> 0 then 1 else 0)"
  proof (cases "y = 0 \<and> r = 0")
    case True
    then show ?thesis by simp
  next
    case False
    then have "0 < ?f" using assms(1) by (cases "y = 0") (auto intro: add_pos_nonneg)
    then have "\<lceil>?m\<rceil> = int q + 1" using f by (simp add: ceiling_eq_iff)
    then show ?thesis using False by auto
  qed
  have y5: "5 \<le> y \<Longrightarrow> 5 \<le> (of_nat y :: rat)" "y < 5 \<Longrightarrow> of_nat y \<le> (4 :: rat)" "5 < y \<Longrightarrow> 6 \<le> (of_nat y :: rat)"
    using of_nat_le_iff [of 5 y, where 'a = rat] of_nat_le_iff [of y 4, where 'a = rat]
      of_nat_le_iff [of 6 y, where 'a = rat] by simp_all
  have hu: "\<lfloor>?m + 1 / 2\<rfloor> = int q + (if 5 \<le> y then 1 else 0)"
  proof (cases "5 \<le> y")
    case True
    then have "1 / 2 \<le> ?f" using assms(1) y5(1) by simp
    then have "\<lfloor>?m + 1 / 2\<rfloor> = int q + 1" using f unfolding floor_eq_iff of_int_add of_int_of_nat_eq of_int_1 by linarith
    then show ?thesis using True by simp
  next
    case False
    then have "?f < 1 / 2" using assms(2) y5(2) by simp
    then have "\<lfloor>?m + 1 / 2\<rfloor> = int q" using f unfolding floor_eq_iff of_int_of_nat_eq by linarith
    then show ?thesis using False by simp
  qed
  have hd: "\<lceil>?m - 1 / 2\<rceil> = int q + (if 5 < y \<or> y = 5 \<and> r \<noteq> 0 then 1 else 0)"
  proof (cases "5 < y \<or> y = 5 \<and> r \<noteq> 0")
    case True
    then have "1 / 2 < ?f" using assms(1) y5(3) by auto
    then have "\<lceil>?m - 1 / 2\<rceil> = int q + 1" using f unfolding ceiling_eq_iff of_int_add of_int_of_nat_eq of_int_1 by linarith
    then show ?thesis using True by simp
  next
    case False
    then have "?f \<le> 1 / 2" using assms(2) y5(2) by (cases "y = 5") auto
    then have "\<lceil>?m - 1 / 2\<rceil> = int q" using f unfolding ceiling_eq_iff of_int_of_nat_eq by linarith
    then show ?thesis using False by simp
  qed
  have fr: "frac ?m = 1 / 2 \<longleftrightarrow> y = 5 \<and> r = 0"
  proof -
    have "frac ?m = ?f" using fl by (simp add: frac_def)
    moreover have "?f = 1 / 2 \<longleftrightarrow> y = 5 \<and> r = 0"
    proof
      assume "?f = 1 / 2"
      then have e: "of_nat y + r = 5" by simp
      then have "y = 5" using assms(1,2) y5(2,3) by (cases y "5 :: nat" rule: linorder_cases) auto
      then show "y = 5 \<and> r = 0" using e by simp
    qed simp
    ultimately show ?thesis by (simp only:)
  qed
  define m where "m = ?m"
  note facts = fl [folded m_def] ce [folded m_def] hu [folded m_def] hd [folded m_def] fr [folded m_def]
  have "frac m * 2 = 1 \<longleftrightarrow> frac m = 1 / 2" by linarith
  then have fr2: "frac m * 2 = 1 \<longleftrightarrow> y = 5 \<and> r = 0" unfolding facts(5) .
  have "round_spec mode neg m = int q + (if round_up mode neg y (r \<noteq> 0) (odd q) then 1 else 0)"
  proof (cases mode)
    case None
    then show ?thesis by (simp add: round_spec_def round_up_def facts)
  next
    case (Some a)
    then have "a = 0 \<or> a = 1 \<or> a = 2 \<or> a = 3 \<or> a = 4 \<or> a = 5 \<or> a = 6 \<or> a = 7 \<or> a = 8"
      using assms(4) by auto
    then show ?thesis unfolding Some
      by (elim disjE; auto simp: round_spec_def round_up_def facts fr2)
  qed
  then show ?thesis unfolding m_def .
qed

end
