(* ===== verification/Decimal_Digits.thy ===== *)
theory Decimal_Digits
  imports Decimal_Round
begin

text \<open>
  The loops over limbs that rounding uses: removing zeros at the end, the carry, the number of digits of a
  limb, and the digits on both sides of a cut.
\<close>

section \<open>Correctness\<close>

text \<open>Removing zeros at the end.\<close>

lemma pop_zeros_split: "\<exists>n. d = pop_zeros d @ replicate n 0"
proof -
  let ?w = "takeWhile (\<lambda>a. a = 0) (rev d)"
  have "?w = replicate (length ?w) 0" by (rule replicate_length_same [symmetric]) (auto dest: set_takeWhileD)
  moreover have "d = pop_zeros d @ rev ?w"
    unfolding pop_zeros_def by (metis rev_append rev_rev_ident takeWhile_dropWhile_id)
  ultimately show ?thesis by (metis rev_replicate)
qed

lemma magnitude_pop_zeros [simp]: "magnitude (pop_zeros d) e = magnitude d e"
  using pop_zeros_split [of d] magnitude_append_zeros by metis

lemma pop_zeros_ok:
  assumes "d \<noteq> []" "hd d \<noteq> 0" "\<forall>a \<in> set d. a < Kr"
  shows "limbs_ok (pop_zeros d)"
proof -
  obtain n where n: "d = pop_zeros d @ replicate n 0" using pop_zeros_split by blast
  have ne: "pop_zeros d \<noteq> []"
  proof
    assume "pop_zeros d = []"
    then have "d = replicate n 0" using n by simp
    then show False using assms(1,2) by (cases n) auto
  qed
  then have "hd (pop_zeros d) = hd d" by (subst n) (simp add: hd_append)
  moreover have "last (pop_zeros d) \<noteq> 0"
  proof -
    have "dropWhile (\<lambda>a. a = 0) (rev d) \<noteq> []" using ne by (simp add: pop_zeros_def)
    then have "hd (dropWhile (\<lambda>a. a = 0) (rev d)) \<noteq> 0" by (rule hd_dropWhile)
    then show ?thesis using ne by (simp add: pop_zeros_def last_rev)
  qed
  moreover have "set (pop_zeros d) \<subseteq> set d" by (auto simp: pop_zeros_def dest: set_dropWhileD)
  ultimately show ?thesis using assms ne by (auto simp: limbs_ok_def)
qed

text \<open>The carry.\<close>

lemma limbs_snoc: "limbs (d @ [a]) = limbs d * Kr + a"
  by (simp add: limbs_append)

lemma bump_correct:
  assumes "r \<noteq> []" "\<forall>a \<in> set r. a < Kr" "hd r + s \<le> Kr" "0 < s" "bump r s = (r', o')"
  shows "(if o' then limbs (rev r) + s = Kr ^ length r \<and> limbs (rev r') = Kr ^ (length r - 1)
          else limbs (rev r') = limbs (rev r) + s)
    \<and> length r' = length r \<and> (\<forall>a \<in> set r'. a < Kr) \<and> (last r \<noteq> 0 \<longrightarrow> last r' \<noteq> 0) \<and> (o' \<longrightarrow> last r' \<noteq> 0)"
  using assms
proof (induction r s arbitrary: r' o' rule: bump.induct)
  case (2 x s)
  then show ?case by (auto simp: Kr_def split: if_splits)
next
  case (3 x y r s)
  show ?case
  proof (cases "x + s = Kr")
    case False
    then show ?thesis using 3 by (auto simp: limbs_append)
  next
    case True
    obtain r1 o1 where b: "bump (y # r) 1 = (r1, o1)" by fastforce
    have "hd (y # r) + 1 \<le> Kr" using 3(3) by auto
    then have IH: "(if o1 then limbs (rev (y # r)) + 1 = Kr ^ length (y # r) \<and> limbs (rev r1) = Kr ^ (length (y # r) - 1)
          else limbs (rev r1) = limbs (rev (y # r)) + 1)
      \<and> length r1 = length (y # r) \<and> (\<forall>a \<in> set r1. a < Kr) \<and> (last (y # r) \<noteq> 0 \<longrightarrow> last r1 \<noteq> 0) \<and> (o1 \<longrightarrow> last r1 \<noteq> 0)"
      using 3(1) [OF _ _ _ _ _ b] 3(3) True by auto
    have e: "r' = 0 # r1" "o' = o1" using 3(6) True b by auto
    have x: "limbs (rev (x # y # r)) + s = (limbs (rev (y # r)) + 1) * Kr"
      using True by (simp add: limbs_append algebra_simps)
    have z: "limbs (rev (0 # r1)) = limbs (rev r1) * Kr" by (simp add: limbs_snoc)
    have "if o1 then limbs (rev (x # y # r)) + s = Kr ^ length (x # y # r) \<and> limbs (rev (0 # r1)) = Kr ^ (length (x # y # r) - 1)
        else limbs (rev (0 # r1)) = limbs (rev (x # y # r)) + s"
    proof (cases o1)
      case True
      then have "limbs (rev (y # r)) + 1 = Kr ^ length (y # r)" "limbs (rev r1) = Kr ^ (length (y # r) - 1)"
        using IH by presburger+
      then show ?thesis using True unfolding x z by simp
    next
      case False
      then have "limbs (rev r1) = limbs (rev (y # r)) + 1" using IH by presburger
      then show ?thesis using False unfolding x z by simp
    qed
    moreover have "r1 \<noteq> []" using IH by auto
    ultimately show ?thesis using IH unfolding e by auto
  qed
qed simp

lemma bump_magnitude:
  assumes "d \<noteq> []" "\<forall>a \<in> set d. a < Kr" "last d + s \<le> Kr" "0 < s" "bump (rev d) s = (r', o')" "hd d \<noteq> 0 \<or> o'"
  shows "magnitude (rev r') (e + (if o' then 1 else 0)) = of_nat (limbs d + s) * base_pow (e - int (length d) + 1)"
    "rev r' \<noteq> []" "hd (rev r') \<noteq> 0" "\<forall>a \<in> set (rev r'). a < Kr"
proof -
  note b = bump_correct [of "rev d" s r' o']
  have p: "(if o' then limbs d + s = Kr ^ length d \<and> limbs (rev r') = Kr ^ (length d - 1) else limbs (rev r') = limbs d + s)
    \<and> length r' = length d \<and> (\<forall>a \<in> set r'. a < Kr) \<and> (hd d \<noteq> 0 \<longrightarrow> last r' \<noteq> 0) \<and> (o' \<longrightarrow> last r' \<noteq> 0)"
    using b assms by (cases o') (auto simp: hd_rev last_rev)
  then have ne: "r' \<noteq> []" using assms(1) by auto
  then show "rev r' \<noteq> []" by simp
  show "hd (rev r') \<noteq> 0" using p assms(6) ne by (auto simp: hd_rev)
  show "\<forall>a \<in> set (rev r'). a < Kr" using p by simp
  show "magnitude (rev r') (e + (if o' then 1 else 0)) = of_nat (limbs d + s) * base_pow (e - int (length d) + 1)"
  proof (cases o')
    case False
    then show ?thesis using p by (simp add: magnitude_def)
  next
    case True
    obtain n where n: "length d = Suc n" using assms(1) by (cases d) auto
    have "base_pow (e - int n + 1) = of_nat Kr * base_pow (e - int n)"
      using base_pow_add [of 1 "e - int n"] by (simp add: base_pow_def add.commute)
    then show ?thesis using p True n by (simp add: magnitude_def)
  qed
qed

text \<open>The digits of a limb.\<close>

lemma count10_pos [simp]: "0 < count10 n"
  by (subst count10.simps) simp

lemma count10_bounds: "n < 10 ^ count10 n \<and> (0 < n \<longrightarrow> 10 ^ (count10 n - 1) \<le> n)"
proof (induction n rule: count10.induct)
  case (1 n)
  show ?case
  proof (cases "n < 10")
    case True
    then show ?thesis by (simp add: count10.simps [of n])
  next
    case False
    then have IH: "n div 10 < 10 ^ count10 (n div 10)" "10 ^ (count10 (n div 10) - 1) \<le> n div 10" using 1 by auto
    have "n < 10 * 10 ^ count10 (n div 10)" using IH(1) by (simp add: div_less_iff_less_mult mult.commute)
    moreover have "10 * 10 ^ (count10 (n div 10) - 1) \<le> n" using IH(2) by (simp add: less_eq_div_iff_mult_less_eq mult.commute)
    then have "10 ^ count10 (n div 10) \<le> n" by (cases "count10 (n div 10)") (use count10_pos in \<open>force+\<close>)
    ultimately show ?thesis using False by (simp add: count10.simps [of n])
  qed
qed

lemma count10_le: "n < 10 ^ Suc k \<Longrightarrow> count10 n \<le> Suc k"
proof (induction k arbitrary: n)
  case 0
  then show ?case by (simp add: count10.simps)
next
  case (Suc k)
  show ?case
  proof (cases "n < 10")
    case False
    have "n div 10 < 10 ^ Suc k" using Suc.prems by (simp add: div_less_iff_less_mult mult.commute)
    then show ?thesis using Suc.IH False by (simp add: count10.simps [of n])
  qed (simp add: count10.simps)
qed

lemma count10_limb: "n < Kr \<Longrightarrow> count10 n \<le> 7"
  using count10_le [of n 6] by (simp add: Kr_def)


section \<open>The digits at the cut\<close>

text \<open>A number of limbs \<open>S\<close> is cut in the limb at index \<open>O'\<close>, before its last \<open>p + 1\<close> digits: \<open>q\<close> is what stays, \<open>y\<close>
  the first digit dropped and \<open>r\<close> the rest as a fraction of that digit.\<close>

definition cut_q :: "nat list \<Rightarrow> nat \<Rightarrow> nat \<Rightarrow> nat" where
  "cut_q S O' p = limbs (take O' S) * 10 ^ (6 - p) + S ! O' div 10 ^ Suc p"

definition cut_r :: "nat list \<Rightarrow> nat \<Rightarrow> nat \<Rightarrow> rat" where
  "cut_r S O' p =
     of_nat (S ! O' mod 10 ^ p * Kr ^ (length S - Suc O') + limbs (drop (Suc O') S)) / of_nat (10 ^ p * Kr ^ (length S - Suc O'))"

lemma Kr_power10: "p \<le> 6 \<Longrightarrow> Kr = 10 ^ (6 - p) * 10 ^ Suc p"
  by (simp add: Kr_def flip: power_add power_Suc)

lemma cut_digits:
  assumes "limbs_ok S" "O' < length S" "p \<le> 6"
  defines "L \<equiv> length S - Suc O'"
  shows "(of_nat (limbs S) :: rat) = (of_nat (cut_q S O' p) + (of_nat (S ! O' div 10 ^ p mod 10) + cut_r S O' p) / 10) * of_nat (10 ^ Suc p * Kr ^ L)"
    and "0 \<le> cut_r S O' p" "cut_r S O' p < 1"
    and "cut_r S O' p \<noteq> 0 \<longleftrightarrow> Suc O' < length S \<or> S ! O' mod 10 ^ p \<noteq> 0"
proof -
  let ?b = "S ! O'" and ?post = "drop (Suc O') S"
  have S: "S = take O' S @ ?b # ?post" using assms(2) by (rule id_take_nth_drop)
  have L: "length ?post = L" by (simp add: L_def)
  have lt: "limbs ?post < Kr ^ L"
    using limbs_less [of ?post] assms(1) L by (auto simp: limbs_ok_def dest: in_set_dropD)
  have len: "length S = O' + Suc L" using assms(2) by (simp add: L_def)
  have D: "limbs S = limbs (take O' S) * Kr ^ Suc L + ?b * Kr ^ L + limbs ?post"
    by (subst S, subst limbs_append) (simp add: L_def)
  have b: "?b = ?b div 10 ^ Suc p * 10 ^ Suc p + ?b div 10 ^ p mod 10 * 10 ^ p + ?b mod 10 ^ p"
  proof -
    have "?b div 10 ^ Suc p = ?b div 10 ^ p div 10" unfolding power_Suc2 by (rule div_mult2_eq)
    then have "?b div 10 ^ p = ?b div 10 ^ Suc p * 10 + ?b div 10 ^ p mod 10" by presburger
    then have "?b div 10 ^ p * 10 ^ p = ?b div 10 ^ Suc p * 10 ^ Suc p + ?b div 10 ^ p mod 10 * 10 ^ p"
      by (metis add_mult_distrib mult.assoc power_Suc)
    then show ?thesis by (metis div_mult_mod_eq)
  qed
  let ?y = "?b div 10 ^ p mod 10" and ?br = "?b mod 10 ^ p"
  have "limbs S = cut_q S O' p * (10 ^ Suc p * Kr ^ L) + ?y * (10 ^ p * Kr ^ L) + (?br * Kr ^ L + limbs ?post)"
  proof -
    have "limbs (take O' S) * Kr ^ Suc L = limbs (take O' S) * 10 ^ (6 - p) * (10 ^ Suc p * Kr ^ L)"
      using Kr_power10 [OF assms(3)] by (metis mult.assoc power_Suc)
    moreover have "?b * Kr ^ L = ?b div 10 ^ Suc p * (10 ^ Suc p * Kr ^ L) + ?y * (10 ^ p * Kr ^ L) + ?br * Kr ^ L"
      by (subst b) (simp only: add_mult_distrib mult.assoc)
    ultimately show ?thesis unfolding D cut_q_def by (simp only: add_mult_distrib mult.assoc)
  qed
  then have "(of_nat (limbs S) :: rat) = of_nat (cut_q S O' p) * of_nat (10 ^ Suc p * Kr ^ L)
      + of_nat ?y * of_nat (10 ^ p * Kr ^ L) + of_nat (?br * Kr ^ L + limbs ?post)"
    by (simp only: of_nat_add of_nat_mult)
  moreover have "of_nat (?br * Kr ^ L + limbs ?post) = cut_r S O' p * of_nat (10 ^ p * Kr ^ L)"
    by (simp add: cut_r_def L_def)
  moreover have "(of_nat (10 ^ Suc p * Kr ^ L) :: rat) = 10 * of_nat (10 ^ p * Kr ^ L)" by simp
  ultimately show "(of_nat (limbs S) :: rat) = (of_nat (cut_q S O' p) + (of_nat ?y + cut_r S O' p) / 10) * of_nat (10 ^ Suc p * Kr ^ L)"
    by (simp only: ring_distribs times_divide_eq_left) simp
  show "0 \<le> cut_r S O' p" by (simp add: cut_r_def)
  have "?br * Kr ^ L + limbs ?post < Suc ?br * Kr ^ L" using lt by simp
  also have "\<dots> \<le> 10 ^ p * Kr ^ L" by (rule mult_le_mono1) (simp add: Suc_leI)
  finally have "(of_nat (?br * Kr ^ L + limbs ?post) :: rat) < of_nat (10 ^ p * Kr ^ L)" by (simp only: of_nat_less_iff)
  then show "cut_r S O' p < 1" unfolding cut_r_def L_def [symmetric] by (simp only: divide_less_eq_1 of_nat_0_less_iff) simp
  have "limbs ?post \<noteq> 0 \<longleftrightarrow> Suc O' < length S"
  proof (cases "?post = []")
    case False
    then have "last ?post \<noteq> 0" using assms(1) by (auto simp: limbs_ok_def last_drop)
    then have "0 < frac_val ?post" using False by (intro frac_val_pos)
    then show ?thesis using False by (simp add: frac_val_def zero_less_divide_iff)
  qed simp
  then show "cut_r S O' p \<noteq> 0 \<longleftrightarrow> Suc O' < length S \<or> ?b mod 10 ^ p \<noteq> 0"
    unfolding cut_r_def by (simp only: divide_eq_0_iff of_nat_eq_0_iff) auto
qed

end
