(* ===== verification/Decimal_Cut.thy ===== *)
theory Decimal_Cut
  imports Decimal_Digits
begin

text \<open>
  Powers of ten as units of a number, and the place where rounding cuts the limbs: which digits stay,
  which is the first to go, and whether anything follows it.
\<close>

section \<open>Powers of ten\<close>

definition ten :: "int \<Rightarrow> rat" where
  "ten k = 10 powi k"

lemma ten_add: "ten (j + k) = ten j * ten k"
  by (simp add: ten_def power_int_add)

lemma ten_pos [simp]: "0 < ten k" "ten k \<noteq> 0"
  by (simp_all add: ten_def)

lemma ten_nat: "ten (int n) = of_nat (10 ^ n)"
  by (simp add: ten_def)

lemma ten_0 [simp]: "ten 0 = 1"
  by (simp add: ten_def)

lemma ten_minus: "ten (- k) = 1 / ten k"
  by (simp add: ten_def power_int_minus divide_simps)

lemma base_pow_ten: "base_pow k = ten (7 * k)"
proof -
  have "(of_nat Kr :: rat) = 10 powi 7" by (simp add: Kr_def power_int_def)
  then show ?thesis unfolding base_pow_def ten_def by (metis power_int_mult)
qed

text \<open>The unit of the last of \<open>t\<close> significant digits.\<close>

definition digit_unit :: "decimal \<Rightarrow> int \<Rightarrow> rat" where
  "digit_unit x t = ten (exponent x - t + 1)"

section \<open>The cut of a number\<close>

text \<open>For a positive number of digits: \<open>p + 1\<close> is the number of digits dropped from the limb of the cut.\<close>

definition cut_ok :: "nat list \<Rightarrow> int \<Rightarrow> cut \<Rightarrow> nat \<Rightarrow> bool" where
  "cut_ok S t k p \<longleftrightarrow>
     ct_O k < length S \<and> ct_b k = S ! ct_O k \<and> ct_h k = int (count10 (S ! ct_O k)) \<and> p \<le> 6
     \<and> ct_i k = 6 - int p \<and> ct_c k = ct_h k - int (Suc p)
     \<and> t = int (count10 (hd S)) + 7 * (int (ct_O k) - 1) + ct_i k
     \<and> (ct_O k = 0 \<longrightarrow> 0 < ct_i k \<and> 0 < ct_c k)"

lemma find_cut_ok:
  assumes "limbs_ok S" "1 \<le> t" "find_cut S t = Some k"
  shows "\<exists>p. cut_ok S t k p"
proof -
  let ?h = "int (count10 (hd S))"
  have ne: "S \<noteq> []" and hd: "hd S = S ! 0" using assms(1) by (auto simp: limbs_ok_def hd_conv_nth)
  have h: "?h \<le> 7" using assms(1) count10_limb [of "hd S"] by (simp add: limbs_ok_def)
  show ?thesis
  proof (cases "t < ?h")
    case True
    then have k: "k = \<lparr>ct_O = 0, ct_b = hd S, ct_h = ?h, ct_i = t - ?h + 7, ct_c = t\<rparr>"
      using assms(3) by (auto simp: find_cut_def qn_def Let_def)
    have "cut_ok S t k (nat (?h - t - 1))"
      using True h assms(2) ne hd unfolding k cut_ok_def by simp
    then show ?thesis ..
  next
    case False
    define q where "q = (t - ?h) div 7"
    have q: "0 \<le> q" "t - ?h = 7 * q + (t - ?h) mod 7" "(t - ?h + 7) div 7 = q + 1"
      using False by (simp_all add: q_def)
    have i: "0 \<le> (t - ?h) mod 7" "(t - ?h) mod 7 < 7" by simp_all
    have O': "nat (q + 1) < length S" and
      k: "k = \<lparr>ct_O = nat (q + 1), ct_b = S ! nat (q + 1), ct_h = int (count10 (S ! nat (q + 1))), ct_i = (t - ?h) mod 7,
        ct_c = (t - ?h) mod 7 - 7 + int (count10 (S ! nat (q + 1)))\<rparr>"
      using assms(3) False q(3) by (auto simp: find_cut_def qn_def Let_def split: if_splits)
    have "cut_ok S t k (nat (6 - (t - ?h) mod 7))"
      using O' q i unfolding k cut_ok_def by auto
    then show ?thesis ..
  qed
qed

text \<open>The limb at the cut: what stays of it.\<close>

lemma cut_limb:
  assumes "limbs_ok S" "cut_ok S t k p"
  shows "S ! ct_O k < 10 ^ (6 - p) * 10 ^ Suc p" "S ! ct_O k div 10 ^ Suc p < 10 ^ (6 - p)"
    "ct_c k \<le> 0 \<Longrightarrow> S ! ct_O k div 10 ^ Suc p = 0"
    "0 < ct_c k \<Longrightarrow> S ! ct_O k div 10 ^ Suc p < 10 ^ nat (ct_c k)"
    "ct_O k = 0 \<Longrightarrow> 0 < S ! ct_O k div 10 ^ Suc p"
proof -
  let ?b = "S ! ct_O k"
  note c = assms(2) [unfolded cut_ok_def]
  have "?b \<in> set S" using c by simp
  then have lt: "?b < Kr" using assms(1) by (auto simp: limbs_ok_def)
  show b: "?b < 10 ^ (6 - p) * 10 ^ Suc p" using lt Kr_power10 [of p] c by metis
  then show "?b div 10 ^ Suc p < 10 ^ (6 - p)" by (simp add: div_less_iff_less_mult)
  have u: "?b < 10 ^ count10 ?b" using count10_bounds by blast
  show "?b div 10 ^ Suc p = 0" if "ct_c k \<le> 0"
  proof -
    have "count10 ?b \<le> Suc p" using that c by auto
    then have "(10 :: nat) ^ count10 ?b \<le> 10 ^ Suc p" by (intro power_increasing) simp_all
    then show ?thesis using u by (metis div_less less_le_trans)
  qed
  show "?b div 10 ^ Suc p < 10 ^ nat (ct_c k)" if "0 < ct_c k"
  proof -
    have "count10 ?b = nat (ct_c k) + Suc p" using that c by auto
    then have "?b < 10 ^ nat (ct_c k) * 10 ^ Suc p" using u by (simp only: power_add)
    then show ?thesis by (simp add: div_less_iff_less_mult)
  qed
  show "0 < ?b div 10 ^ Suc p" if "ct_O k = 0"
  proof -
    have "Suc p \<le> count10 ?b - 1" using that c by auto
    then have "(10 :: nat) ^ Suc p \<le> 10 ^ (count10 ?b - 1)" by (intro power_increasing) simp_all
    moreover have "S \<noteq> []" "hd S \<noteq> 0" using assms(1) by (simp_all add: limbs_ok_def)
    then have "?b \<noteq> 0" using that by (simp add: hd_conv_nth)
    then have "10 ^ (count10 ?b - 1) \<le> ?b" using count10_bounds by blast
    ultimately show ?thesis by (simp add: div_greater_zero_iff)
  qed
qed

lemma even_Kr: "even Kr"
  by (simp add: Kr_def)

lemma cut_up_correct:
  assumes "limbs_ok S" "cut_ok S t k p" "1 \<le> t"
  shows "cut_up m neg S t k
    = round_up m neg (S ! ct_O k div 10 ^ p mod 10) (cut_r S (ct_O k) p \<noteq> 0) (odd (cut_q S (ct_O k) p))"
proof -
  let ?b = "S ! ct_O k"
  note c = assms(2) [unfolded cut_ok_def] and b = cut_limb [OF assms(1,2)]
  define prev where "prev = (if 0 < ct_i k then (if 0 < ct_c k then ct_b k div 10 ^ nat (ct_h k - ct_c k) else 0)
                  else if ct_O k = 0 then 0 else S ! (ct_O k - 1))"
  have e: "nat (ct_h k - ct_c k) = Suc p" "nat (ct_h k - ct_c k - 1) = p" using c by auto
  have "odd prev \<longleftrightarrow> odd (cut_q S (ct_O k) p)"
  proof (cases "0 < ct_i k")
    case True
    then have "p < 6" using c by auto
    then have "even (limbs (take (ct_O k) S) * 10 ^ (6 - p))" by simp
    moreover have "prev = ?b div 10 ^ Suc p" using True b(3) c e by (auto simp: prev_def)
    ultimately show ?thesis by (simp add: cut_q_def)
  next
    case False
    then have p: "p = 6" and O': "ct_O k \<noteq> 0" using c by auto
    have "?b div 10 ^ Suc p = 0" using b(2) p by simp
    then have q: "cut_q S (ct_O k) p = limbs (take (ct_O k) S)" using p by (simp add: cut_q_def)
    obtain j where j: "ct_O k = Suc j" using O' by (cases "ct_O k") auto
    have "take (Suc j) S = take j S @ [S ! j]" using c j by (simp add: take_Suc_conv_app_nth)
    then show ?thesis using False even_Kr unfolding q [unfolded j] prev_def j by (simp add: limbs_snoc)
  qed
  then have "odd (prev mod 10) \<longleftrightarrow> odd (cut_q S (ct_O k) p)" by (simp add: odd_iff_mod_2_eq_one mod_mod_cancel)
  moreover have "(t < 0 \<or> Suc (ct_O k) < length S \<or> ct_b k mod 10 ^ p \<noteq> 0) \<longleftrightarrow> cut_r S (ct_O k) p \<noteq> 0"
    using cut_digits(4) [OF assms(1), of "ct_O k" p] c assms(3) by auto
  ultimately show ?thesis
    using c e unfolding cut_up_def Let_def prev_def [symmetric] by simp
qed

lemma kept_correct:
  assumes "limbs_ok S" "cut_ok S t k p" "kept S k = (N, s)"
  shows "N \<noteq> []" "hd N \<noteq> 0" "\<forall>a \<in> set N. a < Kr" "last N + s \<le> Kr" "0 < s"
    "limbs N = cut_q S (ct_O k) p * s"
    "of_nat s * base_pow (e - int (length N) + 1) = ten (7 * e + int (count10 (hd S)) - t)"
proof -
  let ?b = "S ! ct_O k"
  note c = assms(2) [unfolded cut_ok_def] and b = cut_limb [OF assms(1,2)]
  have e: "nat (ct_h k - ct_c k) = Suc p" "nat (7 - ct_i k) = Suc p" using c by auto
  have tk: "\<forall>a \<in> set (take (ct_O k) S). a < Kr" using assms(1) by (auto simp: limbs_ok_def dest: in_set_takeD)
  have hd': "ct_O k \<noteq> 0 \<Longrightarrow> hd (take (ct_O k) S) \<noteq> 0" using assms(1) by (simp add: limbs_ok_def)
  have "N \<noteq> [] \<and> hd N \<noteq> 0 \<and> (\<forall>a \<in> set N. a < Kr) \<and> last N + s \<le> Kr \<and> 0 < s
    \<and> limbs N = cut_q S (ct_O k) p * s
    \<and> of_nat s * base_pow (e - int (length N) + 1) = ten (7 * e + int (count10 (hd S)) - t)"
  proof (cases "ct_i k = 0")
    case True
    then have p: "p = 6" and O': "ct_O k \<noteq> 0" using c by auto
    have N: "N = take (ct_O k) S" "s = 1" using assms(3) True by (auto simp: kept_def)
    have ne: "N \<noteq> []" using N O' c by auto
    have l: "length N = ct_O k" using c N by simp
    have "last N \<in> set N" using ne by simp
    then have "last N + 1 \<le> Kr" using tk unfolding N(1) [symmetric] by auto
    moreover have "?b div 10 ^ Suc p = 0" using b(2) p by simp
    then have "limbs N = cut_q S (ct_O k) p" using p N by (simp add: cut_q_def)
    moreover have "7 * (e - int (length N) + 1) = 7 * e + int (count10 (hd S)) - t"
      using c True unfolding l by simp
    then have "base_pow (e - int (length N) + 1) = ten (7 * e + int (count10 (hd S)) - t)" by (simp only: base_pow_ten)
    moreover have "hd N \<noteq> 0" "\<forall>a \<in> set N. a < Kr" using hd' [OF O'] tk unfolding N(1) by blast+
    ultimately show ?thesis using ne unfolding N(2) by simp
  next
    case False
    define w where "w = ?b div 10 ^ Suc p"
    have "(if 0 < ct_c k then ct_b k div 10 ^ nat (ct_h k - ct_c k) mod 10 ^ nat (ct_c k) else 0) = w"
      using b(3,4) c e by (auto simp: w_def)
    then have N: "N = take (ct_O k) S @ [w * 10 ^ Suc p]" "s = 10 ^ Suc p"
      using assms(3) False e by (auto simp: kept_def qn_def Let_def split: if_splits)
    have "w * 10 ^ Suc p + 10 ^ Suc p = Suc w * 10 ^ Suc p" by simp
    also have "\<dots> \<le> 10 ^ (6 - p) * 10 ^ Suc p" using b(2) by (intro mult_le_mono1) (simp add: w_def Suc_leI)
    also have "\<dots> = Kr" using Kr_power10 [of p] c by simp
    finally have l: "w * 10 ^ Suc p + 10 ^ Suc p \<le> Kr" .
    have "w * 10 ^ Suc p < w * 10 ^ Suc p + 10 ^ Suc p" by simp
    also note l
    finally have a: "\<forall>a \<in> set N. a < Kr" using tk unfolding N by auto
    have h: "hd N \<noteq> 0" using hd' b(5) unfolding N w_def by (cases "ct_O k = 0") (use c in \<open>auto simp: hd_append\<close>)
    have "limbs N = limbs (take (ct_O k) S) * Kr + w * 10 ^ Suc p" by (simp only: N limbs_snoc)
    also have "\<dots> = limbs (take (ct_O k) S) * (10 ^ (6 - p) * 10 ^ Suc p) + w * 10 ^ Suc p" using Kr_power10 [of p] c by simp
    also have "\<dots> = cut_q S (ct_O k) p * s" by (simp only: cut_q_def w_def N(2) add_mult_distrib mult.assoc)
    finally have v: "limbs N = cut_q S (ct_O k) p * s" .
    have "of_nat s * base_pow (e - int (length N) + 1) = ten (int (Suc p) + 7 * (e - int (ct_O k)))"
      using c unfolding ten_add ten_nat N base_pow_ten by (simp add: min_def)
    also have "int (Suc p) + 7 * (e - int (ct_O k)) = 7 * e + int (count10 (hd S)) - t" using c by simp
    finally show ?thesis using a h l v by (simp add: N)
  qed
  then show "N \<noteq> []" "hd N \<noteq> 0" "\<forall>a \<in> set N. a < Kr" "last N + s \<le> Kr" "0 < s"
    "limbs N = cut_q S (ct_O k) p * s"
    "of_nat s * base_pow (e - int (length N) + 1) = ten (7 * e + int (count10 (hd S)) - t)" by blast+
qed

end
