(* ===== verification/Decimal_Rounding.thy ===== *)
theory Decimal_Rounding
  imports Decimal_Cut
begin

text \<open>
  Rounding is correct: the function \<open>xn\<close> of the code against the rounding of rational numbers.
\<close>

section \<open>Rounding\<close>

text \<open>A number in units of its \<open>t\<close>-th digit.\<close>

definition in_units :: "decimal \<Rightarrow> int \<Rightarrow> rat" where
  "in_units x t = \<bar>dval x\<bar> / digit_unit x t"

definition modes_ok :: "nat option \<Rightarrow> bool" where
  "modes_ok m \<longleftrightarrow> (case m of None \<Rightarrow> True | Some a \<Rightarrow> a \<le> 8)"

lemma abs_dval: "dec_ok x \<Longrightarrow> d_s x \<noteq> 0 \<Longrightarrow> \<bar>dval x\<bar> = magnitude (d_d x) (d_e x)"
  by (auto simp: dval_def abs_mult dec_ok_def zero_decimal_def)

text \<open>The number of all digits of the limbs.\<close>

lemma in_units_limbs:
  assumes "dec_ok x" "d_s x \<noteq> 0"
  shows "in_units x t = of_nat (limbs (d_d x)) * ten (t - int (count10 (hd (d_d x))) - 7 * (int (length (d_d x)) - 1))"
proof -
  let ?S = "d_d x"
  have "ten (7 * (d_e x - int (length ?S) + 1)) =
      ten (t - int (count10 (hd ?S)) - 7 * (int (length ?S) - 1)) * digit_unit x t"
    unfolding digit_unit_def ten_add [symmetric] exponent_def by (simp add: qn_def algebra_simps)
  then show ?thesis
    unfolding in_units_def abs_dval [OF assms] magnitude_def base_pow_ten by (simp add: digit_unit_def)
qed

lemma dec_ok_limbs: "dec_ok x \<Longrightarrow> d_s x \<noteq> 0 \<Longrightarrow> limbs_ok (d_d x) \<and> (d_s x = 1 \<or> d_s x = -1)"
  by (auto simp: dec_ok_def zero_decimal_def)

lemma in_units_cut:
  assumes "dec_ok x" "d_s x \<noteq> 0" "cut_ok (d_d x) t k p"
  shows "in_units x t = of_nat (cut_q (d_d x) (ct_O k) p) + (of_nat (d_d x ! ct_O k div 10 ^ p mod 10) + cut_r (d_d x) (ct_O k) p) / 10"
proof -
  let ?S = "d_d x"
  note c = assms(3) [unfolded cut_ok_def]
  define L where "L = length ?S - Suc (ct_O k)"
  have "int (Suc p) + 7 * int L + (t - int (count10 (hd ?S)) - 7 * (int (length ?S) - 1)) = 0"
    using c by (simp add: L_def of_nat_diff)
  then have "ten (int (Suc p)) * ten (7 * int L) * ten (t - int (count10 (hd ?S)) - 7 * (int (length ?S) - 1)) = 1"
    unfolding ten_add [symmetric] by simp
  then have "of_nat (10 ^ Suc p * Kr ^ L) * ten (t - int (count10 (hd ?S)) - 7 * (int (length ?S) - 1)) = 1"
    unfolding ten_nat base_pow_ten [symmetric] base_pow_nat by (simp only: of_nat_mult)
  moreover have "(of_nat (limbs ?S) :: rat) = (of_nat (cut_q ?S (ct_O k) p) + (of_nat (?S ! ct_O k div 10 ^ p mod 10) + cut_r ?S (ct_O k) p) / 10) * of_nat (10 ^ Suc p * Kr ^ L)"
    unfolding L_def by (rule cut_digits(1)) (use dec_ok_limbs [OF assms(1,2)] c in auto)
  ultimately show ?thesis unfolding in_units_limbs [OF assms(1,2)] by (simp only: mult.assoc mult_1_right)
qed

lemma check_exponent_Inr: "check_exponent ext e = Inr r \<Longrightarrow> r = e"
  by (auto simp: check_exponent_def split: if_splits)

text \<open>A number of digits that is at least one and cuts something off.\<close>

lemma xn_cut:
  assumes "dec_ok x" "d_s x \<noteq> 0" "1 \<le> t" "find_cut (d_d x) t = Some k" "modes_ok m" "xn ext x t m = Inr r"
  shows "dec_ok r \<and> d_s r = d_s x
    \<and> magnitude (d_d r) (d_e r) = of_int (round_spec m (d_s x < 0) (in_units x t)) * digit_unit x t"
proof -
  let ?S = "d_d x"
  note ok = dec_ok_limbs [OF assms(1,2)]
  obtain p where c: "cut_ok ?S t k p" using find_cut_ok [of ?S t k] ok assms(3,4) by blast
  note cc = c [unfolded cut_ok_def]
  define q where "q = cut_q ?S (ct_O k) p"
  define g where "g = cut_up m (d_s x < 0) ?S t k"
  have spec: "round_spec m (d_s x < 0) (in_units x t) = int q + (if g then 1 else 0)"
  proof -
    have "\<forall>a. m = Some a \<longrightarrow> a \<le> 8" using assms(5) by (auto simp: modes_ok_def)
    moreover have "?S ! ct_O k div 10 ^ p mod 10 < 10" by simp
    ultimately show ?thesis
      unfolding in_units_cut [OF assms(1,2) c] q_def g_def cut_up_correct [OF conjunct1 [OF ok] c assms(3)]
      using cut_digits(2,3) [of ?S "ct_O k" p] ok cc by (intro round_up_correct) auto
  qed
  obtain N s where kN: "kept ?S k = (N, s)" by fastforce
  note K = kept_correct [OF conjunct1 [OF ok] c kN]
  have hd: "hd ?S \<noteq> 0" using ok by (simp add: limbs_ok_def)
  have unit: "of_nat s * base_pow (d_e x - int (length N) + 1) = digit_unit x t"
    unfolding K(7) digit_unit_def exponent_def by (simp add: qn_def algebra_simps)
  define T where "T = (if g then map_prod rev id (bump (rev N) s) else (N, False))"
  obtain S2 o' where S2: "T = (S2, o')" by (cases T)
  have "\<not> (t < 1 \<or> hd ?S = 0)" using assms(3) hd by simp
  then have "xn ext x t m = check_exponent ext (x\<lparr>d_d := pop_zeros S2, d_e := d_e x + (if o' then 1 else 0)\<rparr>)"
    unfolding xn_def Let_def assms(4) option.case kN prod.case g_def [symmetric] T_def [symmetric] S2 by (simp only: if_False)
  then have r: "r = x\<lparr>d_d := pop_zeros S2, d_e := d_e x + (if o' then 1 else 0)\<rparr>"
    using assms(6) check_exponent_Inr by metis
  have "S2 \<noteq> [] \<and> hd S2 \<noteq> 0 \<and> (\<forall>a \<in> set S2. a < Kr)
    \<and> magnitude S2 (d_e x + (if o' then 1 else 0)) = of_nat (limbs N + (if g then s else 0)) * base_pow (d_e x - int (length N) + 1)"
  proof (cases g)
    case False
    then have "S2 = N" "o' = False" using S2 by (auto simp: T_def)
    then show ?thesis using K False by (simp add: magnitude_def)
  next
    case True
    obtain r' where b: "bump (rev N) s = (r', o')" "S2 = rev r'"
      using S2 True by (cases "bump (rev N) s") (auto simp: T_def)
    show ?thesis
      using bump_magnitude [OF K(1,3,4,5) b(1) disjI1 [OF K(2)]] True unfolding b(2) by simp
  qed
  moreover have "of_nat (limbs N + (if g then s else 0)) * base_pow (d_e x - int (length N) + 1)
      = of_int (int q + (if g then 1 else 0)) * digit_unit x t"
  proof -
    have "(of_nat (limbs N + (if g then s else 0)) :: rat) = of_int (int q + (if g then 1 else 0)) * of_nat s"
      by (simp add: K(6) q_def ring_distribs)
    then show ?thesis unfolding unit [symmetric] by (simp only: mult.assoc)
  qed
  ultimately show ?thesis
    using pop_zeros_ok [of S2] ok unfolding spec r by (simp add: dec_ok_def)
qed

text \<open>When there is nothing to cut off, the number is a whole number of units.\<close>

lemma round_spec_of_nat: "modes_ok m \<Longrightarrow> round_spec m neg (of_nat n) = int n"
proof -
  have f: "\<lfloor>(of_nat n :: rat) + 1 / 2\<rfloor> = int n" by (simp add: floor_eq_iff)
  have c: "\<lceil>(of_nat n :: rat) - 1 / 2\<rceil> = int n" by (simp add: ceiling_eq_iff)
  have r: "frac (of_nat n :: rat) = 0" by (simp add: frac_def)
  show "modes_ok m \<Longrightarrow> ?thesis"
    by (cases m) (simp_all add: round_spec_def f c r)
qed

lemma xn_whole:
  assumes "dec_ok x" "d_s x \<noteq> 0" "find_cut (d_d x) t = None"
  shows "\<exists>n. in_units x t = of_nat n"
proof -
  let ?S = "d_d x"
  let ?h = "int (count10 (hd ?S))"
  have "\<not> t < ?h" using assms(3) by (auto simp: find_cut_def Let_def split: if_splits)
  moreover have "length ?S \<le> nat ((t - ?h + 7) div 7)"
    using assms(3) by (auto simp: find_cut_def Let_def qn_def split: if_splits)
  ultimately have "int (length ?S) \<le> (t - ?h + 7) div 7" by simp
  moreover have "7 * (a div 7) \<le> a" for a :: int by presburger
  ultimately have "7 * int (length ?S) \<le> t - ?h + 7" by (meson mult_left_mono order_trans zero_le_numeral)
  then have "0 \<le> t - ?h - 7 * (int (length ?S) - 1)" by simp
  then obtain j where "t - ?h - 7 * (int (length ?S) - 1) = int j" using nonneg_int_cases by blast
  then have "in_units x t = of_nat (limbs ?S * 10 ^ j)"
    unfolding in_units_limbs [OF assms(1,2)] by (simp only: ten_nat of_nat_mult)
  then show ?thesis ..
qed

text \<open>Rounding to no digit or less: the result is zero or one unit.\<close>

lemma tiny_value:
  assumes "dec_ok x" "d_s x \<noteq> 0"
  shows "dec_ok (tiny True x t) \<and> d_s (tiny True x t) = d_s x
    \<and> magnitude (d_d (tiny True x t)) (d_e (tiny True x t)) = digit_unit x t"
proof -
  define u where "u = exponent x - t + 1"
  have t: "tiny True x t = x\<lparr>d_d := [10 ^ nat (u mod 7)], d_e := u div 7\<rparr>"
    by (simp add: tiny_def u_def qn_def Let_def algebra_simps)
  have "nat (u mod 7) \<le> 6" using pos_mod_bound [of 7 u] by linarith
  then have "(10 :: nat) ^ nat (u mod 7) \<le> 10 ^ 6" by (intro power_increasing) simp_all
  then have "(10 :: nat) ^ nat (u mod 7) < Kr" by (simp add: Kr_def)
  then have "dec_ok (tiny True x t)" using dec_ok_limbs [OF assms] by (simp add: t dec_ok_def limbs_ok_def)
  moreover have "magnitude [10 ^ nat (u mod 7)] (u div 7) = ten (int (nat (u mod 7)) + 7 * (u div 7))"
    unfolding ten_add ten_nat by (simp add: magnitude_def base_pow_ten)
  moreover have "int (nat (u mod 7)) + 7 * (u div 7) = u" by simp
  ultimately show ?thesis by (simp add: t digit_unit_def u_def)
qed

text \<open>The cut when no digit is kept: it is in the first limb, and only the first digit can be the one that decides.\<close>

lemma tiny_cut:
  assumes "dec_ok x" "d_s x \<noteq> 0" "t < 1" "modes_ok m"
  shows "\<exists>k. find_cut (d_d x) t = Some k
    \<and> round_spec m (d_s x < 0) (in_units x t) = (if cut_up m (d_s x < 0) (d_d x) t k then 1 else 0)"
proof -
  let ?S = "d_d x"
  let ?b = "hd ?S" and ?h = "count10 (hd (d_d x))"
  let ?k = "\<lparr>ct_O = 0, ct_b = ?b, ct_h = int ?h, ct_i = t - int ?h + 7, ct_c = t\<rparr>"
  note ok = dec_ok_limbs [OF assms(1,2)]
  have hd: "?b = ?S ! 0" "?b \<noteq> 0" "0 < length ?S" using ok by (auto simp: limbs_ok_def hd_conv_nth)
  have "1 \<le> ?h" using count10_pos [of ?b] by linarith
  then have h: "1 \<le> ?h" "?h \<le> 7" "?b < 10 ^ ?h" "10 ^ (?h - 1) \<le> ?b"
    using ok count10_limb [of ?b] count10_bounds [of ?b] hd(2) by (auto simp: limbs_ok_def)
  have k: "find_cut ?S t = Some ?k"
    using assms(3) h(1) by (simp add: find_cut_def Let_def qn_def)
  have prev: "cut_up m neg ?S t ?k
    = round_up m neg (?b div 10 ^ nat (int ?h - t - 1) mod 10) (t < 0 \<or> Suc 0 < length ?S \<or> ?b mod 10 ^ nat (int ?h - t - 1) \<noteq> 0) False" for neg
    using assms(3) by (simp add: cut_up_def Let_def)
  have l1: "int (length ?S - Suc 0) = int (length ?S) - 1" "int (length ?S - 1) = int (length ?S) - 1"
    using of_nat_diff [OF Suc_leI [OF hd(3)], where 'a = int] by simp_all
  have m8: "\<forall>a. m = Some a \<longrightarrow> a \<le> 8" using assms(4) by (auto simp: modes_ok_def)
  show ?thesis
  proof (cases "t = 0")
    case True
    define p where "p = ?h - 1"
    have p: "p \<le> 6" "?h = Suc p" using h by (auto simp: p_def)
    have lim: "(of_nat (limbs ?S) :: rat) = (of_nat (cut_q ?S 0 p) + (of_nat (?S ! 0 div 10 ^ p mod 10) + cut_r ?S 0 p) / 10) * of_nat (10 ^ Suc p * Kr ^ (length ?S - Suc 0))"
      by (rule cut_digits(1)) (use ok p hd in auto)
    have q: "cut_q ?S 0 p = 0" using h(3) p hd(1) by (simp add: cut_q_def)
    have "int (Suc p) + 7 * int (length ?S - Suc 0) + (t - int ?h - 7 * (int (length ?S) - 1)) = 0"
      using True p l1(1) by simp
    then have "ten (int (Suc p)) * ten (7 * int (length ?S - Suc 0)) * ten (t - int ?h - 7 * (int (length ?S) - 1)) = 1"
      unfolding ten_add [symmetric] by simp
    then have "of_nat (10 ^ Suc p * Kr ^ (length ?S - Suc 0)) * ten (t - int ?h - 7 * (int (length ?S) - 1)) = 1"
      unfolding ten_nat base_pow_ten [symmetric] base_pow_nat by (simp only: of_nat_mult)
    then have u: "in_units x t = of_nat 0 + (of_nat (?S ! 0 div 10 ^ p mod 10) + cut_r ?S 0 p) / 10"
      unfolding in_units_limbs [OF assms(1,2)] lim q by (simp only: mult.assoc mult_1_right)
    have "round_spec m (d_s x < 0) (in_units x t)
        = int 0 + (if round_up m (d_s x < 0) (?S ! 0 div 10 ^ p mod 10) (cut_r ?S 0 p \<noteq> 0) (odd (0 :: nat)) then 1 else 0)"
      unfolding u using cut_digits(2,3) [of ?S 0 p] ok p hd m8 by (intro round_up_correct) auto
    moreover have "cut_r ?S 0 p \<noteq> 0 \<longleftrightarrow> Suc 0 < length ?S \<or> ?S ! 0 mod 10 ^ p \<noteq> 0"
      by (rule cut_digits(4)) (use ok p hd in auto)
    moreover have "nat (int ?h - t - 1) = p" using True p by simp
    ultimately show ?thesis using k prev True hd(1) by simp
  next
    case False
    then have t: "t < 0" using assms(3) by simp
    define r where "r = 10 * in_units x t"
    have D: "(0 :: rat) < of_nat (limbs ?S)" "(of_nat (limbs ?S) :: rat) < of_nat (10 ^ ?h * Kr ^ (length ?S - 1))"
    proof -
      obtain as where S: "?S = ?b # as" using hd(3) by (cases ?S) auto
      have "limbs as < Kr ^ length as"
        using ok by (intro limbs_less) (metis S limbs_ok_def list.set_intros(2))
      then have "limbs (?b # as) < Suc ?b * Kr ^ length as" by simp
      also have "\<dots> \<le> 10 ^ ?h * Kr ^ length as" using h(3) by (intro mult_le_mono1) simp
      finally have "limbs ?S < 10 ^ ?h * Kr ^ (length ?S - 1)" using S by (metis diff_Suc_1 length_Cons)
      then show "(of_nat (limbs ?S) :: rat) < of_nat (10 ^ ?h * Kr ^ (length ?S - 1))" by (simp only: of_nat_less_iff)
      have "Kr ^ length as \<le> limbs (?b # as)" using hd(2) by (rule limbs_ge)
      then have "0 < limbs (?b # as)" by (metis Kr_pos(1) less_le_trans zero_less_power)
      then show "(0 :: rat) < of_nat (limbs ?S)" using S by simp
    qed
    have "of_nat (10 ^ ?h * Kr ^ (length ?S - 1)) * ten (t - int ?h - 7 * (int (length ?S) - 1)) = ten t"
    proof -
      have o: "of_nat (10 ^ ?h * Kr ^ (length ?S - 1)) = ten (int ?h) * ten (7 * int (length ?S - 1))"
        unfolding ten_nat base_pow_ten [symmetric] base_pow_nat by (simp only: of_nat_mult)
      have e: "int ?h + 7 * int (length ?S - 1) + (t - int ?h - 7 * (int (length ?S) - 1)) = t"
        unfolding l1 by simp
      show ?thesis unfolding o ten_add [symmetric] e ..
    qed
    then have lt: "in_units x t < ten t" "0 < in_units x t"
      using D unfolding in_units_limbs [OF assms(1,2)] by (metis mult_strict_right_mono ten_pos(1), simp)
    have "ten t \<le> ten (- 1)" using t unfolding ten_def by (intro power_int_increasing) simp_all
    also have "ten (- 1) = 1 / 10" by (simp add: ten_def)
    finally have r: "0 < r" "r < 1" using lt by (simp_all add: r_def)
    have e: "in_units x t = of_nat 0 + (of_nat 0 + r) / 10" by (simp add: r_def)
    have "round_spec m (d_s x < 0) (in_units x t) = int 0 + (if round_up m (d_s x < 0) 0 (r \<noteq> 0) (odd (0 :: nat)) then 1 else 0)"
      unfolding e by (rule round_up_correct) (use r m8 in auto)
    moreover have "?b div 10 ^ nat (int ?h - t - 1) = 0"
    proof -
      have "?h \<le> nat (int ?h - t - 1)" using t by simp
      then have "(10 :: nat) ^ ?h \<le> 10 ^ nat (int ?h - t - 1)" by (intro power_increasing) simp_all
      then show ?thesis using h(3) by (metis div_less less_le_trans)
    qed
    ultimately show ?thesis using k prev t r by simp
  qed
qed

text \<open>All cases together.\<close>

lemma xn_rounds:
  assumes "dec_ok x" and "d_s x \<noteq> 0" and "modes_ok m" and "xn ext x t m = Inr r"
  shows "dec_ok r \<and> dval r = of_int (d_s x * round_spec m (d_s x < 0) (in_units x t)) * digit_unit x t"
proof (cases "t < 1")
  case True
  obtain k where k: "find_cut (d_d x) t = Some k"
    "round_spec m (d_s x < 0) (in_units x t) = (if cut_up m (d_s x < 0) (d_d x) t k then 1 else 0)"
    using tiny_cut [OF assms(1,2) True assms(3)] by blast
  have r: "r = tiny (cut_up m (d_s x < 0) (d_d x) t k) x t" using assms(4) True k(1) by (simp add: xn_def Let_def)
  show ?thesis
  proof (cases "cut_up m (d_s x < 0) (d_d x) t k")
    case True
    then show ?thesis using tiny_value [OF assms(1,2), of t] k(2) unfolding r by (simp add: dval_def)
  next
    case False
    then show ?thesis using k(2) unfolding r by (simp add: tiny_def dec_ok_def)
  qed
next
  case False
  show ?thesis
  proof (cases "find_cut (d_d x) t")
    case None
    then have "r = x" using assms(4) by (simp add: xn_def)
    moreover obtain n where n: "in_units x t = of_nat n" using xn_whole [OF assms(1,2) None] by blast
    moreover have "magnitude (d_d x) (d_e x) = of_nat n * digit_unit x t"
      using n unfolding in_units_def abs_dval [OF assms(1,2)] by (simp add: digit_unit_def field_simps)
    ultimately show ?thesis using assms(1,3) by (simp add: round_spec_of_nat dval_def)
  next
    case (Some k)
    then have "dec_ok r \<and> d_s r = d_s x \<and> magnitude (d_d r) (d_e r) = of_int (round_spec m (d_s x < 0) (in_units x t)) * digit_unit x t"
      using assms False by (intro xn_cut) auto
    then show ?thesis by (simp add: dval_def)
  qed
qed

lemma xn_errors: "xn ext x t m = Inl er \<Longrightarrow> ext \<and> (\<exists>e. er = OutOfRange e)"
  by (auto simp: xn_def check_exponent_def Let_def case_prod_beta' split: option.splits if_splits)

text \<open>C9: Rounding is exact. Whatever the number, the number of significant digits (also none or less) and the rounding
  mode, a result of \<open>xn\<close> is a well-formed decimal whose value is the number, in units of its last kept
  digit, rounded to an integer as the mode says; without a mode it is truncated. The only error is an
  exponent out of range, and only where exponents are checked.\<close>

theorem xn_correct:
  assumes "dec_ok x" and "d_s x \<noteq> 0" and "modes_ok m"
  shows "case xn ext x t m of
      Inl er \<Rightarrow> ext \<and> (\<exists>e. er = OutOfRange e)
    | Inr r \<Rightarrow> dec_ok r \<and> dval r = of_int (d_s x * round_spec m (d_s x < 0) (in_units x t)) * digit_unit x t"
  using xn_rounds [OF assms, of ext t] xn_errors [of ext x t m] by (auto split: sum.split)

theorem xn_correct_witness:
  "\<exists>r. xn True \<lparr>d_s = -1, d_e = 0, d_d = [1, 2500000]\<rparr> 2 (Some 6) = Inr r \<and> dval r = - 12 / 10"
proof -
  let ?x = "\<lparr>d_s = -1, d_e = 0, d_d = [1, 2500000]\<rparr>"
  have ok: "dec_ok ?x" "d_s ?x \<noteq> 0" "modes_ok (Some 6)" by (simp_all add: dec_ok_def limbs_ok_def Kr_def modes_ok_def)
  obtain r where r: "xn True ?x 2 (Some 6) = Inr r" 
    by (simp add: xn_def find_cut_def cut_up_def kept_def check_exponent_def max_exponent_def count10.simps qn_def Kr_def
        pop_zeros_def round_up_def Let_def)
  have c: "count10 (Suc 0) = 1" by (subst count10.simps) simp
  have "exponent ?x = 0" by (simp add: exponent_def c)
  then have u: "digit_unit ?x 2 = 1 / 10" by (simp add: digit_unit_def ten_def)
  have v: "dval ?x = - 125 / 100" by (simp add: dval_def magnitude_def base_pow_def Kr_def)
  have w: "in_units ?x 2 = 25 / 2" unfolding in_units_def u v by simp
  have "round_spec (Some 6) True (25 / 2) = 12" by code_simp
  then have "dval r = - 12 / 10" using xn_correct [OF ok, of True 2] unfolding r w u by simp
  then show ?thesis using r by blast
qed

end
