(* ===== verification/Decimal_Truncate.thy ===== *)
theory Decimal_Truncate
  imports Decimal_Rounding
begin

text \<open>
  How the operations finish: their exact result is truncated to the precision of the settings.
\<close>

section \<open>The code\<close>

text \<open>A result is rounded to the precision only when the flag \<open>kn\<close> (\<open>ext\<close>) is set; no rounding mode is given, so it
  is truncated.\<close>

definition finish :: "bool \<Rightarrow> settings \<Rightarrow> decimal \<Rightarrow> decimal_error + decimal" where
  "finish ext S x = (if ext then xn ext x (int (st_precision S)) None else Inr x)"

section \<open>The leading digit\<close>

definition lead_ok :: "nat list \<Rightarrow> bool" where
  "lead_ok d \<longleftrightarrow> d \<noteq> [] \<and> hd d \<noteq> 0 \<and> (\<forall>a \<in> set d. a < Kr)"

lemma limbs_ok_lead: "limbs_ok d \<longleftrightarrow> lead_ok d \<and> last d \<noteq> 0"
  by (auto simp: limbs_ok_def lead_ok_def)

text \<open>The first limbs of a number as bounds of its value.\<close>

lemma limbs_first: "\<forall>a \<in> set d. a < Kr \<Longrightarrow> d \<noteq> [] \<Longrightarrow>
    hd d * Kr ^ (length d - 1) \<le> limbs d \<and> limbs d < (hd d + 1) * Kr ^ (length d - 1)"
  using limbs_less [of "tl d"] by (cases d) auto

lemma exponent_bounds:
  assumes "lead_ok (d_d x)"
  shows "ten (exponent x) \<le> magnitude (d_d x) (d_e x)"
    "magnitude (d_d x) (d_e x) + base_pow (d_e x - int (length (d_d x)) + 1) \<le> ten (exponent x + 1)"
proof -
  let ?d = "d_d x" and ?h = "count10 (hd (d_d x))"
  let ?U = "base_pow (d_e x - int (length ?d) + 1)"
  have d: "?d \<noteq> []" "hd ?d \<noteq> 0" "\<forall>a \<in> set ?d. a < Kr" using assms by (auto simp: lead_ok_def)
  note l = limbs_first [OF d(3,1)] and h = count10_bounds [of "hd ?d"]
  have u: "of_nat (Kr ^ (length ?d - 1)) * ?U = ten (7 * d_e x)"
  proof -
    have e: "int (length ?d - 1) + (d_e x - int (length ?d) + 1) = d_e x" using d(1) by (simp add: of_nat_diff Suc_leI)
    show ?thesis unfolding base_pow_nat [symmetric] base_pow_add [symmetric] e by (rule base_pow_ten)
  qed
  have p: "ten (exponent x) = of_nat (10 ^ (?h - 1)) * ten (7 * d_e x)" "ten (exponent x + 1) = of_nat (10 ^ ?h) * ten (7 * d_e x)"
    unfolding ten_nat [symmetric] ten_add [symmetric] using count10_pos [of "hd ?d"]
    by (simp_all add: exponent_def qn_def of_nat_diff Suc_leI algebra_simps del: count10_pos)
  have "10 ^ (?h - 1) * Kr ^ (length ?d - 1) \<le> hd ?d * Kr ^ (length ?d - 1)" using h d(2) by (intro mult_le_mono1) simp
  also have "\<dots> \<le> limbs ?d" using l by simp
  finally have "(of_nat (10 ^ (?h - 1) * Kr ^ (length ?d - 1)) :: rat) \<le> of_nat (limbs ?d)" by (simp only: of_nat_le_iff)
  then have "of_nat (10 ^ (?h - 1)) * of_nat (Kr ^ (length ?d - 1)) * ?U \<le> of_nat (limbs ?d) * ?U"
    unfolding of_nat_mult by (rule mult_right_mono) (simp add: less_imp_le)
  then show "ten (exponent x) \<le> magnitude ?d (d_e x)" unfolding p magnitude_def u [symmetric] by (simp only: mult.assoc)
  have "limbs ?d + 1 \<le> (hd ?d + 1) * Kr ^ (length ?d - 1)" using l by simp
  also have "\<dots> \<le> 10 ^ ?h * Kr ^ (length ?d - 1)" using h by (intro mult_le_mono1) simp
  finally have "(of_nat (limbs ?d + 1) :: rat) \<le> of_nat (10 ^ ?h * Kr ^ (length ?d - 1))" by (simp only: of_nat_le_iff)
  then have "of_nat (limbs ?d + 1) * ?U \<le> of_nat (10 ^ ?h) * of_nat (Kr ^ (length ?d - 1)) * ?U"
    unfolding of_nat_mult by (rule mult_right_mono) (simp add: less_imp_le)
  then show "magnitude ?d (d_e x) + ?U \<le> ten (exponent x + 1)"
    unfolding p magnitude_def u [symmetric] by (simp add: mult.assoc ring_distribs)
qed

section \<open>Truncation\<close>

lemma floor_coarse:
  fixes q U :: rat
  assumes "0 < U" "of_nat l * U \<le> q" "q < of_nat l * U + U" "0 < n"
  shows "\<lfloor>of_nat l * U / (of_nat n * U)\<rfloor> = \<lfloor>q / (of_nat n * U)\<rfloor>"
proof -
  let ?j = "l div n"
  have "?j * n \<le> l" "l + 1 \<le> (?j + 1) * n" using dividend_less_div_times [OF assms(4), of l] by (simp_all add: add_mult_distrib)
  then have "(of_nat (?j * n) :: rat) \<le> of_nat l" "(of_nat (l + 1) :: rat) \<le> of_nat ((?j + 1) * n)" by (simp_all only: of_nat_le_iff)
  then have j: "of_nat (?j * n) * U \<le> of_nat l * U" "of_nat (l + 1) * U \<le> of_nat ((?j + 1) * n) * U"
    using assms(1) by (simp_all only: mult_le_cancel_right_pos)
  have nU: "0 < of_nat n * U" using assms(1,4) by simp
  have "\<lfloor>z / (of_nat n * U)\<rfloor> = int ?j" if "of_nat l * U \<le> z" "z < of_nat l * U + U" for z
  proof (rule floor_unique)
    show "of_int (int ?j) \<le> z / (of_nat n * U)"
      unfolding pos_le_divide_eq [OF nU] using j(1) that(1) by (simp add: mult.assoc)
    show "z / (of_nat n * U) < of_int (int ?j) + 1"
      unfolding pos_divide_less_eq [OF nU] using j(2) that(2) by (simp add: algebra_simps)
  qed
  from this [of "of_nat l * U"] this [of q] show ?thesis using assms by simp
qed

text \<open>Truncating a rational number to whole units.\<close>

definition truncated :: "rat \<Rightarrow> rat \<Rightarrow> rat" where
  "truncated u q = of_int \<lfloor>\<bar>q\<bar> / u\<rfloor> * u * sgn q"

lemma truncated_minus [simp]: "truncated u (- q) = - truncated u q"
  by (simp add: truncated_def)

text \<open>The value \<open>r\<close> is \<open>q\<close> truncated to the precision: to that many digits from the leading digit of \<open>q\<close> on, which
  is the digit for \<open>ten E\<close>.\<close>

definition to_precision :: "settings \<Rightarrow> rat \<Rightarrow> rat \<Rightarrow> bool" where
  "to_precision S q r \<longleftrightarrow>
     q = 0 \<and> r = 0 \<or> (\<exists>E. ten E \<le> \<bar>q\<bar> \<and> \<bar>q\<bar> < ten (E + 1) \<and> r = truncated (ten (E - int (st_precision S) + 1)) q)"

lemma to_precision_0 [simp]: "to_precision S 0 0"
  by (simp add: to_precision_def)

lemma to_precision_minus [simp]: "to_precision S (- q) (- r) \<longleftrightarrow> to_precision S q r"
  by (simp add: to_precision_def)

text \<open>What an operation with the exact result \<open>q\<close> gives: the only error is an exponent out of range, and without the flag
  that asks for rounding the result is exact.\<close>

definition result_ok :: "bool \<Rightarrow> settings \<Rightarrow> rat \<Rightarrow> decimal_error + decimal \<Rightarrow> bool" where
  "result_ok ext S q res \<longleftrightarrow>
     (case res of
        Inl er \<Rightarrow> ext \<and> (\<exists>e. er = OutOfRange e)
      | Inr r \<Rightarrow> dec_ok r \<and> (if ext then to_precision S q (dval r) else dval r = q))"

lemma xn_zero: "1 \<le> st_precision S \<Longrightarrow> xn ext zero_decimal (int (st_precision S)) None = Inr zero_decimal"
  by (simp add: xn_def find_cut_def zero_decimal_def count10.simps qn_def Let_def)

lemma finish_zero: "1 \<le> st_precision S \<Longrightarrow> finish ext S zero_decimal = Inr zero_decimal"
  by (simp add: finish_def xn_zero)

lemma xn_precision:
  assumes "dec_ok z" "1 \<le> st_precision S" "xn ext z (int (st_precision S)) None = Inr r"
  shows "dec_ok r \<and> to_precision S (dval z) (dval r)"
proof (cases "d_s z = 0")
  case True
  then have z: "z = zero_decimal" using assms(1) by (auto simp: dec_ok_def)
  then have "r = zero_decimal" using assms(3) xn_zero [OF assms(2), of ext] by simp
  then show ?thesis using z by (simp add: dec_ok_def)
next
  case False
  note r = xn_rounds [OF assms(1) False _ assms(3)]
  have s: "d_s z = 1 \<or> d_s z = -1" "lead_ok (d_d z)" using dec_ok_limbs [OF assms(1) False] by (auto simp: limbs_ok_lead)
  have a: "\<bar>dval z\<bar> = magnitude (d_d z) (d_e z)" using abs_dval assms(1) False by simp
  have p: "0 < magnitude (d_d z) (d_e z)" using dec_ok_limbs [OF assms(1) False] magnitude_pos by blast
  have "0 < base_pow (d_e z - int (length (d_d z)) + 1)" by simp
  then have b: "ten (exponent z) \<le> \<bar>dval z\<bar>" "\<bar>dval z\<bar> < ten (exponent z + 1)"
    using exponent_bounds [OF s(2)] unfolding a by linarith+
  have sg: "sgn (dval z) = of_int (d_s z)" using s(1) p by (auto simp: dval_def sgn_mult)
  have "dval r = truncated (ten (exponent z - int (st_precision S) + 1)) (dval z)"
    using r sg by (simp add: modes_ok_def round_spec_def in_units_def digit_unit_def truncated_def)
  then show ?thesis using r b by (auto simp: to_precision_def modes_ok_def)
qed

lemma finish_correct:
  assumes "dec_ok z" "1 \<le> st_precision S"
  shows "result_ok ext S (dval z) (finish ext S z)"
proof (cases ext)
  case False
  then show ?thesis using assms(1) by (simp add: result_ok_def finish_def)
next
  case True
  then show ?thesis using xn_precision [OF assms, of ext] xn_errors [of ext z]
    by (auto simp: result_ok_def finish_def split: sum.splits)
qed

end
