(* ===== verification/Decimal_Mul.thy ===== *)
theory Decimal_Mul
  imports Decimal_Truncate
begin

text \<open>
  Multiplication of decimal numbers: the schoolbook product of the limbs. A product of two limbs with
  the limb and the carry that are added to it is below \<open>2\<close> to the \<open>53\<close>.
\<close>

text \<open>The inner loop for the limb \<open>w ! i\<close>, from index \<open>i + k\<close> down to \<open>i\<close>; \<open>t\<close> is the carry.\<close>

fun mul_row :: "nat list \<Rightarrow> nat \<Rightarrow> nat \<Rightarrow> nat \<Rightarrow> nat \<Rightarrow> nat list \<Rightarrow> nat list \<times> nat" where
  "mul_row E v i 0 t s = (s[i := (s ! i + t) mod Kr], t)"
| "mul_row E v i (Suc k) t s =
     (let c = i + Suc k; y = s ! c + v * E ! k + t
      in mul_row E v i k (y div Kr) (s[c := y mod Kr]))"

fun mul_rows :: "nat list \<Rightarrow> nat list \<Rightarrow> nat \<Rightarrow> nat \<Rightarrow> nat list \<Rightarrow> nat list \<times> nat" where
  "mul_rows E w 0 t s = (s, t)"
| "mul_rows E w (Suc i) t s = (let (s', t') = mul_row E (w ! i) i (length E) 0 s in mul_rows E w i t' s')"

definition mul_limbs :: "nat list \<Rightarrow> nat list \<Rightarrow> nat list \<times> nat" where
  "mul_limbs E0 w0 =
     (let (E, w) = (if length E0 < length w0 then (w0, E0) else (E0, w0))
      in mul_rows E w (length w) 0 (replicate (length E + length w) 0))"

definition dec_times :: "bool \<Rightarrow> settings \<Rightarrow> decimal \<Rightarrow> decimal \<Rightarrow> decimal_error + decimal" where
  "dec_times ext S x e =
     (if d_s x = 0 \<or> d_s e = 0 then Inr zero_decimal
      else (let (s, t) = mul_limbs (d_d x) (d_d e); d = pop_zeros s; a = d_e x + d_e e
            in finish ext S (if t \<noteq> 0 then \<lparr>d_s = d_s e * d_s x, d_e = a + 1, d_d = d\<rparr>
                             else \<lparr>d_s = d_s e * d_s x, d_e = a, d_d = tl d\<rparr>)))"

section \<open>The loops\<close>

lemma take_drop_update: "c < i \<Longrightarrow> drop i (s[c := x]) = drop i s" "i \<le> c \<Longrightarrow> take i (s[c := x]) = take i s"
  by simp_all

text \<open>The window of \<open>n\<close> limbs from index \<open>i\<close> on.\<close>

definition window :: "nat \<Rightarrow> nat \<Rightarrow> nat list \<Rightarrow> nat list" where
  "window i n s = take n (drop i s)"

lemma window_0 [simp]: "window i 0 s = []"
  by (simp add: window_def)

lemma window_Suc: "i + n < length s \<Longrightarrow> window i (Suc n) s = window i n s @ [s ! (i + n)]"
  by (simp add: window_def take_Suc_conv_app_nth)

lemma mul_row_correct:
  assumes "i + k < length s" "k \<le> length E" "t < Kr" "v < Kr" "\<forall>a \<in> set s. a < Kr" "\<forall>a \<in> set E. a < Kr" "s ! i = 0"
    "mul_row E v i k t s = (s', t')"
  shows "length s' = length s \<and> take i s' = take i s \<and> drop (Suc (i + k)) s' = drop (Suc (i + k)) s
    \<and> limbs (window i (Suc k) s') = limbs (window i (Suc k) s) + v * limbs (take k E) + t
    \<and> (\<forall>a \<in> set s'. a < Kr) \<and> t' < Kr \<and> s' ! i = t'"
  using assms
proof (induction k arbitrary: t s)
  case 0
  have "s' = s[i := t]" "t' = t" using 0 by auto
  then show ?case using 0
    by (auto simp: window_Suc dest!: set_update_subset_insert [THEN subsetD])
next
  case (Suc k)
  define c where "c = i + Suc k"
  define y where "y = s ! c + v * E ! k + t"
  define s1 where "s1 = s[c := y mod Kr]"
  have c: "c < length s" "k < length E" using Suc.prems by (simp_all add: c_def)
  have l: "s ! c < Kr" "E ! k < Kr" using Suc.prems c by (meson nth_mem)+
  have "v * E ! k \<le> (Kr - 1) * (Kr - 1)" using Suc.prems(4) l(2) by (intro mult_le_mono) auto
  moreover have "s ! c \<le> Kr - 1" "t \<le> Kr - 1" using l(1) Suc.prems(3) by auto
  ultimately have "y \<le> (Kr - 1) + (Kr - 1) * (Kr - 1) + (Kr - 1)" by (simp add: y_def)
  also have "\<dots> < Kr * Kr" by (simp add: Kr_def)
  finally have y: "y div Kr < Kr" by (simp add: div_less_iff_less_mult)
  have s1: "mul_row E v i k (y div Kr) s1 = (s', t')"
    using Suc.prems(8) by (simp add: Let_def c_def y_def s1_def)
  have ok: "\<forall>a \<in> set s1. a < Kr" using Suc.prems(5) unfolding s1_def
    by (auto dest!: set_update_subset_insert [THEN subsetD])
  have IH: "length s' = length s1 \<and> take i s' = take i s1 \<and> drop (Suc (i + k)) s' = drop (Suc (i + k)) s1
    \<and> limbs (window i (Suc k) s') = limbs (window i (Suc k) s1) + v * limbs (take k E) + y div Kr
    \<and> (\<forall>a \<in> set s'. a < Kr) \<and> t' < Kr \<and> s' ! i = t'"
    using Suc.prems c by (intro Suc.IH [OF _ _ y _ ok _ _ s1]) (auto simp: s1_def c_def)
  have cs: "s' ! c = y mod Kr"
  proof -
    have "drop c s' = drop c s1" "length s' = length s1" using IH by (simp_all add: c_def)
    moreover have "c < length s1" using c by (simp add: s1_def)
    ultimately have "s' ! c = s1 ! c" by (metis hd_drop_conv_nth)
    then show ?thesis using c by (simp add: s1_def)
  qed
  have w: "window i (Suc k) s1 = window i (Suc k) s" by (simp add: window_def s1_def c_def drop_update_swap)
  have "limbs (window i (Suc (Suc k)) s') = limbs (window i (Suc k) s') * Kr + y mod Kr"
    using window_Suc [of i "Suc k" s'] IH c cs by (simp add: limbs_snoc s1_def c_def)
  also have "\<dots> = (limbs (window i (Suc k) s) + v * limbs (take k E)) * Kr + y"
    using IH w by (simp add: add_mult_distrib)
  also have "\<dots> = limbs (window i (Suc (Suc k)) s) + v * limbs (take (Suc k) E) + t"
    using window_Suc [of i "Suc k" s] c
    by (simp add: limbs_snoc take_Suc_conv_app_nth y_def c_def algebra_simps)
  finally have v: "limbs (window i (Suc (Suc k)) s') = limbs (window i (Suc (Suc k)) s) + v * limbs (take (Suc k) E) + t" .
  have "drop (Suc c) s' = drop 1 (drop (Suc (i + k)) s')" by (simp add: c_def)
  also have "\<dots> = drop (Suc c) s" using IH by (simp add: s1_def c_def)
  finally show ?case using IH v by (simp add: s1_def c_def)
qed

lemma mul_rows_correct:
  assumes "i \<le> length w" "length s = length E + length w" "\<forall>a \<in> set s. a < Kr" "\<forall>a \<in> set E. a < Kr" "\<forall>a \<in> set w. a < Kr"
    "take i s = replicate i 0" "limbs (drop i s) = limbs E * limbs (drop i w)" "i = 0 \<longrightarrow> s ! 0 = t"
    "i < length w \<longrightarrow> s ! i = t" "E \<noteq> []" "i = length w \<longrightarrow> 0 < i"
    "mul_rows E w i t s = (s', t')"
  shows "length s' = length E + length w \<and> limbs s' = limbs E * limbs w \<and> (\<forall>a \<in> set s'. a < Kr) \<and> s' ! 0 = t'"
  using assms
proof (induction i arbitrary: t s)
  case (Suc i)
  obtain s1 t1 where r: "mul_row E (w ! i) i (length E) 0 s = (s1, t1)" by fastforce
  have rr: "mul_rows E w i t1 s1 = (s', t')" using Suc.prems(12) r by simp
  have i: "i < length w" "i + length E < length s" using Suc.prems(1,2) by auto
  have z: "s ! i = 0" using Suc.prems(6) i by (metis lessI nth_replicate nth_take)
  have "w ! i < Kr" using Suc.prems(5) i by simp
  note row = mul_row_correct [OF i(2) le_refl Kr_pos(1) this Suc.prems(3,4) z r]
  have len: "length s1 = length E + length w" using row Suc.prems(2) by simp
  have t: "take i s1 = replicate i 0"
  proof -
    have "take i s1 = take i (take (Suc i) s)" using row by simp
    also have "\<dots> = take i (replicate (Suc i) 0)" using Suc.prems(6) by simp
    finally show ?thesis by (simp del: replicate_Suc)
  qed
  let ?L = "length w - Suc i"
  have sp: "drop i u = window i (Suc (length E)) u @ drop (Suc (i + length E)) u" for u :: "nat list"
    by (simp add: window_def) (metis add_Suc_right append_take_drop_id drop_drop add.commute)
  have dl: "length (drop (Suc (i + length E)) s) = ?L" "length (drop (Suc (i + length E)) s1) = ?L"
    using Suc.prems(2) len by simp_all
  have "limbs (drop i s1) = (limbs (window i (Suc (length E)) s) + w ! i * limbs E) * Kr ^ ?L + limbs (drop (Suc (i + length E)) s)"
    unfolding sp [of s1] limbs_append dl using row by simp
  also have "\<dots> = limbs (drop i s) + w ! i * limbs E * Kr ^ ?L"
    unfolding sp [of s] limbs_append dl by (simp add: add_mult_distrib)
  also have "limbs (drop i s) = limbs (drop (Suc i) s)"
    using z i by (simp flip: Cons_nth_drop_Suc)
  also have "limbs (drop (Suc i) s) + w ! i * limbs E * Kr ^ ?L = limbs E * limbs (drop i w)"
    using Suc.prems(7) i by (simp flip: Cons_nth_drop_Suc add: algebra_simps)
  finally have v: "limbs (drop i s1) = limbs E * limbs (drop i w)" .
  show ?case
    by (rule Suc.IH [OF _ len _ Suc.prems(4,5) t v _ _ Suc.prems(10) _ rr]) (use row i in auto)
qed simp

lemma mul_limbs_correct:
  assumes "limbs_ok d" "limbs_ok d'" "mul_limbs d d' = (s, t)"
  shows "length s = length d + length d' \<and> limbs s = limbs d * limbs d' \<and> (\<forall>a \<in> set s. a < Kr) \<and> s ! 0 = t"
proof -
  have m: "length s = length E + length w \<and> limbs s = limbs E * limbs w \<and> (\<forall>a \<in> set s. a < Kr) \<and> s ! 0 = t"
    if "limbs_ok E" "limbs_ok w" "mul_rows E w (length w) 0 (replicate (length E + length w) 0) = (s, t)" for E w
    by (rule mul_rows_correct [OF le_refl _ _ _ _ _ _ _ _ _ _ that(3)]) (use that in \<open>auto simp: limbs_ok_def\<close>)
  show ?thesis
    using assms m [of d d'] m [of d' d] by (auto simp: mul_limbs_def mult.commute split: if_splits)
qed

lemma limbs_lead: "d \<noteq> [] \<Longrightarrow> Kr ^ (length d - 1) \<le> limbs d \<Longrightarrow> \<forall>a \<in> set d. a < Kr \<Longrightarrow> hd d \<noteq> 0"
  using limbs_less [of "tl d"] by (cases d) (auto intro: ccontr)

lemma limbs_ok_ge: "limbs_ok d \<Longrightarrow> Kr ^ (length d - 1) \<le> limbs d"
  using limbs_ge by (cases d) (auto simp: limbs_ok_def)

lemma tl_pop_zeros: "tl d \<noteq> [] \<Longrightarrow> hd (tl d) \<noteq> 0 \<Longrightarrow> hd d = 0 \<Longrightarrow> tl (pop_zeros d) = pop_zeros (tl d)"
proof -
  assume a: "tl d \<noteq> []" "hd (tl d) \<noteq> 0" "hd d = 0"
  obtain x y r where d: "d = x # y # r" "y \<noteq> 0" using a by (cases d; cases "tl d") auto
  have "dropWhile (\<lambda>a. a = 0) (rev (y # r) @ [x]) = dropWhile (\<lambda>a. a = 0) (rev (y # r)) @ [x]"
    by (rule dropWhile_append1 [of y]) (use d(2) in auto)
  then show ?thesis unfolding d by (simp add: pop_zeros_def)
qed

text \<open>The number that the finishing step gets has the product as its value.\<close>

lemma dec_times_value:
  assumes "dec_ok x" and "dec_ok e"
  shows "\<exists>z. dec_times ext S x e = (if d_s x = 0 \<or> d_s e = 0 then Inr z else finish ext S z)
    \<and> dec_ok z \<and> dval z = dval x * dval e"
proof (cases "d_s x = 0 \<or> d_s e = 0")
  case True
  then have "dval x * dval e = 0" by (auto simp: dval_def)
  then show ?thesis using True by (intro exI [of _ zero_decimal]) (simp add: dec_times_def dec_ok_def)
next
  case False
  note ok = dec_ok_limbs [OF assms(1)] dec_ok_limbs [OF assms(2)]
  let ?d = "d_d x" and ?d' = "d_d e"
  obtain s t where m: "mul_limbs ?d ?d' = (s, t)" by fastforce
  have p: "length s = length ?d + length ?d'" "limbs s = limbs ?d * limbs ?d'" "\<forall>a \<in> set s. a < Kr" "s ! 0 = t"
    using mul_limbs_correct [OF _ _ m] ok False by auto
  have ne: "?d \<noteq> []" "?d' \<noteq> []" using ok False by (auto simp: limbs_ok_def)
  obtain b r where s: "s = b # r" "r \<noteq> []" using p(1) ne by (cases s; cases "tl s"; cases ?d; cases ?d') auto
  have b: "b = t" using p(4) s by simp
  define z where "z = (if t \<noteq> 0 then \<lparr>d_s = d_s e * d_s x, d_e = d_e x + d_e e + 1, d_d = pop_zeros s\<rparr>
    else \<lparr>d_s = d_s e * d_s x, d_e = d_e x + d_e e, d_d = tl (pop_zeros s)\<rparr>)"
  have g: "Kr ^ (length s - 2) \<le> limbs s"
  proof -
    have "Kr ^ (length ?d - 1) * Kr ^ (length ?d' - 1) \<le> limbs s"
      unfolding p(2) using ok False by (intro mult_le_mono limbs_ok_ge) auto
    moreover have "length s - 2 = (length ?d - 1) + (length ?d' - 1)" using p(1) ne by (cases ?d; cases ?d') auto
    ultimately show ?thesis by (simp add: power_add)
  qed
  have hr: "t = 0 \<Longrightarrow> hd r \<noteq> 0"
    using g p(3) s b by (intro limbs_lead) auto
  have ds: "limbs_ok (d_d z) \<and> magnitude (d_d z) (d_e z) = magnitude s (d_e x + d_e e + 1)"
  proof (cases "t = 0")
    case True
    then have "tl (pop_zeros s) = pop_zeros r" using tl_pop_zeros [of s] hr s b by simp
    then show ?thesis using True pop_zeros_ok [of r] hr p(3) s b by (simp add: z_def)
  next
    case False
    then show ?thesis using pop_zeros_ok [of s] p(3) s b by (simp add: z_def)
  qed
  have sg: "d_s z = d_s x * d_s e" by (simp add: z_def)
  have "magnitude s (d_e x + d_e e + 1) = magnitude ?d (d_e x) * magnitude ?d' (d_e e)"
  proof -
    have "base_pow (d_e x + d_e e + 1 - int (length s) + 1)
        = base_pow (d_e x - int (length ?d) + 1) * base_pow (d_e e - int (length ?d') + 1)"
      unfolding base_pow_add [symmetric] p(1) by (simp add: algebra_simps)
    then show ?thesis by (simp add: magnitude_def p(2))
  qed
  then have "dval z = dval x * dval e" using ds sg by (simp add: dval_def)
  moreover have "dec_ok z" using ds sg ok False by (auto simp: dec_ok_def)
  moreover have "dec_times ext S x e = finish ext S z"
    using False m by (simp add: dec_times_def z_def Let_def)
  ultimately show ?thesis using False by auto
qed

text \<open>C30: Multiplication is exact up to the final truncation. The result of \<open>times\<close> is the product of the values, truncated to
  the precision when rounding is on and exact otherwise; the only error is an exponent out of range.\<close>

theorem dec_times_exact:
  assumes "dec_ok x" and "dec_ok e" and "1 \<le> st_precision S"
  shows "result_ok ext S (dval x * dval e) (dec_times ext S x e)"
proof -
  obtain z where z: "dec_times ext S x e = (if d_s x = 0 \<or> d_s e = 0 then Inr z else finish ext S z)"
    "dec_ok z" "dval z = dval x * dval e" using dec_times_value [OF assms(1,2)] by blast
  show ?thesis
  proof (cases "d_s x = 0 \<or> d_s e = 0")
    case True
    then have "dval x * dval e = 0" by (auto simp: dval_def)
    then show ?thesis using True z unfolding \<open>dval x * dval e = 0\<close> by (simp add: result_ok_def)
  next
    case False
    then show ?thesis using z(1) finish_correct [OF z(2) assms(3), of ext] by (simp add: z(3))
  qed
qed

theorem dec_times_exact_witness:
  "\<exists>z. dec_times False PQ \<lparr>d_s = -1, d_e = 0, d_d = [1, 5000000]\<rparr> \<lparr>d_s = 1, d_e = 1, d_d = [3]\<rparr> = Inr z \<and> dval z = - 45000000"
proof -
  let ?x = "\<lparr>d_s = -1, d_e = 0, d_d = [1, 5000000]\<rparr>" and ?y = "\<lparr>d_s = 1, d_e = 1, d_d = [3]\<rparr>"
  have "dec_ok ?x" "dec_ok ?y" "1 \<le> st_precision PQ" by (simp_all add: dec_ok_def limbs_ok_def Kr_def PQ_def)
  note r = dec_times_exact [OF this, of False]
  have "dval ?x = - 3 / 2" "dval ?y = 30000000" by (simp_all add: dval_def magnitude_def base_pow_def Kr_def)
  then show ?thesis using r by (auto simp: result_ok_def split: sum.splits)
qed

end
