(* ===== verification/Decimal_Add.thy ===== *)
theory Decimal_Add
  imports Decimal_Mul
begin

text \<open>
  Addition and subtraction of decimal numbers. Both align the limbs of the number with the smaller
  exponent by zeros in front; when it lies far below the other number, only its first limb is kept, just below
  the digits that the precision can show.
\<close>

section \<open>The code\<close>

definition align :: "nat \<Rightarrow> nat \<Rightarrow> nat list \<Rightarrow> nat list" where
  "align y s i = (if y < s then replicate y 0 @ [hd i] else replicate s 0 @ i)"

definition prec_limbs :: "settings \<Rightarrow> nat" where
  "prec_limbs S = (st_precision S + 6) div qn"

text \<open>The loop of \<open>GB\<close>, on the limbs both numbers have, from the last to the first.\<close>

fun add_rev :: "nat \<Rightarrow> nat list \<Rightarrow> nat list \<Rightarrow> nat list \<times> nat" where
  "add_rev a (g # gs) (b # bs) =
     (let v = g + b + a; (r, a') = add_rev (v div Kr) gs bs in (v mod Kr # r, a'))"
| "add_rev a _ _ = ([], a)"

definition add_limbs :: "nat list \<Rightarrow> nat list \<Rightarrow> nat list \<times> nat" where
  "add_limbs g0 b0 =
     (let (g, b) = (if length g0 < length b0 then (b0, g0) else (g0, b0));
          (r, a) = add_rev 0 (rev (take (length b) g)) (rev b)
      in (rev r @ drop (length b) g, a))"

text \<open>\<open>GB\<close>: the sum of two numbers with the same sign.\<close>

definition add_signed :: "bool \<Rightarrow> settings \<Rightarrow> decimal \<Rightarrow> decimal \<Rightarrow> decimal_error + decimal" where
  "add_signed ext S e t =
     (if d_s e = 0 \<or> d_s t = 0 then finish ext S (if d_s t \<noteq> 0 then t else e)
      else (let s = d_e e - d_e t; h = prec_limbs S;
                (g, b, c) =
                  (if s = 0 then (d_d e, d_d t, d_e t)
                   else if s < 0 then (align (max h (length (d_d t)) + 1) (nat (- s)) (d_d e), d_d t, d_e t)
                   else (d_d e, align (max h (length (d_d e)) + 1) (nat s) (d_d t), d_e e));
                (r, a) = add_limbs g b
            in finish ext S \<lparr>d_s = d_s t, d_e = (if a \<noteq> 0 then c + 1 else c), d_d = pop_zeros (if a \<noteq> 0 then a # r else r)\<rparr>))"

text \<open>The loops of \<open>XB\<close>: which number is smaller when the exponents agree, borrowing, and subtracting the limbs from
  the last to the one at index \<open>h\<close>. A limb in front of the first is never borrowed from, since
  the first number is the larger one.\<close>

fun less_limbs :: "bool \<Rightarrow> nat list \<Rightarrow> nat list \<Rightarrow> bool" where
  "less_limbs d (g # gs) (s # ss) = (if g \<noteq> s then g < s else less_limbs d gs ss)"
| "less_limbs d _ _ = d"

fun borrow :: "nat \<Rightarrow> nat list \<Rightarrow> nat list" where
  "borrow 0 g = g[0 := g ! 0 - 1]"
| "borrow (Suc s) g = (if g ! s = 0 then borrow s (g[s := Kr - 1]) else g[s := g ! s - 1])"

fun sub_loop :: "nat \<Rightarrow> nat list \<Rightarrow> nat \<Rightarrow> nat list \<Rightarrow> nat list" where
  "sub_loop h S 0 g = g"
| "sub_loop h S (Suc c) g =
     (if Suc c \<le> h then g
      else (let g1 = (if g ! c < S ! c then (let g' = borrow c g in g'[c := g' ! c + Kr]) else g)
            in sub_loop h S c (g1[c := g1 ! c - S ! c])))"

definition sub_limbs :: "nat \<Rightarrow> nat list \<Rightarrow> nat list \<Rightarrow> nat list" where
  "sub_limbs h g S = sub_loop h S (length S) (g @ replicate (length S - length g) 0)"

text \<open>\<open>XB\<close>: the difference of two numbers with the same sign.\<close>

definition sub_signed :: "bool \<Rightarrow> settings \<Rightarrow> decimal \<Rightarrow> decimal \<Rightarrow> decimal_error + decimal" where
  "sub_signed ext S e t =
     (if d_s e = 0 \<or> d_s t = 0 then finish ext S (if d_s t \<noteq> 0 then t\<lparr>d_s := - d_s t\<rparr> else e)
      else (let k = d_e e - d_e t; p = prec_limbs S;
                (g, u, i, h, less) =
                  (if k = 0 then (d_d e, d_d t, d_e t, 0, less_limbs (length (d_d e) < length (d_d t)) (d_d e) (d_d t))
                   else if k < 0 then (let m = max p (length (d_d t)) + 2
                     in (align m (nat (- k)) (d_d e), d_d t, d_e t, min (nat (- k)) m, True))
                   else (let m = max p (length (d_d e)) + 2
                     in (d_d e, align m (nat k) (d_d t), d_e e, min (nat k) m, False)));
                (g', u', sg) = (if less then (u, g, - d_s t) else (g, u, d_s t));
                d = pop_zeros (sub_limbs h g' u');
                n = length (takeWhile (\<lambda>a. a = 0) d)
            in if drop n d = [] then Inr zero_decimal
               else finish ext S \<lparr>d_s = sg, d_e = i - int n, d_d = drop n d\<rparr>))"

definition dec_plus :: "bool \<Rightarrow> settings \<Rightarrow> decimal \<Rightarrow> decimal \<Rightarrow> decimal_error + decimal" where
  "dec_plus ext S t e = (if d_s t = d_s e then add_signed ext S t e else sub_signed ext S t (dec_neg e))"

definition dec_minus :: "bool \<Rightarrow> settings \<Rightarrow> decimal \<Rightarrow> decimal \<Rightarrow> decimal_error + decimal" where
  "dec_minus ext S t e = (if d_s t = d_s e then sub_signed ext S t e else add_signed ext S t (dec_neg e))"

section \<open>Adding\<close>

lemma add_rev_correct:
  assumes "length g = length b" "\<forall>a \<in> set g. a < Kr" "\<forall>a \<in> set b. a < Kr" "a \<le> 1" "add_rev a g b = (r, a')"
  shows "length r = length g \<and> limbs (rev r) + a' * Kr ^ length g = limbs (rev g) + limbs (rev b) + a
    \<and> (\<forall>a \<in> set r. a < Kr) \<and> a' \<le> 1"
  using assms
proof (induction g b arbitrary: a r rule: list_induct2)
  case (Cons x g y b)
  define v where "v = x + y + a"
  obtain r1 where r: "add_rev (v div Kr) g b = (r1, a')" "r = v mod Kr # r1"
    using Cons.prems(4) by (auto simp: v_def Let_def split: prod.splits)
  have "v < 2 * Kr" using Cons.prems by (auto simp: v_def)
  then have v: "v div Kr \<le> 1" by (simp add: less_Suc_eq_le [symmetric] div_less_iff_less_mult)
  have IH: "length r1 = length g \<and> limbs (rev r1) + a' * Kr ^ length g = limbs (rev g) + limbs (rev b) + v div Kr
    \<and> (\<forall>a \<in> set r1. a < Kr) \<and> a' \<le> 1"
    using Cons.prems v r(1) by (intro Cons.IH) auto
  have "limbs (rev r) + a' * Kr ^ length (x # g) = (limbs (rev r1) + a' * Kr ^ length g) * Kr + v mod Kr"
    by (simp add: r(2) limbs_snoc algebra_simps)
  also have "\<dots> = (limbs (rev g) + limbs (rev b)) * Kr + v" using IH by (simp add: add_mult_distrib)
  also have "\<dots> = limbs (rev (x # g)) + limbs (rev (y # b)) + a" by (simp add: v_def limbs_snoc algebra_simps)
  finally show ?case using IH r(2) by simp
qed simp

lemma magnitude_split: "magnitude (d @ d') e = magnitude d e + magnitude d' (e - int (length d))"
proof -
  have "base_pow (e - int (length d) + 1) = of_nat (Kr ^ length d') * base_pow (e - int (length d + length d') + 1)"
    unfolding base_pow_nat [symmetric] base_pow_add [symmetric] by (simp add: algebra_simps)
  then show ?thesis by (simp add: magnitude_def limbs_append algebra_simps)
qed

lemma magnitude_Cons: "magnitude (a # d) e = of_nat a * base_pow e + magnitude d (e - 1)"
  using magnitude_split [of "[a]" d e] by (simp add: magnitude_def)

lemma add_limbs_correct:
  assumes "\<forall>a \<in> set g. a < Kr" "\<forall>a \<in> set b. a < Kr" "add_limbs g b = (r, a)"
  shows "magnitude (a # r) (c + 1) = magnitude g c + magnitude b c \<and> length r = max (length g) (length b)
    \<and> (\<forall>a \<in> set r. a < Kr) \<and> a \<le> 1"
proof -
  have main: "magnitude (a # r) (c + 1) = magnitude g c + magnitude b c \<and> length r = length g
    \<and> (\<forall>a \<in> set r. a < Kr) \<and> a \<le> 1"
    if "length b \<le> length g" "\<forall>a \<in> set g. a < Kr" "\<forall>a \<in> set b. a < Kr"
      "(case add_rev 0 (rev (take (length b) g)) (rev b) of (r, a) \<Rightarrow> (rev r @ drop (length b) g, a)) = (r, a)" for g b
  proof -
    note h = that
    obtain r1 where r: "add_rev 0 (rev (take (length b) g)) (rev b) = (r1, a)" "r = rev r1 @ drop (length b) g"
      using h(4) by (auto split: prod.splits)
    have l: "length r1 = length b \<and> limbs (rev r1) + a * Kr ^ length b = limbs (take (length b) g) + limbs b
      \<and> (\<forall>a \<in> set r1. a < Kr) \<and> a \<le> 1"
      using add_rev_correct [OF _ _ _ _ r(1)] that by (auto dest: in_set_takeD)
    have "limbs (a # rev r1) = limbs (take (length b) g) + limbs b" using l by simp
    then have "magnitude (a # rev r1) (c + 1) = magnitude (take (length b) g) c + magnitude b c"
      using that(1) l by (simp add: magnitude_def algebra_simps del: limbs.simps)
    moreover have "magnitude (a # r) (c + 1) = magnitude (a # rev r1) (c + 1) + magnitude (drop (length b) g) (c - int (length b))"
      using magnitude_split [of "a # rev r1" "drop (length b) g" "c + 1"] l r(2) by simp
    moreover have "magnitude g c = magnitude (take (length b) g) c + magnitude (drop (length b) g) (c - int (length b))"
      using magnitude_split [of "take (length b) g" "drop (length b) g" c] that(1) by simp
    ultimately show ?thesis using l r(2) that by (auto dest: in_set_dropD)
  qed
  show ?thesis
  proof (cases "length g < length b")
    case True
    then show ?thesis using main [of g b] assms by (auto simp: add_limbs_def)
  next
    case False
    then show ?thesis using main [of b g] assms by (auto simp: add_limbs_def)
  qed
qed

text \<open>The numbers are near when alignment, to \<open>k\<close> limbs more than the precision needs, keeps all limbs.\<close>

definition near :: "nat \<Rightarrow> settings \<Rightarrow> decimal \<Rightarrow> decimal \<Rightarrow> bool" where
  "near k S x y \<longleftrightarrow>
     d_e x - d_e y \<le> int (max (prec_limbs S) (length (d_d x)) + k)
     \<and> d_e y - d_e x \<le> int (max (prec_limbs S) (length (d_d y)) + k)"

lemma align_near: "s \<le> y \<Longrightarrow> align y s i = replicate s 0 @ i"
  by (simp add: align_def)

lemma magnitude_align: "s \<le> y \<Longrightarrow> magnitude (align y s i) e = magnitude i (e - int s)"
  by (simp add: align_near magnitude_prepend_zeros)

lemma align_less: "limbs_ok i \<Longrightarrow> \<forall>a \<in> set (align y s i). a < Kr"
  by (auto simp: align_def limbs_ok_def)

lemma add_signed_exact:
  assumes "dec_ok e" "dec_ok t" "d_s e = d_s t" "near 1 S e t"
  shows "\<exists>z. add_signed ext S e t = finish ext S z \<and> dec_ok z \<and> dval z = dval e + dval t"
proof (cases "d_s t = 0")
  case True
  then have "e = zero_decimal" "t = zero_decimal" using assms by (auto simp: dec_ok_def)
  then show ?thesis by (intro exI [of _ zero_decimal]) (simp add: add_signed_def zero_decimal_def dec_ok_def dval_def)
next
  case False
  note ok = dec_ok_limbs [OF assms(1)] dec_ok_limbs [OF assms(2)]
  let ?c = "max (d_e e) (d_e t)"
  obtain g b where gb: "(if d_e e - d_e t = 0 then (d_d e, d_d t, d_e t)
       else if d_e e - d_e t < 0 then (align (max (prec_limbs S) (length (d_d t)) + 1) (nat (- (d_e e - d_e t))) (d_d e), d_d t, d_e t)
       else (d_d e, align (max (prec_limbs S) (length (d_d e)) + 1) (nat (d_e e - d_e t)) (d_d t), d_e e)) = (g, b, ?c)"
    and lt: "\<forall>a \<in> set g. a < Kr" "\<forall>a \<in> set b. a < Kr"
    and v: "magnitude g ?c = magnitude (d_d e) (d_e e)" "magnitude b ?c = magnitude (d_d t) (d_e t)"
    and hd: "g \<noteq> []" "b \<noteq> []" "hd g \<noteq> 0 \<or> hd b \<noteq> 0"
  proof -
    consider "d_e e = d_e t" | "d_e e < d_e t" | "d_e t < d_e e" by linarith
    then show ?thesis
    proof cases
      case 1
      then show ?thesis using ok assms(3) False by (intro that [of "d_d e" "d_d t"]) (auto simp: limbs_ok_def)
    next
      case 2
      let ?y = "max (prec_limbs S) (length (d_d t)) + 1"
      have n: "nat (d_e t - d_e e) \<le> ?y" using assms(4) by (auto simp: near_def)
      show ?thesis
        using 2 ok assms(3) False magnitude_align [OF n, of "d_d e" "d_e t"] align_less [of "d_d e" ?y "nat (d_e t - d_e e)"]
        by (intro that [of "align ?y (nat (d_e t - d_e e)) (d_d e)" "d_d t"]) (auto simp: limbs_ok_def align_def)
    next
      case 3
      let ?y = "max (prec_limbs S) (length (d_d e)) + 1"
      have n: "nat (d_e e - d_e t) \<le> ?y" using assms(4) by (auto simp: near_def)
      show ?thesis
        using 3 ok assms(3) False magnitude_align [OF n, of "d_d t" "d_e e"] align_less [of "d_d t" ?y "nat (d_e e - d_e t)"]
        by (intro that [of "d_d e" "align ?y (nat (d_e e - d_e t)) (d_d t)"]) (auto simp: limbs_ok_def align_def)
    qed
  qed
  obtain r a where ra: "add_limbs g b = (r, a)" by fastforce
  note A = add_limbs_correct [OF lt ra, of ?c]
  define z where "z = \<lparr>d_s = d_s t, d_e = (if a \<noteq> 0 then ?c + 1 else ?c), d_d = pop_zeros (if a \<noteq> 0 then a # r else r)\<rparr>"
  have "add_signed ext S e t = finish ext S z"
    using False assms(3) unfolding add_signed_def Let_def gb prod.case ra z_def by simp
  moreover have m: "magnitude (d_d z) (d_e z) = magnitude (d_d e) (d_e e) + magnitude (d_d t) (d_e t)"
  proof (cases "a = 0")
    case True
    then show ?thesis using A v by (simp add: z_def)
  next
    case False
    then show ?thesis using A v by (simp add: z_def)
  qed
  then have "dval z = dval e + dval t" using assms(3) by (simp add: dval_def z_def algebra_simps)
  moreover have "limbs_ok (d_d z)"
  proof (cases "a = 0")
    case False
    then show ?thesis using A pop_zeros_ok [of "a # r"] by (auto simp: z_def Kr_def)
  next
    case True
    have "base_pow ?c \<le> magnitude g ?c + magnitude b ?c"
      using hd magnitude_ge [of g ?c] magnitude_ge [of b ?c] magnitude_nonneg [of g ?c] magnitude_nonneg [of b ?c] by linarith
    then have "base_pow ?c \<le> magnitude r ?c" using A True by simp
    moreover have "r \<noteq> []" using A hd by auto
    moreover have "hd r = 0 \<Longrightarrow> magnitude r ?c < base_pow ?c"
      using magnitude_less [of "tl r" "?c - 1"] A \<open>r \<noteq> []\<close> by (cases r) auto
    ultimately show ?thesis using A True pop_zeros_ok [of r] by (force simp: z_def)
  qed
  ultimately show ?thesis using ok False by (auto simp: dec_ok_def z_def)
qed

section \<open>Subtracting\<close>

lemma limbs_update:
  "c < length g \<Longrightarrow> int (limbs (g[c := v])) = int (limbs g) + (int v - int (g ! c)) * int Kr ^ (length g - Suc c)"
proof (induction g arbitrary: c)
  case (Cons x g)
  then show ?case by (cases c) (auto simp: algebra_simps)
qed simp

lemma limbs_zeros_front:
  assumes "\<forall>j < c. g ! j = 0" "c < length g" "\<forall>a \<in> set g. a < Kr"
  shows "limbs g < Suc (g ! c) * Kr ^ (length g - Suc c)"
  using assms
proof (induction g arbitrary: c)
  case (Cons x g)
  show ?case
  proof (cases c)
    case 0
    have "limbs g < Kr ^ length g" using Cons.prems(3) by (intro limbs_less) auto
    then show ?thesis using 0 by simp
  next
    case (Suc n)
    then have "limbs g < Suc (g ! n) * Kr ^ (length g - Suc n)"
      using Cons.prems by (intro Cons.IH) auto
    moreover have "x = 0" using Cons.prems(1) Suc by auto
    ultimately show ?thesis using Suc by simp
  qed
qed simp

lemma borrow_correct:
  assumes "c < length g" "\<exists>j < c. g ! j \<noteq> 0" "\<forall>a \<in> set g. a < Kr"
  shows "length (borrow c g) = length g \<and> int (limbs (borrow c g)) = int (limbs g) - int Kr ^ (length g - c)
    \<and> (\<forall>j \<ge> c. borrow c g ! j = g ! j) \<and> (\<forall>a \<in> set (borrow c g). a < Kr)"
  using assms
proof (induction c arbitrary: g)
  case (Suc s)
  have n: "length g - s = Suc (length g - Suc s)" "s < length g" using Suc.prems(1) by auto
  show ?case
  proof (cases "g ! s = 0")
    case False
    have "g ! s < Kr" using Suc.prems(3) n(2) by simp
    then have "\<forall>a \<in> set (g[s := g ! s - 1]). a < Kr"
      using Suc.prems(3) by (auto dest!: set_update_subset_insert [THEN subsetD])
    moreover have "int (limbs (g[s := g ! s - 1])) = int (limbs g) - int Kr ^ (length g - Suc s)"
      using False limbs_update [OF n(2), of "g ! s - 1"] by (simp add: of_nat_diff)
    ultimately show ?thesis using False by simp
  next
    case True
    let ?g = "g[s := Kr - 1]"
    have "\<forall>a \<in> set ?g. a < Kr"
      using Suc.prems(3) by (auto simp: Kr_def dest!: set_update_subset_insert [THEN subsetD])
    moreover have "\<exists>j < s. ?g ! j \<noteq> 0"
    proof -
      obtain j where j: "j < Suc s" "g ! j \<noteq> 0" using Suc.prems(2) by blast
      then have "j < s" using True by (metis less_antisym)
      then show ?thesis using j by auto
    qed
    ultimately have IH: "length (borrow s ?g) = length ?g \<and> int (limbs (borrow s ?g)) = int (limbs ?g) - int Kr ^ (length ?g - s)
      \<and> (\<forall>j \<ge> s. borrow s ?g ! j = ?g ! j) \<and> (\<forall>a \<in> set (borrow s ?g). a < Kr)"
      using n(2) by (intro Suc.IH) auto
    have "int (limbs ?g) = int (limbs g) + (int Kr - 1) * int Kr ^ (length g - Suc s)"
      using limbs_update [OF n(2), of "Kr - 1"] True by (simp add: of_nat_diff Suc_leI)
    then have "int (limbs ?g) - int Kr ^ (length g - s) = int (limbs g) - int Kr ^ (length g - Suc s)"
      unfolding n(1) by (simp add: algebra_simps)
    then show ?thesis using IH True by auto
  qed
qed simp

lemma sub_loop_correct:
  assumes "c \<le> length S" "length S \<le> length g" "\<forall>a \<in> set g. a < Kr" "\<forall>a \<in> set S. a < Kr" "h \<le> length S" "take h S = replicate h 0"
    "limbs (take c S) * Kr ^ (length g - c) \<le> limbs g"
  shows "length (sub_loop h S c g) = length g \<and> (\<forall>a \<in> set (sub_loop h S c g). a < Kr)
    \<and> int (limbs (sub_loop h S c g)) = int (limbs g) - int (limbs (take c S) * Kr ^ (length g - c))"
  using assms
proof (induction c arbitrary: g)
  case (Suc c)
  have c: "c < length S" "c < length g" using Suc.prems(1,2) by auto
  have n: "length g - c = Suc (length g - Suc c)" using c by simp
  let ?W = "Kr ^ (length g - Suc c)"
  show ?case
  proof (cases "Suc c \<le> h")
    case True
    have "take (Suc c) S = take (Suc c) (take h S)" using True by (simp add: min_def)
    also have "\<dots> = replicate (Suc c) 0" unfolding Suc.prems(6) using True by (simp add: min_def del: replicate_Suc)
    finally show ?thesis using True Suc.prems by (simp del: replicate_Suc)
  next
    case False
    have t: "limbs (take (Suc c) S) = limbs (take c S) * Kr + S ! c"
      using c by (simp add: take_Suc_conv_app_nth limbs_snoc)
    have req: "limbs (take c S) * Kr ^ (length g - c) + S ! c * ?W \<le> limbs g"
      using Suc.prems(7) unfolding t n by (simp add: algebra_simps)
    have Sc: "S ! c < Kr" and gc: "g ! c < Kr" using Suc.prems(3,4) c by auto
    define g1 where "g1 = (if g ! c < S ! c then (let g' = borrow c g in g'[c := g' ! c + Kr]) else g)"
    define g2 where "g2 = g1[c := g1 ! c - S ! c]"
    have step: "length g2 = length g \<and> (\<forall>a \<in> set g2. a < Kr) \<and> int (limbs g2) = int (limbs g) - int (S ! c) * int ?W"
    proof (cases "g ! c < S ! c")
      case False
      have "\<forall>a \<in> set (g[c := g ! c - S ! c]). a < Kr"
        using Suc.prems(3) gc by (auto dest!: set_update_subset_insert [THEN subsetD])
      moreover have "int (limbs (g[c := g ! c - S ! c])) = int (limbs g) - int (S ! c) * int ?W"
        using limbs_update [OF c(2), of "g ! c - S ! c"] False by (simp add: of_nat_diff)
      ultimately show ?thesis using False by (simp add: g2_def g1_def)
    next
      case True
      have ex: "\<exists>j < c. g ! j \<noteq> 0"
      proof (rule ccontr)
        assume "\<not> ?thesis"
        then have "limbs g < Suc (g ! c) * ?W" using c Suc.prems(3) by (intro limbs_zeros_front) auto
        also have "\<dots> \<le> S ! c * ?W" using True by (intro mult_le_mono1) simp
        finally show False using req by linarith
      qed
      note B = borrow_correct [OF c(2) ex Suc.prems(3)]
      let ?b = "borrow c g"
      have bc: "?b ! c = g ! c" using B by simp
      have e: "g2 = ?b[c := g ! c + Kr - S ! c]" using True bc c B by (simp add: g2_def g1_def Let_def)
      have "g ! c + Kr - S ! c < Kr" using True Sc by (simp add: less_diff_conv2)
      then have "\<forall>a \<in> set g2. a < Kr" using B unfolding e by (auto dest!: set_update_subset_insert [THEN subsetD])
      moreover have "int (limbs g2) = int (limbs g) - int (S ! c) * int ?W"
      proof -
        have "c < length ?b" using B c by simp
        then have "int (limbs g2) = int (limbs ?b) + (int (g ! c + Kr - S ! c) - int (g ! c)) * int Kr ^ (length g - Suc c)"
          unfolding e using limbs_update [of c ?b "g ! c + Kr - S ! c"] B bc by simp
        also have "int (g ! c + Kr - S ! c) - int (g ! c) = int Kr - int (S ! c)" using Sc by (simp add: of_nat_diff)
        also have "int (limbs ?b) = int (limbs g) - int Kr * int Kr ^ (length g - Suc c)" using B n by simp
        finally show ?thesis by (simp add: algebra_simps)
      qed
      ultimately show ?thesis using B by (simp add: e)
    qed
    have req2: "limbs (take c S) * Kr ^ (length g2 - c) \<le> limbs g2"
    proof -
      have lg: "length g2 = length g" using step by simp
      have "int (limbs (take c S) * Kr ^ (length g - c)) + int (S ! c) * int ?W \<le> int (limbs g)"
        using req unfolding of_nat_mult [symmetric] of_nat_add [symmetric] of_nat_le_iff .
      then have "int (limbs (take c S) * Kr ^ (length g - c)) \<le> int (limbs g2)" using step by linarith
      then show ?thesis unfolding lg of_nat_le_iff .
    qed
    have IH: "length (sub_loop h S c g2) = length g2 \<and> (\<forall>a \<in> set (sub_loop h S c g2). a < Kr)
      \<and> int (limbs (sub_loop h S c g2)) = int (limbs g2) - int (limbs (take c S) * Kr ^ (length g2 - c))"
      using Suc.prems step c req2 by (intro Suc.IH) auto
    have "sub_loop h S (Suc c) g = sub_loop h S c g2" using False by (simp add: g2_def g1_def Let_def)
    moreover have "int (limbs (take (Suc c) S) * ?W) = int (limbs (take c S) * Kr ^ (length g - c)) + int (S ! c) * int ?W"
      unfolding t n by (simp add: algebra_simps)
    ultimately show ?thesis using IH step by simp
  qed
qed simp

lemma less_limbs_cmp: "less_limbs (length g < length s) g s \<longleftrightarrow> cmp_limbs False g s < 0"
proof (induction g arbitrary: s)
  case Nil
  show ?case by (cases s) (simp_all add: cmp_sign_def)
next
  case (Cons x g)
  then show ?case by (cases s) (auto simp: cmp_sign_def)
qed

lemma sub_limbs_correct:
  assumes "\<forall>a \<in> set g. a < Kr" "\<forall>a \<in> set u. a < Kr" "h \<le> length u" "take h u = replicate h 0" "magnitude u i \<le> magnitude g i"
  shows "magnitude (sub_limbs h g u) i = magnitude g i - magnitude u i \<and> (\<forall>a \<in> set (sub_limbs h g u). a < Kr)"
proof -
  let ?g = "g @ replicate (length u - length g) 0"
  have n: "length u \<le> length ?g" by simp
  have mg: "magnitude ?g i = magnitude g i" by simp
  have mu: "magnitude u i = of_nat (limbs u * Kr ^ (length ?g - length u)) * base_pow (i - int (length ?g) + 1)"
  proof -
    have "base_pow (i - int (length u) + 1) = of_nat (Kr ^ (length ?g - length u)) * base_pow (i - int (length ?g) + 1)"
      unfolding base_pow_nat [symmetric] base_pow_add [symmetric] using n by (simp add: of_nat_diff algebra_simps)
    then show ?thesis by (simp add: magnitude_def mult.assoc)
  qed
  have "(of_nat (limbs u * Kr ^ (length ?g - length u)) :: rat) \<le> of_nat (limbs ?g)"
    using assms(5) unfolding mg [symmetric] mu unfolding magnitude_def by (simp only: mult_le_cancel_right_pos base_pow_pos)
  then have le: "limbs u * Kr ^ (length ?g - length u) \<le> limbs ?g" by (simp only: of_nat_le_iff)
  have ok: "\<forall>a \<in> set ?g. a < Kr" using assms(1) by auto
  have s: "length (sub_limbs h g u) = length ?g \<and> (\<forall>a \<in> set (sub_limbs h g u). a < Kr)
      \<and> int (limbs (sub_limbs h g u)) = int (limbs ?g) - int (limbs u * Kr ^ (length ?g - length u))"
    using sub_loop_correct [OF le_refl n ok assms(2,3,4)] le unfolding sub_limbs_def take_all [OF le_refl] by blast
  then have "(of_nat (limbs (sub_limbs h g u)) :: rat) = of_nat (limbs ?g) - of_nat (limbs u * Kr ^ (length ?g - length u))"
    by (metis of_int_diff of_int_of_nat_eq)
  then have "magnitude (sub_limbs h g u) i = magnitude ?g i - magnitude u i"
    unfolding mu using s by (simp add: magnitude_def left_diff_distrib)
  then show ?thesis using s mg by simp
qed

lemma strip_zeros:
  assumes "\<forall>a \<in> set r. a < Kr"
  defines "d \<equiv> pop_zeros r"
  defines "n \<equiv> length (takeWhile (\<lambda>a. a = 0) d)"
  shows "if drop n d = [] then magnitude r i = 0
    else limbs_ok (drop n d) \<and> magnitude (drop n d) (i - int n) = magnitude r i"
proof -
  have "takeWhile (\<lambda>a. a = 0) d = replicate n 0"
    unfolding n_def by (rule replicate_length_same [symmetric]) (auto dest: set_takeWhileD)
  moreover have dw: "drop n d = dropWhile (\<lambda>a. a = 0) d" by (simp add: n_def dropWhile_eq_drop)
  ultimately have sp: "d = replicate n 0 @ drop n d" by (metis takeWhile_dropWhile_id)
  have m: "magnitude r i = magnitude (drop n d) (i - int n)"
  proof -
    have "magnitude r i = magnitude d i" by (simp add: d_def)
    also have "\<dots> = magnitude (drop n d) (i - int n)" by (subst sp) (rule magnitude_prepend_zeros)
    finally show ?thesis .
  qed
  have "limbs_ok (drop n d)" if "drop n d \<noteq> []"
  proof -
    have "hd (drop n d) \<noteq> 0" using that hd_dropWhile [of "\<lambda>a. a = 0" d] unfolding dw by simp
    moreover have "last (drop n d) \<noteq> 0"
    proof -
      have "rev (drop n d) \<noteq> []" using that by simp
      have "d \<noteq> []" using that by auto
      then have "dropWhile (\<lambda>a. a = 0) (rev r) \<noteq> []" by (simp add: d_def pop_zeros_def)
      then have "hd (dropWhile (\<lambda>a. a = 0) (rev r)) \<noteq> 0" by (rule hd_dropWhile)
      then have "last d \<noteq> 0" using \<open>d \<noteq> []\<close> by (simp add: d_def pop_zeros_def last_rev)
      then show ?thesis using that by (simp add: last_drop)
    qed
    moreover have "set (drop n d) \<subseteq> set r"
      unfolding d_def pop_zeros_def by (auto dest!: in_set_dropD set_dropWhileD)
    ultimately show ?thesis using that assms(1) by (auto simp: limbs_ok_def)
  qed
  then show ?thesis using m by (auto simp: magnitude_def)
qed

lemma sub_signed_exact:
  assumes "dec_ok e" "dec_ok t" "d_s e = d_s t \<or> d_s e = 0 \<or> d_s t = 0" "d_s e = 0 \<or> d_s t = 0 \<or> near 2 S e t" "1 \<le> st_precision S"
  shows "\<exists>z. sub_signed ext S e t = finish ext S z \<and> dec_ok z \<and> dval z = dval e - dval t"
proof (cases "d_s e = 0 \<or> d_s t = 0")
  case True
  show ?thesis
  proof (cases "d_s t = 0")
    case True
    then show ?thesis using assms(1) by (intro exI [of _ e]) (simp add: sub_signed_def dval_def)
  next
    case False
    moreover have "dec_ok (t\<lparr>d_s := - d_s t\<rparr>)" using assms(2) False by (auto simp: dec_ok_def zero_decimal_def)
    ultimately show ?thesis using True by (intro exI [of _ "t\<lparr>d_s := - d_s t\<rparr>"]) (simp add: sub_signed_def dval_def)
  qed
next
  case False
  note ok = dec_ok_limbs [OF assms(1)] dec_ok_limbs [OF assms(2)]
  have se: "d_s e = d_s t" using assms(3) False by auto
  let ?i = "max (d_e e) (d_e t)" and ?k = "d_e e - d_e t"
  define split where "split =
    (if ?k = 0 then (d_d e, d_d t, d_e t, 0, less_limbs (length (d_d e) < length (d_d t)) (d_d e) (d_d t))
     else if ?k < 0 then (let m = max (prec_limbs S) (length (d_d t)) + 2
       in (align m (nat (- ?k)) (d_d e), d_d t, d_e t, min (nat (- ?k)) m, True))
     else (let m = max (prec_limbs S) (length (d_d e)) + 2
       in (d_d e, align m (nat ?k) (d_d t), d_e e, min (nat ?k) m, False)))"
  have "\<exists>g u h less. split = (g, u, ?i, h, less) \<and> (\<forall>a \<in> set g. a < Kr) \<and> (\<forall>a \<in> set u. a < Kr)
    \<and> magnitude g ?i = magnitude (d_d e) (d_e e) \<and> magnitude u ?i = magnitude (d_d t) (d_e t)
    \<and> (if less then h \<le> length g \<and> take h g = replicate h 0 \<and> magnitude g ?i \<le> magnitude u ?i
       else h \<le> length u \<and> take h u = replicate h 0 \<and> magnitude u ?i \<le> magnitude g ?i)"
  proof -
    consider "d_e e = d_e t" | "d_e e < d_e t" | "d_e t < d_e e" by linarith
    then show ?thesis
    proof cases
      case 1
      have "of_int (cmp_limbs False (d_d e) (d_d t)) = sgn (magnitude (d_d e) (d_e t) - magnitude (d_d t) (d_e t))"
        using compare_magnitudes [of "d_d e" "d_d t" "d_e t" "d_e t" False] ok False by simp
      then have "cmp_limbs False (d_d e) (d_d t) < 0 \<longleftrightarrow> magnitude (d_d e) (d_e t) < magnitude (d_d t) (d_e t)"
        by (metis diff_less_0_iff_less of_int_less_0_iff sgn_less)
      then have "less_limbs (length (d_d e) < length (d_d t)) (d_d e) (d_d t) \<longleftrightarrow> magnitude (d_d e) (d_e t) < magnitude (d_d t) (d_e t)"
        by (simp add: less_limbs_cmp)
      then show ?thesis using 1 ok False by (auto simp: split_def limbs_ok_def)
    next
      case 2
      let ?n = "nat (d_e t - d_e e)" and ?m = "max (prec_limbs S) (length (d_d t)) + 2"
      have n: "?n \<le> ?m" using assms(4) False by (auto simp: near_def)
      have "magnitude (d_d e) (d_e e) < base_pow (d_e e + 1)" using ok False by (intro magnitude_less) (auto simp: limbs_ok_def)
      also have "\<dots> \<le> base_pow (d_e t)" using 2 by (intro base_pow_le) simp
      also have "\<dots> \<le> magnitude (d_d t) (d_e t)" using ok False by (intro magnitude_ge) (auto simp: limbs_ok_def)
      finally have "magnitude (d_d e) (d_e e) \<le> magnitude (d_d t) (d_e t)" by simp
      moreover have "split = (align ?m ?n (d_d e), d_d t, ?i, ?n, True)"
        using 2 n by (simp add: split_def Let_def min_absorb1)
      moreover have "?i = d_e t" using 2 by simp
      moreover have "magnitude (align ?m ?n (d_d e)) (d_e t) = magnitude (d_d e) (d_e e)"
        using magnitude_align [OF n, of "d_d e" "d_e t"] 2 by simp
      moreover have "?n \<le> length (align ?m ?n (d_d e)) \<and> take ?n (align ?m ?n (d_d e)) = replicate ?n 0"
        unfolding align_near [OF n] by simp
      moreover have "\<forall>a \<in> set (align ?m ?n (d_d e)). a < Kr" using ok False by (intro align_less) auto
      moreover have "\<forall>a \<in> set (d_d t). a < Kr" using ok False by (auto simp: limbs_ok_def)
      ultimately show ?thesis
        by (intro exI [of _ "align ?m ?n (d_d e)"] exI [of _ "d_d t"] exI [of _ ?n] exI [of _ True]) simp
    next
      case 3
      let ?n = "nat (d_e e - d_e t)" and ?m = "max (prec_limbs S) (length (d_d e)) + 2"
      have n: "?n \<le> ?m" using assms(4) False by (auto simp: near_def)
      have "magnitude (d_d t) (d_e t) < base_pow (d_e t + 1)" using ok False by (intro magnitude_less) (auto simp: limbs_ok_def)
      also have "\<dots> \<le> base_pow (d_e e)" using 3 by (intro base_pow_le) simp
      also have "\<dots> \<le> magnitude (d_d e) (d_e e)" using ok False by (intro magnitude_ge) (auto simp: limbs_ok_def)
      finally have "magnitude (d_d t) (d_e t) \<le> magnitude (d_d e) (d_e e)" by simp
      moreover have "split = (d_d e, align ?m ?n (d_d t), ?i, ?n, False)"
        using 3 n by (simp add: split_def Let_def min_absorb1)
      moreover have "?i = d_e e" using 3 by simp
      moreover have "magnitude (align ?m ?n (d_d t)) (d_e e) = magnitude (d_d t) (d_e t)"
        using magnitude_align [OF n, of "d_d t" "d_e e"] 3 by simp
      moreover have "?n \<le> length (align ?m ?n (d_d t)) \<and> take ?n (align ?m ?n (d_d t)) = replicate ?n 0"
        unfolding align_near [OF n] by simp
      moreover have "\<forall>a \<in> set (align ?m ?n (d_d t)). a < Kr" using ok False by (intro align_less) auto
      moreover have "\<forall>a \<in> set (d_d e). a < Kr" using ok False by (auto simp: limbs_ok_def)
      ultimately show ?thesis
        by (intro exI [of _ "d_d e"] exI [of _ "align ?m ?n (d_d t)"] exI [of _ ?n] exI [of _ False]) simp
    qed
  qed
  then obtain g u h less where sp: "split = (g, u, ?i, h, less)"
    and lt: "\<forall>a \<in> set g. a < Kr" "\<forall>a \<in> set u. a < Kr"
    and v: "magnitude g ?i = magnitude (d_d e) (d_e e)" "magnitude u ?i = magnitude (d_d t) (d_e t)"
    and le: "if less then h \<le> length g \<and> take h g = replicate h 0 \<and> magnitude g ?i \<le> magnitude u ?i
       else h \<le> length u \<and> take h u = replicate h 0 \<and> magnitude u ?i \<le> magnitude g ?i" by blast
  obtain g' u' sg where gu: "(if less then (u, g, - d_s t) else (g, u, d_s t)) = (g', u', sg)" by (metis prod_cases3)
  let ?r = "sub_limbs h g' u'"
  let ?d = "pop_zeros ?r"
  let ?n = "length (takeWhile (\<lambda>a. a = 0) ?d)"
  have r: "magnitude ?r ?i = magnitude g' ?i - magnitude u' ?i \<and> (\<forall>a \<in> set ?r. a < Kr)"
    using le lt gu by (intro sub_limbs_correct) (auto split: if_splits)
  have val: "of_int sg * magnitude ?r ?i = dval e - dval t"
    unfolding conjunct1 [OF r] using gu v se by (cases less) (auto simp: dval_def right_diff_distrib)
  note st = strip_zeros [of ?r ?i]
  have code: "sub_signed ext S e t = (if drop ?n ?d = [] then Inr zero_decimal
      else finish ext S \<lparr>d_s = sg, d_e = ?i - int ?n, d_d = drop ?n ?d\<rparr>)"
    using False unfolding sub_signed_def Let_def split_def [unfolded Let_def, symmetric] sp prod.case gu by simp
  show ?thesis
  proof (cases "drop ?n ?d = []")
    case True
    then have "dval e - dval t = 0" using st r val by simp
    then show ?thesis using code True assms(5) by (intro exI [of _ zero_decimal]) (simp add: finish_zero dec_ok_def)
  next
    case nz: False
    have "sg = 1 \<or> sg = -1" using gu ok False by (auto split: if_splits)
    then show ?thesis using code nz st r val
      by (intro exI [of _ "\<lparr>d_s = sg, d_e = ?i - int ?n, d_d = drop ?n ?d\<rparr>"]) (auto simp: dec_ok_def dval_def)
  qed
qed

lemma dec_neg_ok [simp]: "dec_ok (dec_neg x) = dec_ok x" "dval (dec_neg x) = - dval x" "near k S x (dec_neg y) = near k S x y"
proof -
  have "(dec_neg x = zero_decimal) = (x = zero_decimal)" by (cases x) (simp add: dec_neg_def zero_decimal_def)
  moreover have "(- d_s x = 1 \<or> - d_s x = -1) = (d_s x = 1 \<or> d_s x = -1)" by auto
  ultimately show "dec_ok (dec_neg x) = dec_ok x" by (auto simp: dec_ok_def dec_neg_def)
qed (simp_all add: dec_neg_def dval_def near_def)

section \<open>Numbers that are far apart\<close>

text \<open>When one number lies far below the other, only its first limb is added or subtracted. The sum with all
  limbs and the sum with the first limb lie between the same two multiples of a unit that is too small for the
  precision to show.\<close>

lemma to_precision_window:
  fixes q q' :: rat
  assumes "of_nat a * ten k \<le> q" "q < of_nat a * ten k + ten k" "of_nat a * ten k \<le> q'" "q' < of_nat a * ten k + ten k"
    "1 \<le> st_precision S" "ten (k + int (st_precision S) - 1) \<le> q'" "to_precision S q' r"
  shows "to_precision S q r"
proof -
  let ?p = "int (st_precision S)"
  have q': "0 < q'" using assms(6) ten_pos(1) less_le_trans by blast
  then obtain E where E: "ten E \<le> q'" "q' < ten (E + 1)" "r = truncated (ten (E - ?p + 1)) q'"
    using assms(7) by (auto simp: to_precision_def)
  have "k + ?p - 1 < E + 1"
  proof (rule ccontr)
    assume "\<not> ?thesis"
    then have "ten (E + 1) \<le> ten (k + ?p - 1)" unfolding ten_def by (intro power_int_increasing) simp_all
    then show False using E(2) assms(6) by simp
  qed
  then have ge: "0 \<le> E - ?p + 1 - k" "0 \<le> E - k" using assms(5) by simp_all
  obtain i where i: "E - ?p + 1 - k = int i" using ge(1) by (rule nonneg_int_cases)
  obtain j where j: "E - k = int j" using ge(2) by (rule nonneg_int_cases)
  have te: "ten (E - ?p + 1) = of_nat (10 ^ i) * ten k" "ten E = of_nat (10 ^ j) * ten k" "ten (E + 1) = of_nat (10 ^ Suc j) * ten k"
    unfolding ten_nat [symmetric] ten_add [symmetric] i [symmetric] by (simp_all add: j [symmetric] add.commute)
  have cancel: "of_nat m * ten k < of_nat n * ten k \<longleftrightarrow> m < n" for m n :: nat by simp
  have "of_nat (10 ^ j) * ten k < of_nat (Suc a) * ten k" using E(1) assms(4) unfolding te by (simp add: ring_distribs)
  then have "10 ^ j \<le> a" unfolding cancel by simp
  then have "of_nat (10 ^ j) * ten k \<le> of_nat a * ten k" by (intro mult_right_mono) (simp_all only: of_nat_le_iff less_imp_le ten_pos)
  then have l: "ten E \<le> q" using assms(1) unfolding te by linarith
  have "of_nat a * ten k < of_nat (10 ^ Suc j) * ten k" using E(2) assms(3) unfolding te by linarith
  then have "Suc a \<le> 10 ^ Suc j" unfolding cancel by simp
  then have "of_nat (Suc a) * ten k \<le> of_nat (10 ^ Suc j) * ten k" by (intro mult_right_mono) (simp_all only: of_nat_le_iff less_imp_le ten_pos)
  then have u: "q < ten (E + 1)" using assms(2) unfolding te by (simp add: ring_distribs)
  have q: "0 < q" using l ten_pos(1) less_le_trans by blast
  have "\<lfloor>q / ten (E - ?p + 1)\<rfloor> = \<lfloor>q' / ten (E - ?p + 1)\<rfloor>"
    using floor_coarse [OF ten_pos(1) assms(1,2), of "10 ^ i"] floor_coarse [OF ten_pos(1) assms(3,4), of "10 ^ i"] unfolding te(1) by simp
  then show ?thesis using E(3) l u q q' by (auto simp: to_precision_def truncated_def)
qed

lemma far_apart:
  assumes "lead_ok d" "lead_ok d'" "e' < e - int M" "M = max (prec_limbs S) (length d) + j" "1 \<le> j" "1 \<le> st_precision S"
  defines "x \<equiv> magnitude d e" and "y \<equiv> magnitude d' e'" and "z \<equiv> magnitude [hd d'] (e - int M)"
  shows "to_precision S (x + z) r \<Longrightarrow> to_precision S (x + y) r"
    and "2 \<le> j \<Longrightarrow> to_precision S (x - z) r \<Longrightarrow> to_precision S (x - y) r"
proof -
  define W where "W = base_pow (e - int M + 1)"
  have d: "\<forall>a \<in> set d. a < Kr" "d \<noteq> []" "hd d \<noteq> 0" "\<forall>a \<in> set d'. a < Kr" "d' \<noteq> []" "hd d' \<noteq> 0"
    using assms(1,2) by (auto simp: lead_ok_def)
  have len: "length d \<le> M" "1 \<le> length d" using assms(4) d(2) by (auto simp: Suc_leI)
  define a where "a = limbs d * Kr ^ (M - length d)"
  have x: "x = of_nat a * W"
  proof -
    have "base_pow (e - int (length d) + 1) = of_nat (Kr ^ (M - length d)) * W"
      unfolding base_pow_nat [symmetric] W_def base_pow_add [symmetric] using len by (simp add: of_nat_diff algebra_simps)
    then show ?thesis by (simp add: x_def a_def magnitude_def)
  qed
  have "0 < limbs d" using limbs_ge [of "hd d" "tl d"] d by (cases d) (auto simp: Kr_def)
  then have a: "1 \<le> a" by (simp add: a_def Suc_leI)
  have "y < base_pow (e' + 1)" unfolding y_def using d by (intro magnitude_less)
  also have "\<dots> \<le> W" unfolding W_def using assms(3) by (intro base_pow_le) simp
  finally have y: "y < W" .
  have z: "z < W" unfolding z_def W_def using d by (intro magnitude_less) auto
  have "base_pow e' \<le> y" "base_pow (e - int M) \<le> z" unfolding y_def z_def using d by (auto intro!: magnitude_ge)
  then have pos: "0 < y" "0 < z" using base_pow_pos less_le_trans by blast+
  have W: "W = ten (7 * (e - int M + 1))" "0 < W" by (simp_all add: W_def base_pow_ten)
  have big: "ten (7 * e) \<le> x" using magnitude_ge [of d e] d by (simp add: x_def base_pow_ten)
  have p: "int (st_precision S) \<le> 7 * (int M - int j)"
  proof -
    have "st_precision S \<le> 7 * prec_limbs S" by (simp add: prec_limbs_def qn_def)
    also have "\<dots> \<le> 7 * (M - j)" using assms(4) by simp
    finally have "int (st_precision S) \<le> int (7 * (M - j))" by (simp only: of_nat_le_iff)
    moreover have "j \<le> M" using assms(4) by simp
    ultimately show ?thesis by (simp add: of_nat_diff)
  qed
  have mono: "ten i \<le> ten l" if "i \<le> l" for i l unfolding ten_def using that by (intro power_int_increasing) simp_all
  show "to_precision S (x + y) r" if r: "to_precision S (x + z) r"
  proof (rule to_precision_window [OF _ _ _ _ assms(6) _ r, of a "7 * (e - int M + 1)", folded W(1)])
    have "ten (7 * (e - int M + 1) + int (st_precision S) - 1) \<le> ten (7 * e)" using p assms(5) by (intro mono) simp
    then show "ten (7 * (e - int M + 1) + int (st_precision S) - 1) \<le> x + z" using big pos by linarith
  qed (use x y z pos in simp_all)
  show "to_precision S (x - y) r" if r: "to_precision S (x - z) r" and "2 \<le> j"
  proof (rule to_precision_window [OF _ _ _ _ assms(6) _ r, of "a - 1" "7 * (e - int M + 1)", folded W(1)])
    have "W \<le> ten (7 * e - 1)" unfolding W using len assms(4) \<open>2 \<le> j\<close> by (intro mono) simp
    moreover have "ten (7 * e) = 10 * ten (7 * e - 1)" using ten_add [of 1 "7 * e - 1"] by (simp add: ten_def)
    moreover have "ten (7 * (e - int M + 1) + int (st_precision S) - 1) \<le> ten (7 * e - 1)" using p \<open>2 \<le> j\<close> by (intro mono) simp
    moreover have "0 < ten (7 * e - 1)" by simp
    ultimately show "ten (7 * (e - int M + 1) + int (st_precision S) - 1) \<le> x - z" using big z by linarith
  qed (use x y z pos a in \<open>simp_all add: of_nat_diff ring_distribs\<close>)
qed

lemma to_precision_sign:
  assumes "s = 1 \<or> s = -1" "\<And>r. to_precision S q' r \<Longrightarrow> to_precision S q r" "to_precision S (of_int s * q') r"
  shows "to_precision S (of_int s * q) r"
proof (cases "s = 1")
  case True
  then show ?thesis using assms(2,3) by simp
next
  case False
  then have "to_precision S (- q') r" "of_int s * q = - q" using assms(1,3) by auto
  then have "to_precision S q' (- r)" using to_precision_minus [of S q' "- r"] by simp
  then have "to_precision S q (- r)" by (rule assms(2))
  then show ?thesis using to_precision_minus [of S q "- r"] \<open>of_int s * q = - q\<close> by simp
qed

lemma result_ok_mono:
  "result_ok True S q' res \<Longrightarrow> (\<And>r. to_precision S q' r \<Longrightarrow> to_precision S q r) \<Longrightarrow> result_ok True S q res"
  by (auto simp: result_ok_def split: sum.splits)

text \<open>The number of which only the first limb is used.\<close>

definition first_limb :: "decimal \<Rightarrow> int \<Rightarrow> decimal" where
  "first_limb t e = t\<lparr>d_e := e, d_d := [hd (d_d t)]\<rparr>"

lemma first_limb_simps [simp]: "d_s (first_limb t e) = d_s t" "d_e (first_limb t e) = e" "d_d (first_limb t e) = [hd (d_d t)]"
  by (simp_all add: first_limb_def)

lemma first_limb_ok: "dec_ok t \<Longrightarrow> d_s t \<noteq> 0 \<Longrightarrow> dec_ok (first_limb t e)"
  using dec_ok_limbs [of t] by (auto simp: dec_ok_def limbs_ok_def)

lemma add_far:
  assumes "int M < d_e e - d_e t" "M = max (prec_limbs S) (length (d_d e)) + 1"
  shows "add_signed ext S e t = add_signed ext S e (first_limb t (d_e e - int M)) \<or> d_s e = 0 \<or> d_s t = 0"
    "add_signed ext S t e = add_signed ext S (first_limb t (d_e e - int M)) e \<or> d_s e = 0 \<or> d_s t = 0"
proof -
  have n: "M < nat (d_e e - d_e t)" "0 < M" using assms by auto
  have "align M (nat (d_e e - d_e t)) (d_d t) = align M M [hd (d_d t)]" using n by (simp add: align_def)
  then show "add_signed ext S e t = add_signed ext S e (first_limb t (d_e e - int M)) \<or> d_s e = 0 \<or> d_s t = 0"
    "add_signed ext S t e = add_signed ext S (first_limb t (d_e e - int M)) e \<or> d_s e = 0 \<or> d_s t = 0"
    using assms(1) n(2) unfolding add_signed_def Let_def first_limb_simps assms(2) [symmetric] by simp_all
qed

lemma sub_far:
  assumes "int M < d_e e - d_e t" "M = max (prec_limbs S) (length (d_d e)) + 2"
  shows "sub_signed ext S e t = sub_signed ext S e (first_limb t (d_e e - int M)) \<or> d_s e = 0 \<or> d_s t = 0"
    "sub_signed ext S t e = sub_signed ext S (first_limb t (d_e e - int M)) e \<or> d_s e = 0 \<or> d_s t = 0"
proof -
  have n: "M < nat (d_e e - d_e t)" "0 < M" using assms by auto
  have "align M (nat (d_e e - d_e t)) (d_d t) = align M M [hd (d_d t)]" "min (nat (d_e e - d_e t)) M = M" using n by (simp_all add: align_def)
  then show "sub_signed ext S e t = sub_signed ext S e (first_limb t (d_e e - int M)) \<or> d_s e = 0 \<or> d_s t = 0"
    "sub_signed ext S t e = sub_signed ext S (first_limb t (d_e e - int M)) e \<or> d_s e = 0 \<or> d_s t = 0"
    using assms(1) n(2) unfolding sub_signed_def Let_def first_limb_simps assms(2) [symmetric] by simp_all
qed

lemma near_first_limb:
  "M = max (prec_limbs S) (length (d_d e)) + k \<Longrightarrow> near k S e (first_limb t (d_e e - int M)) \<and> near k S (first_limb t (d_e e - int M)) e"
  by (simp add: near_def)

text \<open>The sum and the difference of two numbers with the same sign, when the second lies far below the first.\<close>

lemma far_values:
  assumes "dec_ok e" "dec_ok t" "d_s e = d_s t" "d_s t \<noteq> 0" "int M < d_e e - d_e t" "M = max (prec_limbs S) (length (d_d e)) + j" "1 \<le> j"
    "1 \<le> st_precision S"
  defines "t' \<equiv> first_limb t (d_e e - int M)"
  shows "to_precision S (dval e + dval t') r \<Longrightarrow> to_precision S (dval e + dval t) r"
    "2 \<le> j \<Longrightarrow> to_precision S (dval e - dval t') r \<Longrightarrow> to_precision S (dval e - dval t) r"
    "2 \<le> j \<Longrightarrow> to_precision S (dval t' - dval e) r \<Longrightarrow> to_precision S (dval t - dval e) r"
proof -
  have ok: "lead_ok (d_d e)" "lead_ok (d_d t)" "d_s t = 1 \<or> d_s t = -1" "- d_s t = 1 \<or> - d_s t = -1"
    using dec_ok_limbs [OF assms(1)] dec_ok_limbs [OF assms(2)] assms(3,4) by (auto simp: limbs_ok_lead)
  have far: "d_e t < d_e e - int M" using assms(5) by simp
  note f = far_apart [OF ok(1,2) far assms(6,7,8)]
  have v: "dval e = of_int (d_s t) * magnitude (d_d e) (d_e e)" "dval t = of_int (d_s t) * magnitude (d_d t) (d_e t)"
    "dval t' = of_int (d_s t) * magnitude [hd (d_d t)] (d_e e - int M)" by (simp_all add: dval_def assms(3) t'_def)
  show "to_precision S (dval e + dval t') r \<Longrightarrow> to_precision S (dval e + dval t) r"
    unfolding v distrib_left [symmetric] using ok(3) f(1) by (rule to_precision_sign)
  show "2 \<le> j \<Longrightarrow> to_precision S (dval e - dval t') r \<Longrightarrow> to_precision S (dval e - dval t) r"
    unfolding v right_diff_distrib [symmetric] using ok(3) f(2) by (rule to_precision_sign)
  have n: "of_int (d_s t) * a - of_int (d_s t) * b = of_int (- d_s t) * (b - a)" for a b :: rat by (simp add: algebra_simps)
  show "2 \<le> j \<Longrightarrow> to_precision S (dval t' - dval e) r \<Longrightarrow> to_precision S (dval t - dval e) r"
    unfolding v n using ok(4) f(2) by (rule to_precision_sign)
qed

lemma add_signed_correct:
  assumes "dec_ok e" "dec_ok t" "d_s e = d_s t" "1 \<le> st_precision S" "ext \<or> near 1 S e t"
  shows "result_ok ext S (dval e + dval t) (add_signed ext S e t)"
proof -
  have exact: "result_ok ext S (dval e + dval t) (add_signed ext S e t)"
    if "dec_ok e" "dec_ok t" "d_s e = d_s t" "near 1 S e t" for e t
    using add_signed_exact [OF that, of ext] finish_correct [OF _ assms(4), of _ ext] by force
  show ?thesis
  proof (cases "near 1 S e t")
    case False
    then have ext: "ext" using assms(5) by simp
    have nz: "d_s t \<noteq> 0"
    proof
      assume "d_s t = 0"
      then have "e = t" using assms(1-3) by (auto simp: dec_ok_def)
      then show False using False by (simp add: near_def)
    qed
    then have ne: "d_s e \<noteq> 0" using assms(3) by simp
    consider "int (max (prec_limbs S) (length (d_d e)) + 1) < d_e e - d_e t"
      | "int (max (prec_limbs S) (length (d_d t)) + 1) < d_e t - d_e e" using False unfolding near_def by linarith
    then show ?thesis
    proof cases
      case 1
      define M where "M = max (prec_limbs S) (length (d_d e)) + 1"
      define u where "u = first_limb t (d_e e - int M)"
      have far: "int M < d_e e - d_e t" using 1 by (simp add: M_def)
      have u: "dec_ok u" "d_s u = d_s t" "near 1 S e u" "near 1 S u e"
        using near_first_limb [OF M_def, of t] first_limb_ok assms(1,2) nz assms(3) by (simp_all add: u_def)
      have "result_ok ext S (dval e + dval u) (add_signed ext S e u)" using u assms(1,2) nz assms(3) by (intro exact) simp_all
      moreover have "add_signed ext S e t = add_signed ext S e u" using add_far(1) [OF far M_def, of ext] nz assms(3) by (simp add: u_def)
      ultimately have "result_ok True S (dval e + dval u) (add_signed ext S e t)" using ext by simp
      then have "result_ok True S (dval e + dval t) (add_signed ext S e t)"
        by (rule result_ok_mono) (rule far_values(1) [OF assms(1-3) nz far M_def le_refl assms(4)], simp only: u_def)
      then show ?thesis using ext by simp
    next
      case 2
      define M where "M = max (prec_limbs S) (length (d_d t)) + 1"
      define u where "u = first_limb e (d_e t - int M)"
      have far: "int M < d_e t - d_e e" using 2 by (simp add: M_def)
      have u: "dec_ok u" "d_s u = d_s e" "near 1 S t u" "near 1 S u t"
        using near_first_limb [OF M_def, of e] first_limb_ok assms(1,2) nz assms(3) by (simp_all add: u_def)
      have "result_ok ext S (dval u + dval t) (add_signed ext S u t)" using u assms(1,2) nz assms(3) by (intro exact) simp_all
      moreover have "add_signed ext S e t = add_signed ext S u t" using add_far(2) [OF far M_def, of ext] nz assms(3) by (simp add: u_def)
      ultimately have "result_ok True S (dval u + dval t) (add_signed ext S e t)" using ext by simp
      then have "result_ok True S (dval t + dval u) (add_signed ext S e t)" by (simp only: add.commute)
      then have "result_ok True S (dval t + dval e) (add_signed ext S e t)"
        by (rule result_ok_mono) (rule far_values(1) [OF assms(2,1) assms(3) [symmetric] ne far M_def le_refl assms(4)], simp only: u_def)
      then show ?thesis using ext by (simp add: add.commute)
    qed
  qed (use exact assms in blast)
qed

lemma sub_signed_correct:
  assumes "dec_ok e" "dec_ok t" "d_s e = d_s t \<or> d_s e = 0 \<or> d_s t = 0" "1 \<le> st_precision S" "ext \<or> near 2 S e t"
  shows "result_ok ext S (dval e - dval t) (sub_signed ext S e t)"
proof -
  have exact: "result_ok ext S (dval e - dval t) (sub_signed ext S e t)"
    if "dec_ok e" "dec_ok t" "d_s e = d_s t \<or> d_s e = 0 \<or> d_s t = 0" "d_s e = 0 \<or> d_s t = 0 \<or> near 2 S e t" for e t
    using sub_signed_exact [OF that assms(4), of ext] finish_correct [OF _ assms(4), of _ ext] by force
  show ?thesis
  proof (cases "d_s e = 0 \<or> d_s t = 0 \<or> near 2 S e t")
    case False
    then have nz: "d_s e = d_s t" "d_s t \<noteq> 0" "d_s e \<noteq> 0" and ext: "ext" using assms(3,5) by auto
    consider "int (max (prec_limbs S) (length (d_d e)) + 2) < d_e e - d_e t"
      | "int (max (prec_limbs S) (length (d_d t)) + 2) < d_e t - d_e e" using False unfolding near_def by linarith
    then show ?thesis
    proof cases
      case 1
      define M where "M = max (prec_limbs S) (length (d_d e)) + 2"
      define u where "u = first_limb t (d_e e - int M)"
      have far: "int M < d_e e - d_e t" using 1 by (simp add: M_def)
      have u: "dec_ok u" "d_s u = d_s t" "near 2 S e u" "near 2 S u e"
        using near_first_limb [OF M_def, of t] first_limb_ok assms(1,2) nz by (simp_all add: u_def)
      have "result_ok ext S (dval e - dval u) (sub_signed ext S e u)" using u assms(1,2) nz by (intro exact) simp_all
      moreover have "sub_signed ext S e t = sub_signed ext S e u" using sub_far(1) [OF far M_def, of ext] nz by (simp add: u_def)
      ultimately have "result_ok True S (dval e - dval u) (sub_signed ext S e t)" using ext by simp
      then have "result_ok True S (dval e - dval t) (sub_signed ext S e t)"
        by (rule result_ok_mono) (rule far_values(2) [OF assms(1,2) nz(1,2) far M_def one_le_numeral assms(4) le_refl], simp only: u_def)
      then show ?thesis using ext by simp
    next
      case 2
      define M where "M = max (prec_limbs S) (length (d_d t)) + 2"
      define u where "u = first_limb e (d_e t - int M)"
      have far: "int M < d_e t - d_e e" using 2 by (simp add: M_def)
      have u: "dec_ok u" "d_s u = d_s e" "near 2 S t u" "near 2 S u t"
        using near_first_limb [OF M_def, of e] first_limb_ok assms(1,2) nz by (simp_all add: u_def)
      have "result_ok ext S (dval u - dval t) (sub_signed ext S u t)" using u assms(1,2) nz by (intro exact) simp_all
      moreover have "sub_signed ext S e t = sub_signed ext S u t" using sub_far(2) [OF far M_def, of ext] nz by (simp add: u_def)
      ultimately have "result_ok True S (dval u - dval t) (sub_signed ext S e t)" using ext by simp
      then have "result_ok True S (dval e - dval t) (sub_signed ext S e t)"
        by (rule result_ok_mono) (rule far_values(3) [OF assms(2,1) nz(1) [symmetric] nz(3) far M_def one_le_numeral assms(4) le_refl], simp only: u_def)
      then show ?thesis using ext by simp
    qed
  qed (use exact assms in blast)
qed

section \<open>The operations\<close>

lemma near_mono: "near 1 S x y \<Longrightarrow> near 2 S x y"
  by (auto simp: near_def)

lemma dec_minus_correct:
  assumes "dec_ok x" "dec_ok y" "1 \<le> st_precision S" "ext \<or> near 1 S x y"
  shows "result_ok ext S (dval x - dval y) (dec_minus ext S x y)"
proof (cases "d_s x = d_s y")
  case True
  then show ?thesis using sub_signed_correct [OF assms(1,2) _ assms(3)] assms(4) near_mono by (auto simp: dec_minus_def)
next
  case ne: False
  have s: "d_s x \<in> {-1, 0, 1}" "d_s y \<in> {-1, 0, 1}" using assms(1,2) by (auto simp: dec_ok_def zero_decimal_def)
  show ?thesis
  proof (cases "d_s x = d_s (dec_neg y)")
    case True
    then show ?thesis using ne add_signed_correct [OF assms(1) _ True assms(3)] assms by (simp add: dec_minus_def)
  next
    case False
    then have z: "d_s x = 0 \<or> d_s (dec_neg y) = 0" using ne s by (auto simp: dec_neg_def)
    let ?z = "if d_s (dec_neg y) \<noteq> 0 then dec_neg y else x"
    have "dec_minus ext S x y = finish ext S ?z" using ne z by (simp add: dec_minus_def add_signed_def)
    moreover have "dec_ok ?z" using assms(1,2) by simp
    moreover have "dval ?z = dval x - dval y" using z by (auto simp: dval_def dec_neg_def)
    ultimately show ?thesis using finish_correct [of ?z S ext] assms(3) by simp
  qed
qed

text \<open>C13: Addition and subtraction are exact up to the final truncation, whatever the signs. The results of \<open>plus\<close> and
  \<open>minus\<close> are the sum and the difference of the values truncated to the precision when rounding is on, even
  when the numbers are so far apart that only the first limb of the smaller one is used; with rounding off they are exact
  for numbers near enough that alignment keeps their limbs.\<close>

theorem dec_plus_minus_exact:
  assumes "dec_ok x" and "dec_ok y" and "1 \<le> st_precision S" and "ext \<or> near 1 S x y"
  shows "result_ok ext S (dval x + dval y) (dec_plus ext S x y) \<and> result_ok ext S (dval x - dval y) (dec_minus ext S x y)"
proof -
  have "result_ok ext S (dval x + dval y) (dec_plus ext S x y)"
  proof (cases "d_s x = d_s y")
    case True
    then show ?thesis using add_signed_correct [OF assms(1,2) True assms(3,4)] by (simp add: dec_plus_def)
  next
    case False
    have "d_s x \<in> {-1, 0, 1}" "d_s y \<in> {-1, 0, 1}" using assms(1,2) by (auto simp: dec_ok_def zero_decimal_def)
    then have "d_s x = d_s (dec_neg y) \<or> d_s x = 0 \<or> d_s (dec_neg y) = 0" using False by (auto simp: dec_neg_def)
    then show ?thesis
      using False sub_signed_correct [OF assms(1) _ _ assms(3), of "dec_neg y" ext] assms(2,4) near_mono by (auto simp: dec_plus_def)
  qed
  then show ?thesis using dec_minus_correct [OF assms] by simp
qed

theorem dec_plus_minus_exact_witness:
  "(\<exists>z. dec_plus False PQ \<lparr>d_s = 1, d_e = 0, d_d = [1]\<rparr> \<lparr>d_s = -1, d_e = -1, d_d = [1000000]\<rparr> = Inr z \<and> dval z = 9 / 10)
   \<and> (\<exists>z. dec_minus False PQ \<lparr>d_s = 1, d_e = 0, d_d = [1]\<rparr> \<lparr>d_s = -1, d_e = -1, d_d = [1000000]\<rparr> = Inr z \<and> dval z = 11 / 10)"
proof -
  let ?x = "\<lparr>d_s = 1, d_e = 0, d_d = [1]\<rparr>" and ?y = "\<lparr>d_s = -1, d_e = -1, d_d = [1000000]\<rparr>"
  have "dec_ok ?x" "dec_ok ?y" "1 \<le> st_precision PQ" "False \<or> near 1 PQ ?x ?y"
    by (simp_all add: dec_ok_def limbs_ok_def Kr_def near_def PQ_def)
  note r = dec_plus_minus_exact [OF this]
  have "dval ?x = 1" "dval ?y = - 1 / 10" by (simp_all add: dval_def magnitude_def base_pow_def Kr_def)
  then show ?thesis using r by (auto simp: result_ok_def split: sum.splits)
qed

end
