(* ===== verification/Decimal_Long.thy ===== *)
theory Decimal_Long
  imports Decimal_Add
begin

text \<open>
  Division of decimal numbers: long division on limbs, each quotient limb estimated from the first two limbs of the
  remainder and the first limb of the divisor, after both have been multiplied by a number that makes
  the first limb of the divisor large. The estimate is off by one at most.
\<close>

section \<open>The code\<close>

text \<open>\<open>e\<close>: a number of limbs times a limb.\<close>

fun scale_rev :: "nat \<Rightarrow> nat \<Rightarrow> nat list \<Rightarrow> nat list" where
  "scale_rev c h [] = (if h \<noteq> 0 then [h] else [])"
| "scale_rev c h (i # is) = (let s = i * c + h in s mod Kr # scale_rev c (s div Kr) is)"

definition scale :: "nat list \<Rightarrow> nat \<Rightarrow> nat list" where
  "scale i c = rev (scale_rev c 0 (rev i))"

text \<open>\<open>t\<close>: comparing limbs; the callers pass the lengths.\<close>

fun first_diff :: "nat list \<Rightarrow> nat list \<Rightarrow> int" where
  "first_diff (i # is) (c # cs) = (if i \<noteq> c then (if c < i then 1 else -1) else first_diff is cs)"
| "first_diff _ _ = 0"

definition cmp_words :: "nat list \<Rightarrow> nat list \<Rightarrow> int" where
  "cmp_words i c = (if length i \<noteq> length c then (if length c < length i then 1 else -1) else first_diff i c)"

text \<open>\<open>a\<close>: subtracting limbs, with the borrow \<open>h\<close>, and removing zeros in front.\<close>

fun sub_rev :: "nat \<Rightarrow> nat list \<Rightarrow> nat list \<Rightarrow> nat list" where
  "sub_rev h (i # is) (c # cs) =
     (let h' = (if i < c + h then 1 else 0) in (h' * Kr + i - (c + h)) # sub_rev h' is cs)"
| "sub_rev h is _ = is"

fun drop_lead :: "nat list \<Rightarrow> nat list" where
  "drop_lead (i # j # is) = (if i = 0 then drop_lead (j # is) else i # j # is)"
| "drop_lead is = is"

definition sub_words :: "nat list \<Rightarrow> nat list \<Rightarrow> nat list" where
  "sub_words i c = drop_lead (rev (sub_rev 0 (rev i) (rev c)))"

text \<open>A limb that is read past the end counts as zero.\<close>

definition head0 :: "nat list \<Rightarrow> nat" where
  "head0 d = (case d of [] \<Rightarrow> 0 | a # _ \<Rightarrow> a)"

text \<open>The loop for a divisor of one limb.\<close>

fun short_div :: "nat \<Rightarrow> nat list \<Rightarrow> nat \<Rightarrow> nat \<Rightarrow> nat list" where
  "short_div 0 oe Q r = []"
| "short_div (Suc n) oe Q r =
     (if oe \<noteq> [] \<or> r \<noteq> 0
      then (let U = r * Kr + head0 oe in U div Q # short_div n (tl oe) Q (U mod Q))
      else [])"

text \<open>One limb of the quotient. \<open>B\<close> is the first limb of the divisor, rounded; \<open>C\<close> the remainder. The last
  component is the comparison after which the next limb is appended to the remainder or starts a new one.\<close>

definition estimate :: "nat list \<Rightarrow> nat \<Rightarrow> nat list \<Rightarrow> nat" where
  "estimate Q B C =
     (let N = (if length Q \<noteq> length C then hd C * Kr + (if 1 < length C then C ! 1 else 0) else hd C) in N div B)"

definition longer :: "nat list \<Rightarrow> nat list \<Rightarrow> nat list" where
  "longer Q S = (if length Q < length S then 0 # Q else Q)"

definition div_digit :: "nat list \<Rightarrow> nat \<Rightarrow> nat list \<Rightarrow> nat \<times> nat list \<times> int" where
  "div_digit Q B C =
     (let y = cmp_words Q C in
      if y < 0 then
        (let q = estimate Q B C;
             (q1, S, y1) =
               (if 1 < q then
                  (let q' = (if Kr \<le> q then Kr - 1 else q); S = scale Q q'; y' = cmp_words S C
                   in if y' = 1 then (q' - 1, sub_words S (longer Q S), y') else (q', S, y'))
                else if q = 0 then (1, Q, 1) else (q, Q, y));
             C1 = sub_words C (if length S < length C then 0 # S else S)
         in if y1 = -1 then
              (let y2 = cmp_words Q C1 in if y2 < 1 then (q1 + 1, sub_words C1 (longer Q C1), y2) else (q1, C1, y2))
            else (q1, C1, y1))
      else if y = 0 then (1, [0], 0)
      else (0, C, y))"

fun long_div :: "nat \<Rightarrow> nat list \<Rightarrow> nat \<Rightarrow> nat list \<Rightarrow> nat list \<Rightarrow> nat list" where
  "long_div 0 Q B C oe = []"
| "long_div (Suc n) Q B C oe =
     (let (q, C1, y) = div_digit Q B C;
          C2 = (if y \<noteq> 0 \<and> hd C1 \<noteq> 0 then Some (C1 @ [head0 oe])
                else (case oe of [] \<Rightarrow> None | a # _ \<Rightarrow> Some [a]))
      in q # (case C2 of None \<Rightarrow> [] | Some C' \<Rightarrow> long_div n Q B C' (tl oe)))"

text \<open>The limbs of the quotient; \<open>n\<close> is the bound on their number.\<close>

definition div_limbs :: "nat \<Rightarrow> nat list \<Rightarrow> nat list \<Rightarrow> nat list" where
  "div_limbs n oe Q =
     (if length Q = 1 then short_div n oe (hd Q) 0
      else (let c = Kr div (hd Q + 1);
                (Q', oe') = (if 1 < c then (scale Q c, scale oe c) else (Q, oe));
                k = length Q';
                C = take k oe' @ replicate (k - length oe') 0;
                B = (if Kr \<le> 2 * Q' ! 1 then hd Q' + 1 else hd Q')
            in long_div n Q' B C (drop k oe')))"

text \<open>Whether the divisor has the larger leading limbs.\<close>

fun larger_lead :: "nat list \<Rightarrow> nat list \<Rightarrow> bool" where
  "larger_lead [] oe = False"
| "larger_lead (q # Q) oe = (let x = head0 oe in if q = x then larger_lead Q (tl oe) else x < q)"

text \<open>\<open>ns\<close>; \<open>s\<close> is the precision (by default that of the settings), \<open>h\<close> says that it counts decimal places.\<close>

definition ns :: "bool \<Rightarrow> settings \<Rightarrow> decimal \<Rightarrow> decimal \<Rightarrow> int option \<Rightarrow> bool \<Rightarrow> decimal_error + decimal" where
  "ns ext S i c s h =
     (if d_s i = 0 then Inr i
      else if d_s c = 0 then Inl DivisionByZero
      else (let (s', L) = (case s of None \<Rightarrow> (int (st_precision S), int (st_precision S))
                           | Some p \<Rightarrow> (p, if h then p + (exponent i - exponent c) + 1 else p))
            in if L < 0 then Inr zero_decimal
               else (let D = div_limbs (nat (L div int qn) + 3) (d_d i) (d_d c);
                         w = \<lparr>d_s = (if d_s i = d_s c then 1 else -1),
                              d_e = d_e i - d_e c - (if larger_lead (d_d c) (d_d i) then 1 else 0),
                              d_d = (if hd D = 0 then tl D else D)\<rparr>
                     in xn ext w (if h then s' + exponent w + 1 else s') None)))"

definition dec_div :: "bool \<Rightarrow> settings \<Rightarrow> decimal \<Rightarrow> decimal \<Rightarrow> decimal_error + decimal" where
  "dec_div ext S x e = ns ext S x e None False"

definition dec_idiv :: "bool \<Rightarrow> settings \<Rightarrow> decimal \<Rightarrow> decimal \<Rightarrow> decimal_error + decimal" where
  "dec_idiv ext S t a = (case ns ext S t a (Some 0) True of Inl er \<Rightarrow> Inl er | Inr q \<Rightarrow> xn ext q (int (st_precision S)) None)"

text \<open>The remainder: the quotient and the product are not rounded, the difference is.\<close>

definition dec_mod :: "bool \<Rightarrow> settings \<Rightarrow> decimal \<Rightarrow> decimal \<Rightarrow> decimal_error + decimal" where
  "dec_mod ext S a e =
     (if d_s e = 0 then Inl NotANumber
      else if d_s a \<noteq> 0
      then (case ns False S a e (Some 0) True of Inl er \<Rightarrow> Inl er
            | Inr q \<Rightarrow> (case dec_times False S q e of Inl er \<Rightarrow> Inl er | Inr p \<Rightarrow> dec_minus True S a p))
      else xn ext a (int (st_precision S)) None)"

section \<open>The operations on limbs\<close>

text \<open>Limbs without a zero in front, except for zero itself.\<close>

definition canon :: "nat list \<Rightarrow> bool" where
  "canon d \<longleftrightarrow> d \<noteq> [] \<and> (\<forall>a \<in> set d. a < Kr) \<and> (hd d \<noteq> 0 \<or> length d = 1)"

lemma scale_rev_correct:
  assumes "\<forall>a \<in> set is. a < Kr" "c < Kr" "h < Kr"
  shows "limbs (rev (scale_rev c h is)) = limbs (rev is) * c + h \<and> (\<forall>a \<in> set (scale_rev c h is). a < Kr)
    \<and> length is \<le> length (scale_rev c h is) \<and> length (scale_rev c h is) \<le> Suc (length is)
    \<and> (length (scale_rev c h is) = Suc (length is) \<longrightarrow> last (scale_rev c h is) \<noteq> 0)"
  using assms
proof (induction c h "is" rule: scale_rev.induct)
  case (2 c h i "is")
  let ?s = "i * c + h"
  have "?s \<le> (Kr - 1) * (Kr - 1) + (Kr - 1)" using 2(2-4) by (intro add_mono mult_le_mono) auto
  also have "\<dots> < Kr * Kr" by (simp add: Kr_def)
  finally have d: "?s div Kr < Kr" by (simp add: div_less_iff_less_mult)
  have IH: "limbs (rev (scale_rev c (?s div Kr) is)) = limbs (rev is) * c + ?s div Kr"
    "\<forall>a \<in> set (scale_rev c (?s div Kr) is). a < Kr" "length is \<le> length (scale_rev c (?s div Kr) is)"
    "length (scale_rev c (?s div Kr) is) \<le> Suc (length is)"
    "length (scale_rev c (?s div Kr) is) = Suc (length is) \<longrightarrow> last (scale_rev c (?s div Kr) is) \<noteq> 0"
    using "2.IH" [OF refl] 2(2-4) d by auto
  have "limbs (rev (scale_rev c h (i # is))) = (limbs (rev is) * c + ?s div Kr) * Kr + ?s mod Kr"
    using IH(1) by (simp add: Let_def limbs_snoc)
  also have "\<dots> = limbs (rev is) * c * Kr + (?s div Kr * Kr + ?s mod Kr)" by (simp only: add_mult_distrib add.assoc)
  also have "\<dots> = limbs (rev (i # is)) * c + h" by (simp add: limbs_snoc algebra_simps)
  finally show ?case using IH(2-5) by (auto simp: Let_def)
qed simp

lemma scale_correct:
  assumes "\<forall>a \<in> set i. a < Kr" "c < Kr"
  shows "limbs (scale i c) = limbs i * c" "\<forall>a \<in> set (scale i c). a < Kr"
    "length (scale i c) = length i \<or> length (scale i c) = Suc (length i) \<and> hd (scale i c) \<noteq> 0"
proof -
  note s = scale_rev_correct [of "rev i" c 0]
  show "limbs (scale i c) = limbs i * c" "\<forall>a \<in> set (scale i c). a < Kr"
    using s assms by (simp_all add: scale_def)
  show "length (scale i c) = length i \<or> length (scale i c) = Suc (length i) \<and> hd (scale i c) \<noteq> 0"
    using s assms by (auto simp: scale_def hd_rev le_Suc_eq)
qed

text \<open>The length of a number of limbs without a zero in front.\<close>

lemma canon_bounds: "canon d \<Longrightarrow> limbs d < Kr ^ length d" "canon d \<Longrightarrow> 1 < length d \<Longrightarrow> Kr ^ (length d - 1) \<le> limbs d"
proof -
  show "canon d \<Longrightarrow> limbs d < Kr ^ length d" by (rule limbs_less) (simp add: canon_def)
  show "canon d \<Longrightarrow> 1 < length d \<Longrightarrow> Kr ^ (length d - 1) \<le> limbs d"
    using limbs_ge [of "hd d" "tl d"] by (cases d) (auto simp: canon_def)
qed

lemma canon_length_less: "canon d \<Longrightarrow> canon d' \<Longrightarrow> length d < length d' \<Longrightarrow> limbs d < limbs d'"
proof -
  assume a: "canon d" "canon d'" "length d < length d'"
  then have "0 < length d" by (cases d) (auto simp: canon_def)
  then have "length d \<le> length d' - 1" "1 < length d'" using a(3) by linarith+
  then have "Kr ^ length d \<le> Kr ^ (length d' - 1)" by (intro power_increasing) (simp_all add: Kr_def)
  then show ?thesis using canon_bounds(1) [OF a(1)] canon_bounds(2) [OF a(2) \<open>1 < length d'\<close>] by linarith
qed

lemma canon_length_mono: "canon d \<Longrightarrow> canon d' \<Longrightarrow> limbs d \<le> limbs d' \<Longrightarrow> length d \<le> length d'"
  using canon_length_less [of d' d] by (cases "length d' < length d") auto

lemma first_diff_correct:
  assumes "length i = length c" "\<forall>a \<in> set i. a < Kr" "\<forall>a \<in> set c. a < Kr"
  shows "first_diff i c = (if limbs i < limbs c then -1 else if limbs i = limbs c then 0 else 1)"
  using assms
proof (induction i c rule: first_diff.induct)
  case (1 i "is" c cs)
  have lt: "limbs is < Kr ^ length is" "limbs cs < Kr ^ length is" using limbs_less [of "is"] limbs_less [of cs] 1 by auto
  have less: "a * Kr ^ length is + u < b * Kr ^ length is + v" if "a < b" "u < Kr ^ length is" for a b u v :: nat
  proof -
    have "Suc a * Kr ^ length is \<le> b * Kr ^ length is" using that(1) by (intro mult_le_mono1) simp
    then show ?thesis using that(2) by simp
  qed
  show ?case
  proof (cases "i = c")
    case True
    then show ?thesis using 1 by simp
  next
    case False
    then show ?thesis using less [of i c "limbs is" "limbs cs"] less [of c i "limbs cs" "limbs is"] lt 1(2) by auto
  qed
qed simp_all

lemma cmp_words_correct:
  assumes "canon i" "canon c"
  shows "cmp_words i c = (if limbs i < limbs c then -1 else if limbs i = limbs c then 0 else 1)"
proof (cases "length i = length c")
  case True
  then show ?thesis using assms by (simp add: cmp_words_def canon_def first_diff_correct)
next
  case False
  then show ?thesis using canon_length_less [OF assms] canon_length_less [OF assms(2,1)]
    by (auto simp: cmp_words_def)
qed

lemma sub_rev_correct:
  assumes "length is = length cs" "\<forall>a \<in> set is. a < Kr" "\<forall>a \<in> set cs. a < Kr" "h \<le> 1"
    "limbs (rev cs) + h \<le> limbs (rev is)"
  shows "limbs (rev (sub_rev h is cs)) + limbs (rev cs) + h = limbs (rev is) \<and> (\<forall>a \<in> set (sub_rev h is cs). a < Kr)
    \<and> length (sub_rev h is cs) = length is"
  using assms
proof (induction h "is" cs rule: sub_rev.induct)
  case (1 h i "is" c cs)
  define h' where "h' = (if i < c + h then 1 else 0 :: nat)"
  have lt: "i < Kr" "c < Kr" using 1 by auto
  have le: "(limbs (rev cs) * Kr + c) + h \<le> limbs (rev is) * Kr + i" using 1(6) by (simp add: limbs_snoc)
  have "limbs (rev cs) + h' \<le> limbs (rev is)"
  proof (rule ccontr)
    assume "\<not> ?thesis"
    then have "limbs (rev is) < limbs (rev cs) + h'" by simp
    then have "(limbs (rev is) + 1) * Kr \<le> (limbs (rev cs) + h') * Kr" by (intro mult_le_mono1) simp
    then have "limbs (rev is) * Kr + Kr \<le> limbs (rev cs) * Kr + h' * Kr" by (simp add: algebra_simps)
    then show False using le lt by (auto simp: h'_def split: if_splits)
  qed
  then have IH: "limbs (rev (sub_rev h' is cs)) + limbs (rev cs) + h' = limbs (rev is)"
    "\<forall>a \<in> set (sub_rev h' is cs). a < Kr" "length (sub_rev h' is cs) = length is"
    using "1.IH" [OF h'_def] 1(2-4) by (auto simp: h'_def)
  have d: "(h' * Kr + i - (c + h)) + (c + h) = h' * Kr + i" "h' * Kr + i - (c + h) < Kr"
    using lt 1(5) by (auto simp: h'_def)
  have e: "sub_rev h (i # is) (c # cs) = (h' * Kr + i - (c + h)) # sub_rev h' is cs" by (simp add: h'_def Let_def)
  have "limbs (rev is) * Kr = limbs (rev (sub_rev h' is cs)) * Kr + limbs (rev cs) * Kr + h' * Kr"
    unfolding IH(1) [symmetric] by (simp add: algebra_simps)
  then have "limbs (rev (sub_rev h (i # is) (c # cs))) + limbs (rev (c # cs)) + h = limbs (rev (i # is))"
    using d(1) unfolding e by (simp add: limbs_snoc)
  then show ?case using IH d(2) unfolding e by simp
qed simp_all

lemma drop_lead_correct: "d \<noteq> [] \<Longrightarrow> \<forall>a \<in> set d. a < Kr \<Longrightarrow> canon (drop_lead d) \<and> limbs (drop_lead d) = limbs d"
  by (induction d rule: drop_lead.induct) (auto simp: canon_def)

lemma sub_words_correct:
  assumes "length i = length c" "i \<noteq> []" "\<forall>a \<in> set i. a < Kr" "\<forall>a \<in> set c. a < Kr" "limbs c \<le> limbs i"
  shows "canon (sub_words i c) \<and> limbs (sub_words i c) = limbs i - limbs c"
proof -
  note s = sub_rev_correct [of "rev i" "rev c" 0]
  have r: "limbs (rev (sub_rev 0 (rev i) (rev c))) + limbs c = limbs i" "\<forall>a \<in> set (sub_rev 0 (rev i) (rev c)). a < Kr"
    "length (sub_rev 0 (rev i) (rev c)) = length i" using s assms by auto
  then have "rev (sub_rev 0 (rev i) (rev c)) \<noteq> []" using assms(2) by (metis length_rev length_0_conv)
  then show ?thesis using drop_lead_correct [of "rev (sub_rev 0 (rev i) (rev c))"] r by (simp add: sub_words_def)
qed

section \<open>One limb of the quotient\<close>

text \<open>What the loop relies on: a divisor of at least two limbs whose first limb is large, that limb rounded, and a
  remainder below the divisor times the base.\<close>

definition div_ready :: "nat list \<Rightarrow> nat \<Rightarrow> nat list \<Rightarrow> bool" where
  "div_ready Q B C \<longleftrightarrow> canon Q \<and> 2 \<le> length Q \<and> Kr \<le> 2 * hd Q \<and> B = (if Kr \<le> 2 * Q ! 1 then hd Q + 1 else hd Q)
     \<and> canon C \<and> limbs C < limbs Q * Kr"

text \<open>The estimate in numbers: \<open>Q\<close> and \<open>C\<close> are the divisor and the remainder in units \<open>u\<close> of the first limb
  of the divisor.\<close>

lemma estimate_bounds:
  fixes Q C u q0 q1 N B :: nat
  assumes "q0 * u \<le> Q" "2 * q1 < Kr \<longrightarrow> 2 * Q < (2 * q0 + 1) * u" "Kr \<le> 2 * q1 \<longrightarrow> (2 * q0 + 1) * u \<le> 2 * Q"
    "Q < (q0 + 1) * u" "N * u \<le> C" "C < (N + 1) * u" "C < Q * Kr" "Kr \<le> 2 * q0"
    "B = (if Kr \<le> 2 * q1 then q0 + 1 else q0)"
  shows "N div B \<le> Suc (C div Q)" "C div Q \<le> Suc (N div B)"
proof -
  have u: "0 < u" using assms(4) by (cases u) auto
  have q0: "0 < q0" using assms(8) by (auto simp: Kr_def)
  have Q: "0 < Q" using assms(1) u q0 by (metis mult_pos_pos less_le_trans)
  have B: "0 < B" "B \<le> q0 + 1" using assms(9) q0 by auto
  define q where "q = C div Q"
  have qC: "q * Q \<le> C" by (simp add: q_def)
  have Cq: "C < (q + 1) * Q" using Q by (simp add: q_def dividend_less_div_times)
  have qK: "q < Kr" using assms(7) unfolding q_def by (simp add: div_less_iff_less_mult Q mult.commute)
  show "N div B \<le> Suc (C div Q)"
  proof (cases "Kr \<le> 2 * q1")
    case True
    then have "B * u \<ge> Q" using assms(4,9) by simp
    have "N * u < (q + 1) * Q" using assms(5) Cq by linarith
    also have "\<dots> \<le> (q + 1) * (B * u)" using \<open>B * u \<ge> Q\<close> by (rule mult_le_mono2)
    finally have "N * u < ((q + 1) * B) * u" by (simp only: mult.assoc)
    then have "N < (q + 1) * B" by (simp only: mult_less_cancel2)
    then have "N div B < q + 1" using B by (simp add: div_less_iff_less_mult)
    then show ?thesis by (simp add: q_def)
  next
    case False
    then have b: "B = q0" "2 * Q < (2 * q0 + 1) * u" using assms(2,9) by auto
    have "2 * (N * u) < (q + 1) * (2 * Q)" using assms(5) Cq by (simp add: algebra_simps)
    also have "\<dots> \<le> (q + 1) * ((2 * q0 + 1) * u)" using b(2) by (intro mult_le_mono2) simp
    finally have "(2 * N) * u < ((q + 1) * (2 * q0 + 1)) * u" by (simp only: mult.assoc mult.left_commute)
    then have "2 * N < (q + 1) * (2 * q0 + 1)" by (simp only: mult_less_cancel2)
    also have "\<dots> = 2 * ((q + 1) * q0) + (q + 1)" by (simp add: algebra_simps)
    also have "\<dots> \<le> 2 * ((q + 1) * q0) + 2 * q0" using qK assms(8) by simp
    also have "\<dots> = 2 * ((q + 2) * q0)" by (simp add: algebra_simps)
    finally have "N < (q + 2) * q0" by simp
    then have "N div B < q + 2" using b B by (simp add: div_less_iff_less_mult)
    then show ?thesis by (simp add: q_def)
  qed
  show "C div Q \<le> Suc (N div B)"
  proof (cases "Kr \<le> 2 * q1")
    case False
    then have b: "B = q0" using assms(9) by simp
    have "(q * q0) * u \<le> q * Q" using assms(1) by (simp add: mult.assoc)
    then have "(q * q0) * u < (N + 1) * u" using qC assms(6) by linarith
    then have "q * q0 < N + 1" by (simp only: mult_less_cancel2)
    then have "q * B \<le> N" using b by simp
    then have "q \<le> N div B" using B by (simp add: less_eq_div_iff_mult_less_eq)
    then show ?thesis by (simp add: q_def)
  next
    case True
    then have b: "B = q0 + 1" "(2 * q0 + 1) * u \<le> 2 * Q" using assms(3,9) by auto
    have "(q * (2 * q0 + 1)) * u \<le> q * (2 * Q)" using b(2) by (simp only: mult.assoc mult_le_mono2)
    also have "\<dots> < 2 * ((N + 1) * u)" using qC assms(6) by simp
    finally have "(q * (2 * q0 + 1)) * u < (2 * (N + 1)) * u" by (simp only: mult.assoc)
    then have n: "q * (2 * q0 + 1) < 2 * (N + 1)" by (simp only: mult_less_cancel2)
    have "(q - 1) * B \<le> N"
    proof (cases q)
      case (Suc j)
      define x y where xy: "x = q * (2 * q0 + 1)" "y = j * (q0 + 1)"
      have "2 * y + q0 + q0 + 1 + j + 1 = x + j + j + 1" by (simp add: xy Suc algebra_simps)
      moreover have "x \<le> 2 * N + 1" using n by (simp add: xy)
      moreover have "j \<le> 2 * q0" using qK assms(8) Suc by linarith
      ultimately have "2 * y \<le> 2 * N" by linarith
      then show ?thesis by (simp add: Suc b xy)
    qed simp
    then have "q - 1 \<le> N div B" using B by (simp add: less_eq_div_iff_mult_less_eq)
    then show ?thesis by (simp add: q_def)
  qed
qed

lemma limbs_second:
  assumes "\<forall>a \<in> set d. a < Kr" "2 \<le> length d"
  shows "(hd d * Kr + d ! 1) * Kr ^ (length d - 2) \<le> limbs d \<and> limbs d < (hd d * Kr + d ! 1 + 1) * Kr ^ (length d - 2)"
proof -
  obtain a b r where d: "d = a # b # r" using assms(2) by (cases d; cases "tl d") auto
  then have "limbs r < Kr ^ length r" using assms(1) by (intro limbs_less) simp
  then show ?thesis unfolding d by (simp add: algebra_simps)
qed

lemma limbs_half:
  assumes "\<forall>a \<in> set d. a < Kr" "2 \<le> length d"
  shows "2 * d ! 1 < Kr \<Longrightarrow> 2 * limbs d < (2 * hd d + 1) * Kr ^ (length d - 1)"
    "Kr \<le> 2 * d ! 1 \<Longrightarrow> (2 * hd d + 1) * Kr ^ (length d - 1) \<le> 2 * limbs d"
proof -
  note s = limbs_second [OF assms]
  let ?a = "hd d" and ?b = "d ! 1" and ?u = "Kr ^ (length d - 2)"
  have u: "(2 * ?a + 1) * Kr ^ (length d - 1) = ((2 * ?a + 1) * Kr) * ?u"
  proof -
    have "length d - 1 = Suc (length d - 2)" using assms(2) by simp
    then show ?thesis by (simp only: power_Suc mult.assoc)
  qed
  show "2 * limbs d < (2 * ?a + 1) * Kr ^ (length d - 1)" if "2 * ?b < Kr"
  proof -
    have "2 * ?b + 2 \<le> Kr" using that by (simp add: Kr_def)
    then have "2 * (?a * Kr + ?b + 1) \<le> (2 * ?a + 1) * Kr" by (simp add: algebra_simps)
    then have "2 * (?a * Kr + ?b + 1) * ?u \<le> (2 * ?a + 1) * Kr * ?u" by (rule mult_le_mono1)
    then show ?thesis using s unfolding u by (simp only: mult.assoc) linarith
  qed
  show "(2 * ?a + 1) * Kr ^ (length d - 1) \<le> 2 * limbs d" if "Kr \<le> 2 * ?b"
  proof -
    have "(2 * ?a + 1) * Kr \<le> 2 * (?a * Kr + ?b)" using that by (simp add: algebra_simps)
    then have "(2 * ?a + 1) * Kr * ?u \<le> 2 * (?a * Kr + ?b) * ?u" by (rule mult_le_mono1)
    then show ?thesis using s unfolding u by (simp only: mult.assoc) linarith
  qed
qed

lemma canon_lengthI: "canon d \<Longrightarrow> limbs d < Kr ^ n \<Longrightarrow> 1 \<le> n \<Longrightarrow> length d \<le> n"
proof (rule ccontr)
  assume a: "canon d" "limbs d < Kr ^ n" "1 \<le> n" "\<not> length d \<le> n"
  then have "Kr ^ n \<le> Kr ^ (length d - 1)" by (intro power_increasing) (auto simp: Kr_def)
  then show False using canon_bounds(2) [OF a(1)] a by simp
qed

lemma div_ready_length: "div_ready Q B C \<Longrightarrow> length C \<le> Suc (length Q)"
proof -
  assume a: "div_ready Q B C"
  then have "limbs C < limbs Q * Kr" "limbs Q < Kr ^ length Q" using canon_bounds(1) by (auto simp: div_ready_def)
  then have "limbs C < Kr ^ Suc (length Q)" by (metis mult.commute mult_less_mono1 Kr_pos(1) less_trans power_Suc)
  then show ?thesis using a by (intro canon_lengthI) (auto simp: div_ready_def)
qed

lemma estimate_correct:
  assumes "div_ready Q B C" "length Q \<le> length C"
  shows "estimate Q B C \<le> Suc (limbs C div limbs Q)" "limbs C div limbs Q \<le> Suc (estimate Q B C)"
proof -
  note r = assms(1) [unfolded div_ready_def canon_def]
  let ?u = "Kr ^ (length Q - 1)"
  define N where "N = (if length Q \<noteq> length C then hd C * Kr + (if 1 < length C then C ! 1 else 0) else hd C)"
  have N: "N * ?u \<le> limbs C \<and> limbs C < (N + 1) * ?u"
  proof (cases "length C = length Q")
    case True
    then show ?thesis using limbs_first [of C] r by (simp add: N_def)
  next
    case False
    then have l: "length C = Suc (length Q)" using div_ready_length [OF assms(1)] assms(2) by simp
    then show ?thesis using limbs_second [of C] r by (simp add: N_def)
  qed
  have Q: "hd Q * ?u \<le> limbs Q" "limbs Q < (hd Q + 1) * ?u" using limbs_first [of Q] r by auto
  have h: "2 * Q ! 1 < Kr \<longrightarrow> 2 * limbs Q < (2 * hd Q + 1) * ?u" "Kr \<le> 2 * Q ! 1 \<longrightarrow> (2 * hd Q + 1) * ?u \<le> 2 * limbs Q"
    using limbs_half [of Q] r by auto
  have e: "estimate Q B C = N div B" by (simp add: estimate_def N_def Let_def)
  note eb = estimate_bounds [OF Q(1) h Q(2), of N "limbs C" B]
  show "estimate Q B C \<le> Suc (limbs C div limbs Q)" "limbs C div limbs Q \<le> Suc (estimate Q B C)"
    unfolding e using eb N r by auto
qed

lemma sub_longer:
  assumes "canon i" "canon c" "limbs c \<le> limbs i" "length i \<le> Suc (length c)"
  shows "canon (sub_words i (longer c i)) \<and> limbs (sub_words i (longer c i)) = limbs i - limbs c"
proof -
  have "length c \<le> length i" using canon_length_mono assms(1-3) by blast
  then have "length i = length (longer c i)" using assms(4) by (simp add: longer_def)
  moreover have "\<forall>a \<in> set (longer c i). a < Kr" "limbs (longer c i) = limbs c" using assms(2) by (auto simp: longer_def canon_def)
  ultimately show ?thesis using sub_words_correct [of i "longer c i"] assms(1,3) by (simp add: canon_def)
qed

text \<open>One limb of the quotient is right, and the new remainder too.\<close>

lemma div_digit_correct:
  assumes "div_ready Q B C"
  shows "\<exists>C1 y. div_digit Q B C = (limbs C div limbs Q, C1, y) \<and> canon C1 \<and> limbs C1 = limbs C mod limbs Q
    \<and> (y = 0 \<longrightarrow> limbs C1 = 0)"
proof -
  let ?q = "limbs Q" and ?c = "limbs C"
  note r = assms [unfolded div_ready_def]
  have can: "canon Q" "canon C" using r by auto
  have q0: "0 < ?q" using canon_bounds(2) [OF can(1)] r by (auto simp: Kr_def intro: less_le_trans [OF zero_less_power])
  note cmp = cmp_words_correct [OF can]
  consider "?c < ?q" | "?c = ?q" | "?q < ?c" by linarith
  then show ?thesis
  proof cases
    case 1
    then show ?thesis using can cmp by (simp add: div_digit_def Let_def)
  next
    case 2
    have "canon [0]" by (simp add: canon_def)
    then show ?thesis using 2 q0 cmp by (simp add: div_digit_def Let_def)
  next
    case 3
    define t where "t = ?c div ?q"
    have len: "length C \<le> Suc (length Q)" "length Q \<le> length C"
      using div_ready_length [OF assms] canon_length_mono [OF can] 3 by auto
    have t: "1 \<le> t" "t < Kr" "t * ?q \<le> ?c" "?c < t * ?q + ?q"
      using 3 r q0 by (auto simp: t_def less_eq_div_iff_mult_less_eq div_less_iff_less_mult mult.commute)
        (use dividend_less_div_times [OF q0, of ?c] in \<open>simp add: algebra_simps\<close>)
    have uniq: "q = t" if "q * ?q \<le> ?c" "?c < q * ?q + ?q" for q
      using that unfolding t_def by (intro div_nat_eqI [symmetric]) (simp_all add: algebra_simps)
    note est = estimate_correct [OF assms len(2), folded t_def]
    obtain q1 S y1 where first: "(if 1 < estimate Q B C then
                  (let q' = (if Kr \<le> estimate Q B C then Kr - 1 else estimate Q B C); S = scale Q q'; y' = cmp_words S C
                   in if y' = 1 then (q' - 1, sub_words S (longer Q S), y') else (q', S, y'))
                else if estimate Q B C = 0 then (1, Q, 1) else (estimate Q B C, Q, -1)) = (q1, S, y1)"
      using prod_cases3 by blast
    have F: "canon S \<and> limbs S = ?q * q1 \<and> 1 \<le> q1 \<and> q1 \<le> t \<and> (y1 = -1 \<longrightarrow> t \<le> Suc q1)
      \<and> (y1 \<noteq> -1 \<longrightarrow> t = q1) \<and> (y1 = 0 \<longrightarrow> ?c = ?q * q1)"
    proof (cases "1 < estimate Q B C")
      case True
      define q' where "q' = (if Kr \<le> estimate Q B C then Kr - 1 else estimate Q B C)"
      have q': "1 < q'" "q' < Kr" "q' \<le> Suc t" "t \<le> Suc q'" using est t(2) True by (auto simp: q'_def Kr_def)
      note s = scale_correct [of Q q'] and Q = can(1) [unfolded canon_def]
      have len': "length (scale Q q') \<le> Suc (length Q)" using s(3) Q q' by auto
      have "hd (scale Q q') \<noteq> 0 \<or> length (scale Q q') = 1 \<or> length (scale Q q') = length Q" using s(3) Q q' by auto
      moreover have "hd (scale Q q') \<noteq> 0" if "length (scale Q q') = length Q"
      proof
        assume z: "hd (scale Q q') = 0"
        have "scale Q q' \<noteq> []" using that Q by auto
        then have "limbs (scale Q q') < Kr ^ (length Q - 1)" using limbs_first [of "scale Q q'"] s(2) Q q' z that by simp
        moreover have "Kr ^ (length Q - 1) \<le> ?q" using canon_bounds(2) [OF can(1)] r by simp
        moreover have "?q \<le> ?q * q'" using q'(1) by simp
        ultimately show False using s(1) Q q' by linarith
      qed
      moreover have "scale Q q' \<noteq> []" using s(3) Q q' by auto
      ultimately have S: "canon (scale Q q')" "limbs (scale Q q') = ?q * q'" using s(1,2) Q q' by (auto simp: canon_def)
      note cs = cmp_words_correct [OF S(1) can(2)]
      consider "?q * q' < ?c" | "?q * q' = ?c" | "?c < ?q * q'" by linarith
      then show ?thesis
      proof cases
        case 1
        then have "q' * ?q \<le> ?c" by (simp add: mult.commute)
        then have "q' \<le> t" using q0 by (simp add: t_def less_eq_div_iff_mult_less_eq)
        then show ?thesis using first True 1 S cs q' by (auto simp: Let_def q'_def [symmetric])
      next
        case 2
        then have "q' = t" by (intro uniq) (simp_all add: q0 mult.commute)
        then show ?thesis using first True 2 S cs q' by (auto simp: Let_def q'_def [symmetric])
      next
        case 3
        have "\<not> q' \<le> t"
        proof
          assume "q' \<le> t"
          then have "q' * ?q \<le> t * ?q" by (rule mult_le_mono1)
          then show False using 3 t(3) unfolding mult.commute [of ?q q'] by linarith
        qed
        then have e: "q' = Suc t" using q'(3) by simp
        have "canon (sub_words (scale Q q') (longer Q (scale Q q'))) \<and> limbs (sub_words (scale Q q') (longer Q (scale Q q'))) = ?q * q' - ?q"
          using sub_longer [OF S(1) can(1)] len' q' S(2) by simp
        then show ?thesis using first True 3 S cs q' e by (auto simp: Let_def q'_def [symmetric])
      qed
    next
      case False
      then consider "estimate Q B C = 0" | "estimate Q B C = 1" by linarith
      then show ?thesis
      proof cases
        case 1
        then have "t = 1" using est t by simp
        then show ?thesis using first False 1 can by auto
      next
        case 2
        then show ?thesis using first False est t can by auto
      qed
    qed
    define C1 where "C1 = sub_words C (longer S C)"
    have le: "?q * q1 \<le> ?c" using F t(3) by (metis mult.commute mult_le_mono2 order_trans)
    have "?q \<le> limbs S" using F by simp
    then have "length Q \<le> length S" using canon_length_mono can(1) F by blast
    then have C1: "canon C1" "limbs C1 = ?c - ?q * q1"
      using sub_longer [OF can(2), of S] F le len by (auto simp: C1_def)
    show ?thesis
    proof (cases "y1 = -1 \<and> ?q \<le> limbs C1")
      case True
      have "?q * Suc q1 \<le> ?c" using True C1(2) le unfolding mult_Suc_right by linarith
      then have "Suc q1 \<le> t" using q0 by (simp add: t_def less_eq_div_iff_mult_less_eq mult.commute)
      then have e: "t = Suc q1" using F True by simp
      have "limbs C1 \<le> ?c" using C1(2) by simp
      then have "length C1 \<le> length C" using canon_length_mono C1(1) can(2) by blast
      then have C2: "canon (sub_words C1 (longer Q C1))" "limbs (sub_words C1 (longer Q C1)) = limbs C1 - ?q"
        using sub_longer [OF C1(1) can(1)] True len by auto
      have "limbs C1 - ?q = ?c mod ?q"
        using e C1(2) le by (simp add: t_def modulo_nat_def algebra_simps)
      then show ?thesis
        using 3 e C1 C2 cmp True cmp_words_correct [OF can(1) C1(1)] first
        by (auto simp: div_digit_def Let_def C1_def longer_def t_def [symmetric])
    next
      case False
      have e: "t = q1"
      proof (cases "y1 = -1")
        case True
        then have "limbs C1 < ?q" using False by simp
        then show ?thesis using C1(2) le by (intro uniq [symmetric]) (simp_all add: mult.commute)
      qed (use F in simp)
      have m: "limbs C1 = ?c mod ?q" using e C1(2) by (simp add: t_def modulo_nat_def mult.commute)
      then show ?thesis
        using 3 e C1 cmp False cmp_words_correct [OF can(1) C1(1)] first F
        by (auto simp: div_digit_def Let_def C1_def longer_def t_def [symmetric])
    qed
  qed
qed

end
