(* ===== verification/Decimal_Quotient.thy ===== *)
theory Decimal_Quotient
  imports Decimal_Long
begin

text \<open>
  The loops of the division: the limbs of the quotient are those of the exact quotient, cut off after a
  number of limbs, and a loop that ends early has found the exact quotient.
\<close>

section \<open>Limbs that are read one by one\<close>

primrec lim_pad :: "nat \<Rightarrow> nat list \<Rightarrow> nat" where
  "lim_pad 0 d = 0"
| "lim_pad (Suc j) d = head0 d * Kr ^ j + lim_pad j (tl d)"

lemma lim_pad_long: "length d \<le> j \<Longrightarrow> lim_pad j d = limbs d * Kr ^ (j - length d)"
proof (induction j arbitrary: d)
  case (Suc j)
  show ?case
  proof (cases d)
    case Nil
    then show ?thesis using Suc.IH [of "[]"] by (simp add: head0_def)
  next
    case (Cons a r)
    then have "Kr ^ j = Kr ^ length r * Kr ^ (j - length r)" using Suc.prems by (simp flip: power_add)
    then show ?thesis using Suc Cons by (simp add: head0_def algebra_simps)
  qed
qed simp

lemma lim_pad_floor:
  "\<forall>a \<in> set d. a < Kr \<Longrightarrow> of_nat (lim_pad j d) \<le> frac_val d * of_nat (Kr ^ j) \<and> frac_val d * of_nat (Kr ^ j) < of_nat (lim_pad j d) + 1"
proof (induction j arbitrary: d)
  case 0
  then show ?case using frac_val_less [of d] by simp
next
  case (Suc j)
  have e: "frac_val d * of_nat (Kr ^ Suc j) = of_nat (head0 d) * of_nat (Kr ^ j) + frac_val (tl d) * of_nat (Kr ^ j)"
    by (cases d) (simp_all add: head0_def add_divide_distrib ring_distribs)
  have "\<forall>a \<in> set (tl d). a < Kr" using Suc.prems by (cases d) auto
  then show ?case using Suc.IH [of "tl d"] unfolding e by simp
qed

lemma frac_val_take: "frac_val d * of_nat (Kr ^ k) = of_nat (limbs (take k d @ replicate (k - length d) 0)) + frac_val (drop k d)"
proof (induction k arbitrary: d)
  case (Suc k)
  show ?case
  proof (cases d)
    case (Cons a r)
    have "frac_val d * of_nat (Kr ^ Suc k) = of_nat a * of_nat (Kr ^ k) + frac_val r * of_nat (Kr ^ k)"
      by (simp add: Cons add_divide_distrib ring_distribs)
    moreover have "min (length r) k + (k - length r) = k" by linarith
    ultimately show ?thesis using Suc.IH [of r] by (simp add: Cons)
  qed simp
qed simp

section \<open>The loops\<close>

text \<open>\<open>D\<close> are at most \<open>n\<close> limbs of the quotient of \<open>c\<close>, followed by the limbs \<open>oe\<close>, by \<open>q\<close>; fewer
  than \<open>n\<close> limbs are the exact quotient.\<close>

definition quot_ok :: "nat \<Rightarrow> nat \<Rightarrow> nat \<Rightarrow> nat list \<Rightarrow> nat list \<Rightarrow> bool" where
  "quot_ok n q c oe D \<longleftrightarrow>
     D \<noteq> [] \<and> length D \<le> n \<and> (\<forall>a \<in> set D. a < Kr)
     \<and> limbs D = (c * Kr ^ (length D - 1) + lim_pad (length D - 1) oe) div q
     \<and> (length D < n \<longrightarrow> length oe < length D \<and> limbs D * q = c * Kr ^ (length D - 1) + lim_pad (length D - 1) oe
          \<and> (Suc (length oe) < length D \<longrightarrow> last D \<noteq> 0))"

lemma quot_ok_last:
  "c < q * Kr \<Longrightarrow> n = 0 \<or> oe = [] \<and> c mod q = 0 \<Longrightarrow> quot_ok (Suc n) q c oe [c div q]"
  by (cases "q = 0") (auto simp: quot_ok_def div_less_iff_less_mult mult.commute)

lemma quot_ok_Cons:
  assumes "0 < q" "c < q * Kr" "quot_ok n q (c mod q * Kr + head0 oe) (tl oe) D" "oe \<noteq> [] \<or> c mod q \<noteq> 0"
  shows "quot_ok (Suc n) q c oe (c div q # D)"
proof -
  note d = assms(3) [unfolded quot_ok_def]
  define m where "m = length D - 1"
  have m: "length D = Suc m" using d by (cases D) (auto simp: m_def)
  define Y where "Y = (c mod q * Kr + head0 oe) * Kr ^ m + lim_pad m (tl oe)"
  have X: "c * Kr ^ length D + lim_pad (length D) oe = c div q * Kr ^ length D * q + Y"
  proof -
    have "c * Kr ^ Suc m = (c div q * q + c mod q) * Kr ^ Suc m" by simp
    also have "\<dots> = c div q * Kr ^ Suc m * q + c mod q * Kr * Kr ^ m" by (simp only: add_mult_distrib add_mult_distrib2 power_Suc ac_simps)
    finally show ?thesis by (simp add: m Y_def add_mult_distrib)
  qed
  have D: "limbs D = Y div q" "length D < n \<longrightarrow> limbs D * q = Y" using d unfolding Y_def m_def by blast+
  have "limbs (c div q # D) = (c * Kr ^ length D + lim_pad (length D) oe) div q"
    unfolding X using assms(1) D(1) by (simp add: add.commute)
  moreover have "c div q < Kr" using assms(1,2) by (simp add: div_less_iff_less_mult mult.commute)
  moreover have "length D < n \<Longrightarrow> limbs (c div q # D) * q = c * Kr ^ length D + lim_pad (length D) oe"
    unfolding X using D by (simp add: add_mult_distrib)
  moreover have "last D \<noteq> 0" if "length D < n" "Suc (length oe) < Suc (length D)"
  proof (cases "Suc (length (tl oe)) < length D")
    case True
    then show ?thesis using d that by blast
  next
    case False
    then have "length oe \<le> m" "m \<le> length oe - 1" using that(2) m by auto
    then have "length oe = 0" "m = 0" by arith+
    then have e: "oe = []" "m = 0" by simp_all
    then obtain a where a: "D = [a]" using m by (cases D) auto
    have "Y = c mod q * Kr" using e by (simp add: Y_def head0_def)
    then have "a * q \<noteq> 0" using D(2) that(1) a assms(4) e by simp
    then show ?thesis using a by simp
  qed
  ultimately show ?thesis using d by (auto simp: quot_ok_def)
qed

lemma short_div_correct:
  "\<forall>a \<in> set oe. a < Kr \<Longrightarrow> r < Q \<Longrightarrow> oe \<noteq> [] \<or> r \<noteq> 0 \<Longrightarrow>
    quot_ok (Suc n) Q (r * Kr + head0 oe) (tl oe) (short_div (Suc n) oe Q r)"
proof (induction n arbitrary: oe r)
  case 0
  have "head0 oe < Kr" using 0(1) by (cases oe) (auto simp: head0_def)
  then have "r * Kr + head0 oe < Suc r * Kr" by simp
  also have "\<dots> \<le> Q * Kr" using 0(2) by (intro mult_le_mono1) simp
  finally show ?case using 0(3) quot_ok_last [of _ Q 0] by (simp add: Let_def)
next
  case (Suc n)
  let ?c = "r * Kr + head0 oe"
  have h: "head0 oe < Kr" using Suc(2) by (cases oe) (auto simp: head0_def)
  then have "?c < Suc r * Kr" by simp
  also have "\<dots> \<le> Q * Kr" using Suc(3) by (intro mult_le_mono1) simp
  finally have c: "?c < Q * Kr" .
  have Q: "0 < Q" using Suc(3) by simp
  have e: "short_div (Suc (Suc n)) oe Q r = ?c div Q # short_div (Suc n) (tl oe) Q (?c mod Q)"
    using Suc(4) by (simp add: Let_def del: short_div.simps(2)) (simp add: Let_def)
  have lt: "\<forall>a \<in> set (tl oe). a < Kr" using Suc(2) by (cases oe) auto
  show ?case
  proof (cases "tl oe \<noteq> [] \<or> ?c mod Q \<noteq> 0")
    case True
    then show ?thesis
      using quot_ok_Cons [OF Q c Suc.IH [OF lt, of "?c mod Q"] True] Q unfolding e by simp
  next
    case False
    then have "short_div (Suc n) (tl oe) Q (?c mod Q) = []" by simp
    then show ?thesis using quot_ok_last [OF c, of "Suc n" "tl oe"] False unfolding e by simp
  qed
qed

lemma long_div_correct:
  "div_ready Q B C \<Longrightarrow> \<forall>a \<in> set oe. a < Kr \<Longrightarrow> quot_ok (Suc n) (limbs Q) (limbs C) oe (long_div (Suc n) Q B C oe)"
proof (induction n arbitrary: C oe)
  case 0
  obtain C1 y where d: "div_digit Q B C = (limbs C div limbs Q, C1, y)" using div_digit_correct [OF 0(1)] by blast
  then have "long_div (Suc 0) Q B C oe = [limbs C div limbs Q]" by (simp add: Let_def split: option.split)
  moreover have "limbs C < limbs Q * Kr" using 0(1) by (simp add: div_ready_def)
  ultimately show ?case using quot_ok_last [of "limbs C" "limbs Q" 0 oe] by simp
next
  case (Suc n)
  note r = Suc(2) [unfolded div_ready_def]
  obtain C1 y where d: "div_digit Q B C = (limbs C div limbs Q, C1, y)" "canon C1" "limbs C1 = limbs C mod limbs Q"
    "y = 0 \<longrightarrow> limbs C1 = 0" using div_digit_correct [OF Suc(2)] by blast
  have z: "limbs C1 = 0 \<longleftrightarrow> hd C1 = 0"
    using d(2) limbs_ge [of "hd C1" "tl C1"] by (cases C1) (auto simp: canon_def)
  have q: "0 < limbs Q" using r canon_bounds(2) [of Q] by (auto simp: Kr_def intro: less_le_trans [OF zero_less_power])
  have h: "head0 oe < Kr" using Suc(3) by (cases oe) (auto simp: head0_def)
  define C2 where "C2 = (if y \<noteq> 0 \<and> hd C1 \<noteq> 0 then Some (C1 @ [head0 oe]) else (case oe of [] \<Rightarrow> None | a # _ \<Rightarrow> Some [a]))"
  have e: "long_div (Suc (Suc n)) Q B C oe
      = limbs C div limbs Q # (case C2 of None \<Rightarrow> [] | Some C' \<Rightarrow> long_div (Suc n) Q B C' (tl oe))"
    by (simp add: d(1) C2_def Let_def)
  show ?case
  proof (cases "oe \<noteq> [] \<or> limbs C mod limbs Q \<noteq> 0")
    case True
    define C' where "C' = (if limbs C1 = 0 then [head0 oe] else C1 @ [head0 oe])"
    have C2: "C2 = Some C'" using True d z by (auto simp: C2_def C'_def head0_def split: list.split)
    have v: "limbs C' = limbs C mod limbs Q * Kr + head0 oe" using d(3) by (simp add: C'_def limbs_snoc)
    have "canon C'" using d(2) z h by (auto simp: canon_def C'_def)
    moreover have "limbs C' < limbs Q * Kr"
    proof -
      have "limbs C' < Suc (limbs C mod limbs Q) * Kr" using h v by simp
      also have "\<dots> \<le> limbs Q * Kr" using q by (intro mult_le_mono1) (simp add: Suc_leI)
      finally show ?thesis .
    qed
    ultimately have "div_ready Q B C'" using r by (simp add: div_ready_def)
    moreover have "\<forall>a \<in> set (tl oe). a < Kr" using Suc(3) by (cases oe) auto
    ultimately have "quot_ok (Suc n) (limbs Q) (limbs C') (tl oe) (long_div (Suc n) Q B C' (tl oe))" by (rule Suc.IH)
    moreover have "limbs C < limbs Q * Kr" using r by blast
    ultimately show ?thesis using quot_ok_Cons [OF q _ _ True] v C2 unfolding e by simp
  next
    case False
    then have "C2 = None" using d z by (simp add: C2_def)
    moreover have "limbs C < limbs Q * Kr" using r by blast
    ultimately show ?thesis using quot_ok_last [of "limbs C" "limbs Q" "Suc n" oe] False unfolding e by simp
  qed
qed

lemma quot_ok_value:
  assumes "quot_ok n q c oe D" "0 < q" "\<forall>a \<in> set oe. a < Kr"
  defines "z \<equiv> (of_nat c + frac_val oe) * of_nat (Kr ^ (length D - 1)) :: rat"
  shows "of_nat (limbs D) * of_nat q \<le> z" "z < (of_nat (limbs D) + 1) * of_nat q"
    "length D < n \<Longrightarrow> of_nat (limbs D) * of_nat q = z"
proof -
  let ?j = "length D - 1"
  define x where "x = c * Kr ^ ?j + lim_pad ?j oe"
  note d = assms(1) [unfolded quot_ok_def]
  have z: "of_nat x \<le> z" "z < of_nat x + 1"
    using lim_pad_floor [OF assms(3), of ?j] by (simp_all add: x_def z_def ring_distribs)
  have D: "limbs D = x div q" using d by (simp add: x_def)
  have "limbs D * q \<le> x" "x + 1 \<le> (limbs D + 1) * q"
    using dividend_less_div_times [OF assms(2), of x] by (simp_all add: D add_mult_distrib)
  then have "(of_nat (limbs D * q) :: rat) \<le> of_nat x" "(of_nat (x + 1) :: rat) \<le> of_nat ((limbs D + 1) * q)"
    by (simp_all only: of_nat_le_iff)
  then show "of_nat (limbs D) * of_nat q \<le> z" "z < (of_nat (limbs D) + 1) * of_nat q" using z by (simp_all add: ring_distribs)
  show "of_nat (limbs D) * of_nat q = z" if "length D < n"
  proof -
    have l: "length oe \<le> ?j" "limbs D * q = x" using d that by (auto simp: x_def)
    have "(of_nat (Kr ^ ?j) :: rat) = of_nat (Kr ^ length oe) * of_nat (Kr ^ (?j - length oe))"
      unfolding of_nat_mult [symmetric] power_add [symmetric] le_add_diff_inverse [OF l(1)] ..
    then have "frac_val oe * of_nat (Kr ^ ?j) = of_nat (limbs oe * Kr ^ (?j - length oe))" by (simp add: frac_val_def)
    then have "z = of_nat x" unfolding x_def lim_pad_long [OF l(1)] by (simp add: z_def ring_distribs)
    then show ?thesis using l(2) by (metis of_nat_mult)
  qed
qed

section \<open>The limbs of the quotient\<close>

lemma exact_last:
  assumes "limbs D * b = limbs oe" "limbs_ok oe" "D \<noteq> []"
  shows "last D \<noteq> 0"
proof
  assume z: "last D = 0"
  have "D = butlast D @ [0]" using assms(3) z by (metis append_butlast_last_id)
  then have "limbs D = limbs (butlast D) * Kr" by (metis add_0_right limbs_snoc)
  moreover have "oe = butlast oe @ [last oe]" using assms(2) by (simp add: limbs_ok_def)
  then have "limbs oe = limbs (butlast oe) * Kr + last oe" by (metis limbs_snoc)
  ultimately have "limbs (butlast D) * b * Kr = limbs (butlast oe) * Kr + last oe"
    using assms(1) by (simp only: ac_simps)
  then have "last oe mod Kr = 0" by (metis mod_mult_self2_is_0 mod_mult_self3)
  moreover have "last oe < Kr" "last oe \<noteq> 0" using assms(2) by (auto simp: limbs_ok_def)
  ultimately show False by simp
qed

text \<open>The factor that makes the first limb of the divisor large.\<close>

lemma factor_large: "0 < v \<Longrightarrow> 1 < Kr div (v + 1) \<Longrightarrow> Kr \<le> 2 * (v * (Kr div (v + 1)))"
proof -
  define c where "c = Kr div (v + 1)"
  assume a: "0 < v" "1 < Kr div (v + 1)"
  have k: "Kr < (c + 1) * (v + 1)" using dividend_less_div_times [of "v + 1" Kr] by (simp add: c_def)
  show ?thesis
  proof (cases "v = 1")
    case True
    then show ?thesis by (simp add: Kr_def flip: numeral_2_eq_2)
  next
    case False
    then obtain v' c' where vc: "v = v' + 2" "c = c' + 2" using a unfolding c_def [symmetric]
      by (metis Suc_lessI One_nat_def add_2_eq_Suc' less_eqE Suc_le_eq add.commute numeral_2_eq_2)
    have "Kr \<le> c * v + c + v" using k by (simp add: algebra_simps)
    also have "\<dots> \<le> 2 * (v * c)" unfolding vc by (simp add: algebra_simps)
    finally show ?thesis by (simp add: c_def)
  qed
qed

lemma factor_one: "Kr div (v + 1) \<le> 1 \<Longrightarrow> Kr \<le> 2 * v"
proof -
  assume "Kr div (v + 1) \<le> 1"
  then have "Kr div (v + 1) < 2" by simp
  then have "Kr < 2 * (v + 1)" by (simp add: div_less_iff_less_mult)
  then show ?thesis unfolding Kr_def by arith
qed

text \<open>What division needs of the scaled numbers.\<close>

definition scaled_ok :: "nat list \<Rightarrow> nat list \<Rightarrow> nat \<Rightarrow> nat \<Rightarrow> nat list \<Rightarrow> nat list \<Rightarrow> bool" where
  "scaled_ok Q oe c \<delta> Q' oe' \<longleftrightarrow>
     0 < c \<and> \<delta> \<le> 1 \<and> canon Q' \<and> Kr \<le> 2 * hd Q' \<and> length Q' = length Q \<and> limbs Q' = limbs Q * c
     \<and> oe' \<noteq> [] \<and> hd oe' \<noteq> 0 \<and> (\<forall>a \<in> set oe'. a < Kr) \<and> length oe' = length oe + \<delta> \<and> limbs oe' = limbs oe * c
     \<and> (\<delta> = 1 \<longrightarrow> frac_val Q \<le> frac_val oe)"

lemma scaled:
  assumes "limbs_ok Q" "limbs_ok oe" "2 \<le> length Q"
    "(Q', oe') = (let c = Kr div (hd Q + 1) in if 1 < c then (scale Q c, scale oe c) else (Q, oe))"
  shows "\<exists>c \<delta>. scaled_ok Q oe c \<delta> Q' oe'"
proof (cases "1 < Kr div (hd Q + 1)")
  case False
  then have e: "Q' = Q" "oe' = oe" using assms(4) by (auto simp: Let_def)
  have "Kr \<le> 2 * hd Q" using False by (intro factor_one) simp
  then have "scaled_ok Q oe 1 0 Q' oe'" using assms(1,2) unfolding e by (simp add: scaled_ok_def limbs_ok_def canon_def)
  then show ?thesis by blast
next
  case True
  define c where "c = Kr div (hd Q + 1)"
  have e: "Q' = scale Q c" "oe' = scale oe c" using assms(4) True by (auto simp: Let_def c_def)
  note q = assms(1) [unfolded limbs_ok_def] and o = assms(2) [unfolded limbs_ok_def]
  let ?k = "length Q"
  have c: "1 < c" "c * (hd Q + 1) \<le> Kr" using True by (simp add: c_def) (simp only: c_def div_times_less_eq_dividend)
  have "c * 2 \<le> c * (hd Q + 1)" using q by (intro mult_le_mono2) simp
  then have cK: "c < Kr" using c by linarith
  note sQ = scale_correct [of Q c] and so = scale_correct [of oe c]
  have Q: "limbs Q' = limbs Q * c" "\<forall>a \<in> set Q'. a < Kr" using sQ q cK e by simp_all
  have oo: "limbs oe' = limbs oe * c" "\<forall>a \<in> set oe'. a < Kr" "length oe' = length oe \<or> length oe' = Suc (length oe) \<and> hd oe' \<noteq> 0"
    using so o cK e by simp_all
  have fQ: "hd Q * Kr ^ (?k - 1) \<le> limbs Q" "limbs Q < (hd Q + 1) * Kr ^ (?k - 1)" using limbs_first [of Q] q by auto
  have "limbs Q * c < (hd Q + 1) * Kr ^ (?k - 1) * c" using fQ(2) c by simp
  also have "\<dots> = c * (hd Q + 1) * Kr ^ (?k - 1)" by (simp only: ac_simps)
  also have "\<dots> \<le> Kr * Kr ^ (?k - 1)" using c(2) by (rule mult_le_mono1)
  also have "\<dots> = Kr ^ Suc (?k - 1)" by (rule power_Suc [symmetric])
  also have "Suc (?k - 1) = ?k" using assms(3) by simp
  finally have Qlt: "limbs Q' < Kr ^ ?k" unfolding Q(1) .
  have len: "length Q' = ?k"
  proof (rule ccontr)
    assume "length Q' \<noteq> ?k"
    then have "length Q' = Suc ?k" "hd Q' \<noteq> 0" using sQ(3) q cK e by auto
    then show False using limbs_ge [of "hd Q'" "tl Q'"] Qlt by (cases Q') auto
  qed
  have ne: "Q' \<noteq> []" "oe' \<noteq> []" using len q oo(3) o by auto
  have "hd Q * c * Kr ^ (?k - 1) \<le> limbs Q'" unfolding Q(1) using fQ(1) by (simp add: algebra_simps)
  also have "\<dots> < (hd Q' + 1) * Kr ^ (?k - 1)" using limbs_first [OF Q(2) ne(1)] len by simp
  finally have "hd Q * c < hd Q' + 1" by (simp only: mult_less_cancel2)
  then have big: "Kr \<le> 2 * hd Q'" using factor_large [of "hd Q"] q True by (simp add: c_def)
  have hd_oe: "hd oe' \<noteq> 0" if "length oe' = length oe"
  proof
    assume z: "hd oe' = 0"
    have "Kr ^ (length oe - 1) \<le> limbs oe" using assms(2) by (rule limbs_ok_ge)
    moreover have "limbs oe' < Kr ^ (length oe - 1)" using limbs_first [OF oo(2) ne(2)] z that by simp
    moreover have "limbs oe \<le> limbs oe * c" using c by simp
    ultimately show False using oo(1) by linarith
  qed
  have "frac_val Q \<le> frac_val oe" if l: "length oe' = Suc (length oe)" "hd oe' \<noteq> 0"
  proof -
    have "Kr ^ length oe \<le> limbs oe * c" unfolding oo(1) [symmetric] using limbs_ge [of "hd oe'" "tl oe'"] l ne by (cases oe') auto
    then have "(of_nat (Kr ^ length oe) :: rat) \<le> of_nat (limbs oe * c)" by (simp only: of_nat_le_iff)
    then have a: "1 \<le> frac_val oe * of_nat c" by (simp add: frac_val_def field_simps)
    have "(of_nat (limbs Q * c) :: rat) \<le> of_nat (Kr ^ ?k)" using Qlt unfolding Q(1) by (simp only: of_nat_le_iff less_imp_le)
    then have b: "frac_val Q * of_nat c \<le> 1" by (simp add: frac_val_def field_simps)
    show ?thesis using order_trans [OF b a] c by simp
  qed
  then have "scaled_ok Q oe c (length oe' - length oe) Q' oe'"
    using c Q oo len ne big hd_oe by (auto simp: scaled_ok_def canon_def)
  then show ?thesis by blast
qed

text \<open>The limbs of the quotient are those of the exact quotient \<open>frac_val oe / frac_val Q\<close>, from the limb \<open>\<delta>\<close> places
  before its point on.\<close>

definition div_ok :: "nat \<Rightarrow> rat \<Rightarrow> rat \<Rightarrow> nat \<Rightarrow> nat list \<Rightarrow> bool" where
  "div_ok n f g \<delta> D \<longleftrightarrow>
     \<delta> \<le> 1 \<and> (\<delta> = 1 \<longrightarrow> g \<le> f) \<and> D \<noteq> [] \<and> length D \<le> n \<and> (\<forall>a \<in> set D. a < Kr)
     \<and> of_nat (limbs D) * g * of_nat (Kr ^ \<delta>) \<le> f * of_nat (Kr ^ (length D - 1))
     \<and> f * of_nat (Kr ^ (length D - 1)) < (of_nat (limbs D) + 1) * g * of_nat (Kr ^ \<delta>)
     \<and> (length D < n \<longrightarrow> of_nat (limbs D) * g * of_nat (Kr ^ \<delta>) = f * of_nat (Kr ^ (length D - 1)) \<and> last D \<noteq> 0)"

lemma div_okI:
  fixes f g w :: rat
  assumes "quot_ok n q c oe D" "0 < q" "\<forall>a \<in> set oe. a < Kr" "\<delta> \<le> 1" "\<delta> = 1 \<longrightarrow> g \<le> f" "0 < w"
    "of_nat c + frac_val oe = f * w" "of_nat q = g * of_nat (Kr ^ \<delta>) * w" "length D < n \<Longrightarrow> last D \<noteq> 0"
  shows "div_ok n f g \<delta> D"
proof -
  note v = quot_ok_value [OF assms(1,2,3), unfolded assms(7,8)]
  let ?L = "of_nat (limbs D) :: rat" and ?K = "of_nat (Kr ^ (length D - 1)) :: rat" and ?d = "of_nat (Kr ^ \<delta>) :: rat"
  have "(?L * g * ?d) * w \<le> (f * ?K) * w" "(f * ?K) * w < ((?L + 1) * g * ?d) * w"
    using v(1,2) by (simp_all only: ac_simps)
  then have "?L * g * ?d \<le> f * ?K" "f * ?K < (?L + 1) * g * ?d" using assms(6) by (simp_all only: mult_le_cancel_right_pos mult_less_cancel_right_pos)
  moreover have "?L * g * ?d = f * ?K" if "length D < n"
  proof -
    have "(?L * g * ?d) * w = (f * ?K) * w" using v(3) [OF that] by (simp only: ac_simps)
    then show ?thesis using assms(6) by simp
  qed
  ultimately show ?thesis using assms(1,4,5,9) by (simp add: div_ok_def quot_ok_def)
qed

lemma div_limbs_correct:
  assumes "limbs_ok oe" "limbs_ok Q"
  shows "\<exists>\<delta>. div_ok (Suc n) (frac_val oe) (frac_val Q) \<delta> (div_limbs (Suc n) oe Q)"
proof (cases "length Q = 1")
  case True
  then obtain a where Q: "Q = [a]" by (cases Q) auto
  obtain b r where oe: "oe = b # r" using assms(1) by (cases oe) (auto simp: limbs_ok_def)
  let ?D = "div_limbs (Suc n) oe Q"
  have a: "0 < a" using assms(2) by (simp add: Q limbs_ok_def)
  have lt: "\<forall>x \<in> set oe. x < Kr" using assms(1) by (simp add: limbs_ok_def)
  have "?D = short_div (Suc n) oe a 0" unfolding div_limbs_def using Q by (simp del: short_div.simps)
  then have ok: "quot_ok (Suc n) a b r ?D" using short_div_correct [OF lt a, of n] oe by (simp add: head0_def del: short_div.simps)
  have "last ?D \<noteq> 0" if "length ?D < Suc n"
  proof (cases "Suc (length r) < length ?D")
    case False
    then have l: "length ?D - 1 = length r" using ok that by (auto simp: quot_ok_def)
    then have "limbs ?D * a = b * Kr ^ length r + lim_pad (length r) r" using ok that by (auto simp: quot_ok_def)
    then have "limbs ?D * a = limbs oe" by (simp add: lim_pad_long oe)
    then show ?thesis using ok assms(1) by (intro exact_last) (auto simp: quot_ok_def)
  qed (use ok that in \<open>auto simp: quot_ok_def\<close>)
  then have "div_ok (Suc n) (frac_val oe) (frac_val Q) 0 ?D"
    using lt a by (intro div_okI [OF ok, where w = "of_nat Kr"]) (simp_all add: oe Q)
  then show ?thesis ..
next
  case False
  then have k: "2 \<le> length Q" using assms(2) by (cases Q; cases "tl Q") (auto simp: limbs_ok_def)
  obtain Q' oe' where s: "(Q', oe') = (let c = Kr div (hd Q + 1) in if 1 < c then (scale Q c, scale oe c) else (Q, oe))"
    by (metis surj_pair)
  obtain c \<delta> where ok: "scaled_ok Q oe c \<delta> Q' oe'" using scaled [OF assms(2,1) k s] by blast
  note ok' = ok [unfolded scaled_ok_def]
  let ?k = "length Q'" and ?B = "if Kr \<le> 2 * Q' ! 1 then hd Q' + 1 else hd Q'"
  let ?C = "take ?k oe' @ replicate (?k - length oe') 0"
  let ?D = "div_limbs (Suc n) oe Q"
  have D: "?D = long_div (Suc n) Q' ?B ?C (drop ?k oe')"
    using False s unfolding div_limbs_def Let_def by (cases "1 < Kr div (hd Q + 1)") (simp_all del: long_div.simps)
  have k': "?k = length Q" using ok' by simp
  have lt: "\<forall>a \<in> set (drop ?k oe'). a < Kr" using ok' by (auto dest: in_set_dropD)
  have Qge: "Kr ^ (?k - 1) \<le> limbs Q'" using ok' k by (intro canon_bounds(2)) auto
  have q: "0 < limbs Q'" by (rule less_le_trans [OF zero_less_power [OF Kr_pos(1)] Qge])
  have C: "canon ?C"
  proof -
    obtain a r where o: "oe' = a # r" using ok' by (cases oe') auto
    obtain j where j: "?k = Suc j" using k k' by (metis Suc_le_D numeral_2_eq_2)
    have "?C = a # (take j r @ replicate (?k - length oe') 0)" by (simp only: o j take_Suc_Cons append_Cons)
    moreover have "\<forall>x \<in> set (take j r @ replicate (?k - length oe') 0). x < Kr"
      using ok' o by (auto dest: in_set_takeD)
    ultimately show ?thesis using ok' o by (simp only: canon_def) simp
  qed
  have sk: "Suc (?k - 1) = ?k" using k k' by simp
  have "limbs ?C < Kr ^ length ?C" using C by (rule canon_bounds(1))
  also have "length ?C = ?k" by simp
  also have "Kr ^ ?k = Kr ^ (?k - 1) * Kr" using sk by (metis power_Suc2)
  also have "\<dots> \<le> limbs Q' * Kr" using Qge by (rule mult_le_mono1)
  finally have "div_ready Q' ?B ?C" using ok' C k by (simp add: div_ready_def)
  then have quo: "quot_ok (Suc n) (limbs Q') (limbs ?C) (drop ?k oe') ?D" unfolding D by (rule long_div_correct) (rule lt)
  have "last ?D \<noteq> 0" if m: "length ?D < Suc n"
  proof (cases "Suc (length (drop ?k oe')) < length ?D")
    case True
    then show ?thesis using quo m by (auto simp: quot_ok_def)
  next
    case False
    moreover have "length (drop ?k oe') < length ?D" using quo m unfolding quot_ok_def by blast
    ultimately have l: "length ?D - 1 = length (drop ?k oe')" by linarith
    then have e: "limbs ?D * limbs Q' = limbs ?C * Kr ^ length (drop ?k oe') + limbs (drop ?k oe')"
      using quo m by (auto simp: quot_ok_def lim_pad_long)
    show ?thesis
    proof (cases "?k \<le> length oe'")
      case True
      then have "limbs ?C * Kr ^ length (drop ?k oe') + limbs (drop ?k oe') = limbs (take ?k oe' @ drop ?k oe')"
        unfolding limbs_append by simp
      then have "limbs ?D * limbs Q * c = limbs oe * c" using e ok' by (simp add: mult.assoc)
      then have "limbs ?D * limbs Q = limbs oe" using ok' by simp
      then show ?thesis using quo assms(1) by (intro exact_last) (auto simp: quot_ok_def)
    next
      case False
      then have "length ?D = 1" using l quo by (cases ?D) (auto simp: quot_ok_def)
      then obtain d where d: "?D = [d]" by (cases ?D) auto
      have "limbs ?C \<noteq> 0" using C k k' limbs_ge [of "hd ?C" "tl ?C"] by (cases ?C) (auto simp: canon_def Kr_def)
      then have "d * limbs Q' \<noteq> 0" using e False d by simp
      then show ?thesis using d by simp
    qed
  qed
  moreover have "of_nat (limbs ?C) + frac_val (drop ?k oe') = frac_val oe * (of_nat c * of_nat (Kr ^ ?k) / of_nat (Kr ^ \<delta>))"
  proof -
    have "frac_val oe' = frac_val oe * of_nat c / of_nat (Kr ^ \<delta>)" using ok' by (simp add: frac_val_def power_add)
    then show ?thesis unfolding frac_val_take [symmetric] by simp
  qed
  moreover have "of_nat (limbs Q') = frac_val Q * of_nat (Kr ^ \<delta>) * (of_nat c * of_nat (Kr ^ ?k) / of_nat (Kr ^ \<delta>))"
    using ok' by (simp add: frac_val_def)
  ultimately have "div_ok (Suc n) (frac_val oe) (frac_val Q) \<delta> ?D"
    using lt q ok' by (intro div_okI [OF quo, where w = "of_nat c * of_nat (Kr ^ ?k) / of_nat (Kr ^ \<delta>)"]) auto
  then show ?thesis ..
qed

end
