(* ===== verification/Decimal_Div.thy ===== *)
theory Decimal_Div
  imports Decimal_Quotient
begin

text \<open>
  The quotient of two decimal numbers is the exact quotient, truncated to the digits that were asked for; the remainder that is
  computed from it is exact up to the final truncation.
\<close>

section \<open>The leading limb\<close>

lemma larger_lead_correct:
  "\<forall>a \<in> set Q. a < Kr \<Longrightarrow> \<forall>a \<in> set oe. a < Kr \<Longrightarrow> larger_lead Q oe \<longleftrightarrow> frac_val oe < frac_val Q"
proof (induction Q arbitrary: oe)
  case Nil
  then show ?case using frac_val_nonneg [of oe] by (simp add: not_less)
next
  case (Cons q Q)
  have lt: "\<forall>a \<in> set (tl oe). a < Kr" using Cons.prems(2) by (cases oe) auto
  have f: "frac_val oe = (of_nat (head0 oe) + frac_val (tl oe)) / of_nat Kr" by (cases oe) (simp_all add: head0_def)
  have e: "frac_val oe < frac_val (q # Q) \<longleftrightarrow> of_nat (head0 oe) + frac_val (tl oe) < of_nat q + frac_val Q"
    unfolding f by (simp add: divide_less_cancel)
  have b: "0 \<le> frac_val (tl oe)" "frac_val (tl oe) < 1" "0 \<le> frac_val Q" "frac_val Q < 1"
    using frac_val_less lt Cons.prems(1) by auto
  consider "head0 oe = q" | "head0 oe < q" | "q < head0 oe" by linarith
  then show ?case
  proof cases
    case 1
    then show ?thesis using Cons.IH [of "tl oe"] Cons.prems(1) lt e by (simp add: Let_def)
  next
    case 2
    then have "(of_nat (Suc (head0 oe)) :: rat) \<le> of_nat q" by (simp only: of_nat_le_iff)
    then have "of_nat (head0 oe) + frac_val (tl oe) < of_nat q + frac_val Q" using b unfolding of_nat_Suc by linarith
    then show ?thesis using 2 unfolding e by (simp add: Let_def)
  next
    case 3
    then have "(of_nat (Suc q) :: rat) \<le> of_nat (head0 oe)" by (simp only: of_nat_le_iff)
    then have "\<not> of_nat (head0 oe) + frac_val (tl oe) < of_nat q + frac_val Q" using b unfolding of_nat_Suc by linarith
    then show ?thesis using 3 unfolding e by (simp add: Let_def)
  qed
qed

lemma frac_val_ge: "limbs_ok d \<Longrightarrow> 1 / of_nat Kr \<le> frac_val d"
proof -
  assume "limbs_ok d"
  then have "Kr ^ (length d - 1) \<le> limbs d" "d \<noteq> []" using limbs_ok_ge by (auto simp: limbs_ok_def)
  then have "Kr ^ length d \<le> limbs d * Kr" by (cases d) auto
  then have "(of_nat (Kr ^ length d) :: rat) \<le> of_nat (limbs d * Kr)" by (simp only: of_nat_le_iff)
  then show ?thesis by (simp add: frac_val_def field_simps)
qed

lemma limbs_leadI: "D \<noteq> [] \<Longrightarrow> \<forall>a \<in> set D. a < Kr \<Longrightarrow> of_nat (Kr ^ (length D - 1)) < (of_nat (limbs D) + 1 :: rat) \<Longrightarrow> hd D \<noteq> 0"
proof -
  assume a: "D \<noteq> []" "\<forall>a \<in> set D. a < Kr" "of_nat (Kr ^ (length D - 1)) < (of_nat (limbs D) + 1 :: rat)"
  then have "(of_nat (Kr ^ (length D - 1)) :: rat) < of_nat (limbs D + 1)" by simp
  then have "Kr ^ (length D - 1) < limbs D + 1" by (simp only: of_nat_less_iff)
  then show ?thesis using a(1,2) by (intro limbs_lead) auto
qed

lemma limbs_zero_head: "D \<noteq> [] \<Longrightarrow> hd D \<noteq> 0 \<Longrightarrow> of_nat (Kr ^ (length D - 1)) \<le> (of_nat (limbs D) :: rat)"
  using limbs_ge [of "hd D" "tl D"] by (cases D) (simp_all only: of_nat_le_iff, auto)

lemma unit_bounds: "0 < U \<Longrightarrow> l \<le> x \<Longrightarrow> x < l + 1 \<Longrightarrow> l * U \<le> x * U \<and> x * U < l * U + U" for U :: rat
  using mult_strict_right_mono [of x "l + 1" U] by (auto simp: ring_distribs)

text \<open>The limbs of the quotient with its exponent: the exact quotient \<open>q\<close> is at most one unit of the last limb larger.\<close>

lemma quotient_limbs:
  fixes e :: int
  assumes "limbs_ok oe" "limbs_ok Q" "1 \<le> n"
  defines "D \<equiv> div_limbs (Suc n) oe Q"
  defines "D' \<equiv> (if hd D = 0 then tl D else D)" and "e' \<equiv> e - (if larger_lead Q oe then 1 else 0)"
  defines "q \<equiv> frac_val oe / frac_val Q * base_pow e" and "U \<equiv> base_pow (e' - int (length D') + 1)"
  shows "lead_ok D' \<and> magnitude D' e' \<le> q \<and> q < magnitude D' e' + U \<and> (n \<le> length D' \<or> last D' \<noteq> 0 \<and> magnitude D' e' = q)"
proof -
  let ?f = "frac_val oe" and ?g = "frac_val Q"
  define m where "m = length D - 1"
  obtain \<delta> where "div_ok (Suc n) ?f ?g \<delta> D" using div_limbs_correct [OF assms(1,2)] unfolding D_def by blast
  note d = this [unfolded div_ok_def, folded m_def]
  have lt: "\<forall>a \<in> set oe. a < Kr" "\<forall>a \<in> set Q. a < Kr" using assms(1,2) by (auto simp: limbs_ok_def)
  have g: "0 < ?g" "?g < 1" using frac_val_pos frac_val_less lt assms(2) by (auto simp: limbs_ok_def)
  have f: "0 < ?f" "?f < 1" using frac_val_pos frac_val_less lt assms(1) by (auto simp: limbs_ok_def)
  define \<rho> where "\<rho> = ?f / ?g"
  have less: "larger_lead Q oe \<longleftrightarrow> \<rho> < 1" using larger_lead_correct lt g by (simp add: \<rho>_def)
  have up: "\<rho> < of_nat Kr" using frac_val_ge [OF assms(2)] f g by (simp add: \<rho>_def field_simps)
  have low: "1 < \<rho> * of_nat Kr" using frac_val_ge [OF assms(1)] f g by (simp add: \<rho>_def field_simps)
  have L: "of_nat (limbs D) * of_nat (Kr ^ \<delta>) \<le> \<rho> * of_nat (Kr ^ m)"
    "\<rho> * of_nat (Kr ^ m) < (of_nat (limbs D) + 1) * of_nat (Kr ^ \<delta>)"
    "length D < Suc n \<Longrightarrow> of_nat (limbs D) * of_nat (Kr ^ \<delta>) = \<rho> * of_nat (Kr ^ m)"
    using d g by (auto simp: \<rho>_def field_simps)
  have K: "(0 :: rat) < of_nat (Kr ^ j)" for j by simp
  have m1: "\<delta> = 1 \<or> \<rho> < 1 \<Longrightarrow> 1 \<le> m"
  proof (rule ccontr)
    assume a: "\<delta> = 1 \<or> \<rho> < 1" "\<not> 1 \<le> m"
    then have m0: "m = 0" by linarith
    then have "length D < Suc n" using d assms(3) by (cases D) (auto simp: m_def)
    then have e: "of_nat (limbs D) * of_nat (Kr ^ \<delta>) = \<rho>" using L(3) m0 by simp
    have r: "0 < \<rho>" using f g by (simp add: \<rho>_def)
    have "limbs D \<noteq> 0" using e r by (cases "limbs D = 0") auto
    then have "1 * of_nat (Kr ^ \<delta>) \<le> \<rho>" unfolding e [symmetric] by (intro mult_right_mono) simp_all
    moreover have "\<delta> = 0 \<or> \<delta> = 1" using d by linarith
    ultimately show False using a(1) up by auto
  qed
  have D: "D \<noteq> []" "length D = Suc m" "\<forall>a \<in> set D. a < Kr" using d by (auto simp: m_def)
  obtain b r where br: "D = b # r" using D by (cases D) auto
  show ?thesis
  proof (cases "\<delta> = 1 \<or> \<rho> < 1")
    case False
    then have c: "\<delta> = 0" "1 \<le> \<rho>" using d by (auto simp: not_less)
    have "1 * of_nat (Kr ^ m) \<le> \<rho> * of_nat (Kr ^ m)" using c(2) by (intro mult_right_mono) simp_all
    moreover have "\<rho> * of_nat (Kr ^ m) < of_nat (limbs D) + 1" using L(2) c(1) by simp
    moreover have l: "length D - 1 = m" using D(2) by simp
    ultimately have "of_nat (Kr ^ (length D - 1)) < (of_nat (limbs D) + 1 :: rat)" unfolding l by linarith
    then have "hd D \<noteq> 0" using D by (intro limbs_leadI)
    then have D': "D' = D" "e' = e" using c less by (simp_all add: D'_def e'_def)
    have b: "base_pow e = of_nat (Kr ^ m) * base_pow (e - int m)"
      unfolding base_pow_nat [symmetric] base_pow_add [symmetric] by simp
    have "U = base_pow (e - int m)" "magnitude D' e' = of_nat (limbs D) * base_pow (e - int m)"
      by (simp_all add: U_def D' D magnitude_def)
    then have u: "magnitude D' e' = of_nat (limbs D) * U" "0 < U" by simp_all
    moreover have q: "q = (\<rho> * of_nat (Kr ^ m)) * U" unfolding q_def b \<rho>_def \<open>U = _\<close> by simp
    moreover have "of_nat (limbs D) \<le> \<rho> * of_nat (Kr ^ m)" "\<rho> * of_nat (Kr ^ m) < of_nat (limbs D) + 1"
      "length D < Suc n \<Longrightarrow> of_nat (limbs D) = \<rho> * of_nat (Kr ^ m)" using L c by simp_all
    moreover have "lead_ok D'" "n \<le> length D' \<or> length D < Suc n" "length D < Suc n \<Longrightarrow> last D' \<noteq> 0"
      using D \<open>hd D \<noteq> 0\<close> d by (auto simp: lead_ok_def D')
    ultimately show ?thesis using unit_bounds [of U] by metis
  next
    case True
    obtain j where j: "m = Suc j" using m1 [OF True] by (cases m) auto
    have r: "r \<noteq> []" "length r = Suc j" using D j br by auto
    define \<kappa> where "\<kappa> = (if \<delta> = 1 then 1 else of_nat Kr :: rat)"
    have k: "0 < \<kappa>" "of_nat (Kr ^ m) = \<kappa> * of_nat (Kr ^ j) * of_nat (Kr ^ \<delta>)" using d j by (auto simp: \<kappa>_def le_Suc_eq)
    have L': "of_nat (limbs D) \<le> \<rho> * \<kappa> * of_nat (Kr ^ j)" "\<rho> * \<kappa> * of_nat (Kr ^ j) < of_nat (limbs D) + 1"
      "length D < Suc n \<Longrightarrow> of_nat (limbs D) = \<rho> * \<kappa> * of_nat (Kr ^ j)"
      using L K [of \<delta>] unfolding k(2) by (simp_all only: mult.assoc [symmetric] mult_le_cancel_right_pos mult_less_cancel_right_pos mult_cancel_right) simp_all
    have \<rho>\<kappa>: "1 \<le> \<rho> * \<kappa>" "\<rho> * \<kappa> < of_nat Kr" using True up low d g by (auto simp: \<kappa>_def \<rho>_def field_simps)
    have "\<rho> * \<kappa> * of_nat (Kr ^ j) < of_nat (Kr ^ m)"
      unfolding j power_Suc of_nat_mult using mult_strict_right_mono [OF \<rho>\<kappa>(2) K [of j]] .
    moreover have l: "length D - 1 = m" using D(2) by simp
    ultimately have "hd D = 0" using L'(1) limbs_zero_head [OF D(1)] unfolding l by linarith
    then have b0: "b = 0" by (simp add: br)
    have "1 * of_nat (Kr ^ j) \<le> \<rho> * \<kappa> * of_nat (Kr ^ j)" using \<rho>\<kappa>(1) by (intro mult_right_mono) simp_all
    moreover have l: "length r - 1 = j" "limbs D = limbs r" using r(2) br b0 by simp_all
    ultimately have "of_nat (Kr ^ (length r - 1)) < (of_nat (limbs r) + 1 :: rat)" using L'(2) unfolding l by linarith
    then have "hd r \<noteq> 0" using D r(1) br by (intro limbs_leadI) auto
    have D': "D' = r" "limbs r = limbs D" by (simp_all add: D'_def br b0)
    have e': "e' = e - (if \<delta> = 1 then 0 else 1)"
    proof (cases "\<delta> = 1")
      case True
      then have "1 \<le> \<rho>" using d g by (simp add: \<rho>_def)
      then show ?thesis using True less by (simp add: e'_def)
    qed (use \<open>\<delta> = 1 \<or> \<rho> < 1\<close> less in \<open>simp add: e'_def\<close>)
    have b: "base_pow e = \<kappa> * of_nat (Kr ^ j) * U"
    proof -
      have "base_pow e = base_pow (if \<delta> = 1 then 0 else 1) * base_pow (int j) * base_pow (e' - int j)"
        unfolding base_pow_add [symmetric] by (simp add: e')
      moreover have "base_pow (if \<delta> = 1 then 0 else 1) = \<kappa>" by (simp add: \<kappa>_def base_pow_def)
      ultimately show ?thesis by (simp add: U_def D' r base_pow_nat del: of_nat_power)
    qed
    have "magnitude D' e' = of_nat (limbs D) * U" by (simp add: magnitude_def U_def D')
    moreover have "q = (\<rho> * \<kappa> * of_nat (Kr ^ j)) * U" unfolding q_def b \<rho>_def by (simp only: ac_simps)
    moreover have "0 < U" by (simp add: U_def)
    moreover have "n \<le> length D' \<or> length D < Suc n" using r D j D' by auto
    moreover have "length D < Suc n \<Longrightarrow> last r \<noteq> 0" using d br r by auto
    moreover have "lead_ok D'" using D \<open>hd r \<noteq> 0\<close> r br by (auto simp: lead_ok_def D')
    ultimately show ?thesis using L' unit_bounds [of U] unfolding D'(1) by metis
  qed
qed

section \<open>Truncation\<close>

text \<open>Zeros at the end do not change what truncation gives.\<close>

lemma pop_zeros_append [simp]: "pop_zeros (d @ replicate n 0) = pop_zeros d"
  unfolding pop_zeros_def by (induction n) (simp_all add: replicate_app_Cons_same)

lemma pop_zeros_id: "d = [] \<or> last d \<noteq> 0 \<Longrightarrow> pop_zeros d = d"
  by (cases d rule: rev_cases) (simp_all add: pop_zeros_def)

lemma truncate_trailing:
  assumes "lead_ok (d_d w)" "d_s w = 1 \<or> d_s w = -1" "find_cut (d_d w) t \<noteq> None" "xn ext w t None = Inr r"
  defines "w0 \<equiv> w\<lparr>d_d := pop_zeros (d_d w)\<rparr>"
  shows "dec_ok w0 \<and> dval w0 = dval w \<and> exponent w0 = exponent w \<and> xn ext w0 t None = Inr r"
proof -
  let ?S = "pop_zeros (d_d w)"
  obtain n where n: "d_d w = ?S @ replicate n 0" using pop_zeros_split by blast
  have ok: "limbs_ok ?S" using pop_zeros_ok [of "d_d w"] assms(1) by (simp add: lead_ok_def)
  then have S: "?S \<noteq> []" "last ?S \<noteq> 0" "hd ?S \<noteq> 0" by (auto simp: limbs_ok_def)
  have hd: "hd (d_d w) = hd ?S" using n S(1) by (metis hd_append2)
  obtain k where k: "find_cut (d_d w) t = Some k" using assms(3) by auto
  have up: "\<not> cut_up None neg D t c" for neg D c by (simp add: cut_up_def round_up_def Let_def)
  have "xn ext w0 t None = Inr r"
  proof (cases "t < 1")
    case True
    have "find_cut ?S t \<noteq> None" using True count10_pos [of "hd ?S"] by (auto simp: find_cut_def Let_def simp del: count10_pos)
    then show ?thesis using assms(4) True k up by (auto simp: xn_def w0_def tiny_def Let_def)
  next
    case False
    show ?thesis
    proof (cases "find_cut ?S t")
      case None
      let ?O = "nat ((t - int (count10 (hd ?S)) + 7) div 7)"
      have i: "\<not> t < int (count10 (hd ?S))" "length ?S \<le> ?O"
        using None by (auto simp: find_cut_def Let_def qn_def split: if_splits)
      have lt: "?O < length (d_d w)" using k i hd by (auto simp: find_cut_def Let_def qn_def split: if_splits)
      then have b: "d_d w ! ?O = 0" using i(2) n by (metis length_append length_replicate nth_append nth_replicate not_less add_less_cancel_left le_add_diff_inverse)
      have k': "ct_O k = ?O" "ct_b k = 0" using k i hd lt b by (auto simp: find_cut_def Let_def qn_def split: if_splits)
      define j where "j = min n (?O - length ?S)"
      have "take ?O (d_d w) = ?S @ replicate j 0" using i(2) by (subst n) (simp add: j_def take_replicate min.commute)
      then have "fst (kept (d_d w) k) = ?S @ replicate j 0 \<or> fst (kept (d_d w) k) = ?S @ replicate (Suc j) 0"
        by (simp add: kept_def k' Let_def replicate_append_same)
      then have "pop_zeros (fst (kept (d_d w) k)) = ?S"
        using pop_zeros_id [of ?S] S by (auto simp only: pop_zeros_append simp_thms)
      then have "r = w0"
        using assms(4) k up False S hd by (auto simp: xn_def w0_def Let_def case_prod_beta' dest: check_exponent_Inr)
      then show ?thesis using None by (simp add: xn_def w0_def)
    next
      case (Some k')
      have e: "find_cut ?S t = find_cut (d_d w) t"
      proof (cases "t < int (count10 (hd ?S))")
        case False
        let ?O = "nat ((t - int (count10 (hd ?S)) + 7) div 7)"
        have lt: "?O < length ?S" using Some False by (auto simp: find_cut_def Let_def qn_def split: if_splits)
        then have "d_d w ! ?O = ?S ! ?O" "?O < length (d_d w)" using n by (metis nth_append, metis length_append trans_less_add1)
        then show ?thesis using False lt hd by (simp add: find_cut_def Let_def qn_def)
      qed (simp add: find_cut_def Let_def hd)
      have "ct_O k < length ?S" using find_cut_ok [OF ok _ Some] e k Some False by (auto simp: cut_ok_def)
      then have "take (ct_O k) (d_d w) = take (ct_O k) ?S" by (subst n) simp
      then have "kept ?S k = kept (d_d w) k" by (simp add: kept_def)
      then show ?thesis using assms(4) k e up False S hd by (simp add: xn_def w0_def Let_def case_prod_beta')
    qed
  qed
  moreover have "exponent w0 = exponent w" by (simp add: exponent_def w0_def hd)
  moreover have "dec_ok w0" using ok assms(2) by (simp add: dec_ok_def w0_def)
  ultimately show ?thesis by (simp add: w0_def dval_def)
qed

text \<open>What division makes of the limbs of the quotient.\<close>

lemma truncate_quotient:
  assumes "lead_ok (d_d w)" "d_s w = 1 \<or> d_s w = -1" "xn ext w t None = Inr r"
  defines "m \<equiv> magnitude (d_d w) (d_e w)"
  assumes "m \<le> q" "q < m + base_pow (d_e w - int (length (d_d w)) + 1)"
    "t < 7 * (int n - 1) \<and> n \<le> length (d_d w) \<or> last (d_d w) \<noteq> 0 \<and> m = q"
  shows "dec_ok r \<and> dval r = of_int (d_s w * \<lfloor>q / digit_unit w t\<rfloor>) * digit_unit w t
    \<and> ten (exponent w) \<le> q \<and> q < ten (exponent w + 1)"
proof -
  let ?d = "d_d w" and ?u = "digit_unit w t" and ?U = "base_pow (d_e w - int (length (d_d w)) + 1)"
  have q: "ten (exponent w) \<le> q" "q < ten (exponent w + 1)" using exponent_bounds [OF assms(1)] assms(5,6) unfolding m_def by linarith+
  have abs: "\<bar>dval w\<bar> = m" using assms(2) by (auto simp: dval_def m_def abs_mult)
  have main: "dec_ok r \<and> dval r = of_int (d_s w * \<lfloor>m / ?u\<rfloor>) * ?u"
    if "dec_ok w0" "d_s w0 = d_s w" "dval w0 = dval w" "exponent w0 = exponent w" "xn ext w0 t None = Inr r" for w0
  proof -
    have "d_s w0 \<noteq> 0" using that(2) assms(2) by auto
    then show ?thesis using xn_rounds [OF that(1) _ _ that(5)] that abs
      by (simp add: modes_ok_def round_spec_def in_units_def digit_unit_def)
  qed
  show ?thesis
  proof (cases "last ?d \<noteq> 0 \<and> m = q")
    case True
    then have "dec_ok w" using assms(1,2) by (simp add: dec_ok_def limbs_ok_lead)
    then show ?thesis using main [of w] assms(3) True q by simp
  next
    case False
    then have t: "t < 7 * (int n - 1)" "n \<le> length ?d" using assms(7) by auto
    let ?h = "int (count10 (hd ?d))"
    have h: "1 \<le> ?h" using count10_pos [of "hd ?d"] by linarith
    have nl: "int n \<le> int (length ?d)" using t(2) by simp
    have l: "t - ?h + 7 < 7 * int (length ?d)"
    proof -
      have "a < 7 * (b - 1) \<Longrightarrow> 1 \<le> c \<Longrightarrow> b \<le> e \<Longrightarrow> a - c + 7 < 7 * e" for a b c e :: int by presburger
      from this [OF t(1) h nl] show ?thesis .
    qed
    then have "(t - ?h + 7) div 7 < int (length ?d)" by (simp add: div_less_iff_less_mult mult.commute)
    then have "find_cut ?d t \<noteq> None"
      using assms(1) by (auto simp: find_cut_def Let_def qn_def lead_ok_def nat_less_iff not_le)
    let ?w = "w\<lparr>d_d := pop_zeros ?d\<rparr>"
    have w0: "dec_ok ?w" "dval ?w = dval w" "exponent ?w = exponent w" "xn ext ?w t None = Inr r"
      using truncate_trailing [OF assms(1,2) \<open>find_cut ?d t \<noteq> None\<close> assms(3)] by blast+
    have r: "dec_ok r \<and> dval r = of_int (d_s w * \<lfloor>m / ?u\<rfloor>) * ?u" by (rule main [OF w0(1) _ w0(2-4)]) simp
    have "0 \<le> 7 * (int (length ?d) - 1) + ?h - t" using l by simp
    then obtain j where j: "7 * (int (length ?d) - 1) + ?h - t = int j" by (rule nonneg_int_cases)
    have u: "?u = of_nat (10 ^ j) * ?U"
      unfolding ten_nat [symmetric] base_pow_ten ten_add [symmetric] digit_unit_def j [symmetric] by (simp add: exponent_def qn_def algebra_simps)
    have "\<lfloor>m / ?u\<rfloor> = \<lfloor>q / ?u\<rfloor>"
      using assms(5,6) unfolding u m_def magnitude_def by (intro floor_coarse) simp_all
    then show ?thesis using r q by simp
  qed
qed

lemma ns_correct:
  assumes "dec_ok x" "dec_ok y" "d_s y \<noteq> 0" "ns ext S x y s h = Inr r" "d_s x \<noteq> 0"
  defines "p \<equiv> (case s of None \<Rightarrow> int (st_precision S) | Some p \<Rightarrow> p)"
  assumes "if h then s \<noteq> None else 1 \<le> p"
  shows "dec_ok r \<and> (if h then dval r = truncated (ten (- p)) (dval x / dval y)
    else \<exists>E. ten E \<le> \<bar>dval x / dval y\<bar> \<and> \<bar>dval x / dval y\<bar> < ten (E + 1)
      \<and> dval r = truncated (ten (E - p + 1)) (dval x / dval y))"
proof -
  note ok = dec_ok_limbs [OF assms(1,5)] dec_ok_limbs [OF assms(2,3)]
  define q where "q = frac_val (d_d x) / frac_val (d_d y) * base_pow (d_e x - d_e y)"
  have pos: "0 < magnitude (d_d x) (d_e x)" "0 < magnitude (d_d y) (d_e y)" using ok magnitude_pos by auto
  have qe: "q = magnitude (d_d x) (d_e x) / magnitude (d_d y) (d_e y)"
  proof -
    have "base_pow (d_e x + 1) = base_pow (d_e x - d_e y) * base_pow (d_e y + 1)" unfolding base_pow_add [symmetric] by simp
    then show ?thesis by (simp add: q_def magnitude_scale)
  qed
  define sg where "sg = (if d_s x = d_s y then 1 else -1 :: int)"
  have val: "dval x / dval y = of_int sg * q" using ok by (auto simp: qe dval_def sg_def)
  have q0: "0 < q" using pos by (simp add: qe)
  have aq: "\<bar>dval x / dval y\<bar> = q" "sgn (dval x / dval y) = of_int sg" using q0 by (auto simp: val sg_def abs_mult sgn_mult)
  have Lead: "lead_ok (d_d x)" "lead_ok (d_d y)" using ok by (auto simp: limbs_ok_lead)
  note ex = exponent_bounds(1) [OF Lead(1)] order_less_le_trans [OF less_add_same_cancel1 [THEN iffD2, OF base_pow_pos] exponent_bounds(2) [OF Lead(1)]]
  note ey = exponent_bounds(1) [OF Lead(2)]
  have qlt: "q < ten (exponent x - exponent y + 1)"
  proof -
    have "magnitude (d_d x) (d_e x) < ten (exponent x - exponent y + 1) * ten (exponent y)"
      unfolding ten_add [symmetric] using ex(2) by (simp add: algebra_simps)
    also have "\<dots> \<le> ten (exponent x - exponent y + 1) * magnitude (d_d y) (d_e y)"
      using ey by (intro mult_left_mono) (simp_all add: less_imp_le)
    finally show ?thesis unfolding qe using pos by (simp add: divide_less_eq)
  qed
  define L where "L = (if h then p + (exponent x - exponent y) + 1 else p)"
  have pL: "(case s of None \<Rightarrow> (int (st_precision S), int (st_precision S))
      | Some p \<Rightarrow> (p, if h then p + (exponent x - exponent y) + 1 else p)) = (p, L)"
    using assms(7) by (cases s) (auto simp: p_def L_def split: if_splits)
  show ?thesis
  proof (cases "L < 0")
    case True
    then have h: "h" using assms(7) True unfolding L_def by (cases h) auto
    have r: "r = zero_decimal"
      using assms(4) unfolding ns_def pL prod.case Let_def if_not_P [OF assms(5)] if_not_P [OF assms(3)] if_P [OF True] by simp
    have "ten (exponent x - exponent y + 1) \<le> ten (- p)"
      using True h unfolding ten_def L_def by (intro power_int_increasing) auto
    then have "q / ten (- p) < 1" using qlt by (simp add: divide_less_eq)
    then have "\<lfloor>q / ten (- p)\<rfloor> = 0" using q0 by (simp add: floor_eq_iff less_imp_le)
    then show ?thesis using h r aq by (simp add: truncated_def dec_ok_def)
  next
    case False
    define n where "n = nat (L div 7) + 2"
    define D where "D = div_limbs (Suc n) (d_d x) (d_d y)"
    define w where "w = \<lparr>d_s = sg, d_e = d_e x - d_e y - (if larger_lead (d_d y) (d_d x) then 1 else 0),
      d_d = (if hd D = 0 then tl D else D)\<rparr>"
    define t where "t = (if h then p + exponent w + 1 else p)"
    have code: "xn ext w t None = Inr r"
    proof -
      have n3: "nat (L div int qn) + 3 = Suc n" by (simp add: n_def qn_def)
      have "ns ext S x y s h = xn ext w t None"
        unfolding ns_def pL prod.case Let_def if_not_P [OF assms(5)] if_not_P [OF assms(3)] if_not_P [OF False] n3
          D_def [symmetric] sg_def [symmetric] w_def [symmetric] t_def [symmetric] ..
      then show ?thesis using assms(4) by simp
    qed
    note ql = quotient_limbs [of "d_d x" "d_d y" n "d_e x - d_e y", folded D_def q_def]
    have W: "lead_ok (d_d w)" "magnitude (d_d w) (d_e w) \<le> q"
      "q < magnitude (d_d w) (d_e w) + base_pow (d_e w - int (length (d_d w)) + 1)"
      "n \<le> length (d_d w) \<or> last (d_d w) \<noteq> 0 \<and> magnitude (d_d w) (d_e w) = q"
      using ql ok by (simp_all add: w_def n_def)
    have ws: "d_s w = 1 \<or> d_s w = -1" by (simp add: w_def sg_def)
    have "ten (exponent w) \<le> q" using exponent_bounds(1) [OF W(1)] W(2) by linarith
    then have "ten (exponent w) < ten (exponent x - exponent y + 1)" using qlt by linarith
    moreover have "ten (exponent x - exponent y + 1) \<le> ten (exponent w)" if "exponent x - exponent y + 1 \<le> exponent w"
      unfolding ten_def using that by (intro power_int_increasing) simp_all
    ultimately have "exponent w < exponent x - exponent y + 1" by (meson not_le)
    then have "t \<le> L" by (simp add: t_def L_def)
    moreover have "L < 7 * (L div 7) + 7" by presburger
    ultimately have "t < 7 * (int n - 1)" using False by (simp add: n_def)
    then have R: "dec_ok r \<and> dval r = of_int (d_s w * \<lfloor>q / digit_unit w t\<rfloor>) * digit_unit w t
        \<and> ten (exponent w) \<le> q \<and> q < ten (exponent w + 1)"
      using truncate_quotient [OF W(1) ws code W(2,3)] W(4) by blast
    have "digit_unit w t = (if h then ten (- p) else ten (exponent w - p + 1))" by (simp add: digit_unit_def t_def)
    then show ?thesis using R aq by (auto simp: truncated_def w_def intro!: exI [of _ "exponent w"])
  qed
qed

section \<open>The operations\<close>

lemma ns_errors:
  "ns ext S x y s h = Inl er \<Longrightarrow> er = DivisionByZero \<and> d_s x \<noteq> 0 \<and> d_s y = 0 \<or> ext \<and> d_s y \<noteq> 0 \<and> (\<exists>e. er = OutOfRange e)"
  unfolding ns_def Let_def case_prod_beta' using xn_errors [of ext] by (auto split: if_splits option.splits)

lemma ns_precision:
  assumes "dec_ok x" "dec_ok y" "1 \<le> st_precision S" "ns ext S x y None False = Inr r"
  shows "dec_ok r \<and> to_precision S (dval x / dval y) (dval r)"
proof (cases "d_s x = 0")
  case True
  then have "r = x" "x = zero_decimal" using assms by (auto simp: ns_def dec_ok_def)
  then show ?thesis by (simp add: dec_ok_def)
next
  case False
  then have y: "d_s y \<noteq> 0" using assms(4) by (auto simp: ns_def)
  show ?thesis using ns_correct [OF assms(1,2) y assms(4) False] assms(3) by (auto simp: to_precision_def)
qed

lemma ns_integer:
  assumes "dec_ok x" "dec_ok y" "d_s y \<noteq> 0" "ns ext S x y (Some 0) True = Inr r"
  shows "dec_ok r \<and> dval r = truncated 1 (dval x / dval y)"
proof (cases "d_s x = 0")
  case True
  then have "r = x" "x = zero_decimal" using assms by (auto simp: ns_def dec_ok_def)
  then show ?thesis by (simp add: dec_ok_def truncated_def)
next
  case False
  show ?thesis using ns_correct [OF assms(1-4) False] by simp
qed

text \<open>C10: Division truncates correctly. A result of \<open>div\<close> is the exact quotient truncated to the precision, for numbers of any length
  and exponent: the estimated limbs of the long division, corrected by at most one, are the
  limbs of the quotient. The errors are a zero divisor and an exponent out of range.\<close>

theorem dec_div_truncates:
  assumes "dec_ok x" and "dec_ok y" and "1 \<le> st_precision S"
  shows "case dec_div ext S x y of
      Inl er \<Rightarrow> er = DivisionByZero \<and> d_s x \<noteq> 0 \<and> d_s y = 0 \<or> ext \<and> d_s y \<noteq> 0 \<and> (\<exists>e. er = OutOfRange e)
    | Inr r \<Rightarrow> dec_ok r \<and> to_precision S (dval x / dval y) (dval r)"
  using ns_precision [OF assms, of ext] ns_errors [of ext S x y None False] by (auto simp: dec_div_def split: sum.split)

theorem dec_div_truncates_witness:
  "(\<exists>r. dec_div False PQ \<lparr>d_s = -1, d_e = 0, d_d = [7]\<rparr> \<lparr>d_s = 1, d_e = 0, d_d = [2]\<rparr> = Inr r \<and> to_precision PQ (- 7 / 2) (dval r))
   \<and> to_precision PQ (- 7 / 2) (- 7 / 2)"
proof -
  let ?x = "\<lparr>d_s = -1, d_e = 0, d_d = [7]\<rparr>" and ?y = "\<lparr>d_s = 1, d_e = 0, d_d = [2]\<rparr>"
  have "dec_ok ?x" "dec_ok ?y" "1 \<le> st_precision PQ" by (simp_all add: dec_ok_def limbs_ok_def Kr_def PQ_def)
  note r = dec_div_truncates [OF this, of False]
  have "dval ?x = - 7" "dval ?y = 2" by (simp_all add: dval_def magnitude_def base_pow_def Kr_def)
  moreover have "to_precision PQ (- 7 / 2) (- 7 / 2)"
    unfolding to_precision_def by (rule disjI2, rule exI [of _ 0]) (simp add: truncated_def ten_def PQ_def)
  ultimately show ?thesis using r by (auto split: sum.splits)
qed



end
