(* ===== verification/Decimal_Parse.thy ===== *)
theory Decimal_Parse
  imports Decimal_Truncate Js_Number
begin

text \<open>
  Reading decimal numbers: the constructor of a decimal class for strings, numbers and decimals. Exponents that
  are written in a string are integers here; the code reads them as floating-point numbers, which are
  exact below \<open>2\<close> to the \<open>53\<close>, where the exponents that decimals can have end.
\<close>

section \<open>The code\<close>

text \<open>The value of a string of digits, \<open>+s\<close>.\<close>

definition digits_val :: "string \<Rightarrow> nat" where
  "digits_val s = foldl (\<lambda>n c. 10 * n + (of_char c - 48)) 0 s"

text \<open>\<open>kQ\<close>: digits with at most one point, and an exponent.\<close>

definition mantissa :: "string \<Rightarrow> (string \<times> string \<times> string) option" where
  "mantissa s =
     (let d = takeWhile is_digit s; r = dropWhile is_digit s
      in case r of
           [] \<Rightarrow> if d \<noteq> [] then Some (d, [], []) else None
         | c # r1 \<Rightarrow>
             if c = CHR ''.''
             then (let f = takeWhile is_digit r1
                   in if d \<noteq> [] \<or> f \<noteq> [] then Some (d, f, dropWhile is_digit r1) else None)
             else if d \<noteq> [] then Some (d, [], r) else None)"

definition exponent_part :: "string \<Rightarrow> bool" where
  "exponent_part r =
     (case r of
        [] \<Rightarrow> True
      | c # r1 \<Rightarrow>
          c \<in> {CHR ''e'', CHR ''E''}
          \<and> (let r2 = (case r1 of [] \<Rightarrow> [] | c1 # r3 \<Rightarrow> if c1 \<in> {CHR ''+'', CHR ''-''} then r3 else r1)
             in r2 \<noteq> [] \<and> (\<forall>c2 \<in> set r2. is_digit c2)))"

definition kQ :: "string \<Rightarrow> bool" where
  "kQ s = (case mantissa s of None \<Rightarrow> False | Some (d, f, r) \<Rightarrow> exponent_part r)"

text \<open>The number of an exponent, \<open>+t.slice(i + 1)\<close>.\<close>

definition signed_val :: "string \<Rightarrow> int" where
  "signed_val s =
     (case s of
        [] \<Rightarrow> 0
      | c # r \<Rightarrow> if c = CHR ''-'' then - int (digits_val r) else if c = CHR ''+'' then int (digits_val r) else int (digits_val s))"

text \<open>The digits without the point, and the place of the point among them.\<close>

definition is_e :: "char \<Rightarrow> bool" where
  "is_e c \<longleftrightarrow> c = CHR ''e'' \<or> c = CHR ''E''"

definition split_literal :: "string \<Rightarrow> string \<times> int" where
  "split_literal t0 =
     (let p = length (takeWhile (\<lambda>c. c \<noteq> CHR ''.'') t0);
          dot = p < length t0;
          t = (if dot then take p t0 @ drop (Suc p) t0 else t0);
          i = length (takeWhile (\<lambda>c. \<not> is_e c) t)
      in if i < length t \<and> 0 < i
         then (take i t, (if dot then int p else int i) + signed_val (drop (Suc i) t))
         else (t, if dot then int p else int (length t)))"

text \<open>Limbs of seven digits; the last one is filled up with zeros.\<close>

definition Qf :: "nat \<Rightarrow> string" where
  "Qf n = replicate n CHR ''0''"

function chunks :: "string \<Rightarrow> nat list" where
  "chunks t = (if length t \<le> 7 then [digits_val (t @ Qf (7 - length t))] else digits_val (take 7 t) # chunks (drop 7 t))"
  by auto
termination by (relation "measure length") auto

declare chunks.simps [simp del]

definition strip_zeros :: "string \<Rightarrow> string" where
  "strip_zeros t = rev (dropWhile (\<lambda>c. c = CHR ''0'') (rev (dropWhile (\<lambda>c. c = CHR ''0'') t)))"

text \<open>\<open>CU\<close>: the decimal with the sign \<open>sg\<close> for a literal.\<close>

definition CU :: "bool \<Rightarrow> int \<Rightarrow> string \<Rightarrow> decimal_error + decimal" where
  "CU ext sg s =
     (let (t0, a0) = split_literal s;
          z = length (takeWhile (\<lambda>c. c = CHR ''0'') t0);
          t = strip_zeros t0
      in if t = [] then Inr zero_decimal
         else (let a = a0 - int z - 1;
                   i = nat (if a < 0 then (if (a + 1) mod 7 = 0 then 7 else (a + 1) mod 7) else (a + 1) mod 7);
                   d = (if i < length t then (if i \<noteq> 0 then [digits_val (take i t)] else []) @ chunks (drop i t)
                        else [digits_val (t @ Qf (i - length t))]);
                   x = \<lparr>d_s = sg, d_e = a div int qn, d_d = d\<rparr>
               in if ext \<and> (max_exponent < d_e x \<or> d_e x < - max_exponent) then Inl (OutOfRange a) else Inr x))"

text \<open>The argument of a constructor, and the constructor. Numbers are finite.\<close>

datatype dec_arg =
    ADecimal decimal
  | ANumber jnum
  | AString string
  | AOther string

definition new_decimal :: "bool \<Rightarrow> dec_arg \<Rightarrow> decimal_error + decimal" where
  "new_decimal ext v =
     (case v of
        ADecimal x \<Rightarrow> Inr x
      | ANumber s \<Rightarrow>
          if s = 0 then Inr zero_decimal
          else (let sg = (if 0 < s then 1 else -1); m = \<bar>s\<bar>
                in if m = of_int \<lfloor>m\<rfloor> \<and> m < 10000000 then Inr \<lparr>d_s = sg, d_e = 0, d_d = [nat \<lfloor>m\<rfloor>]\<rparr>
                   else CU ext sg (number_to_string m))
      | AString s \<Rightarrow>
          (let neg = (case s of [] \<Rightarrow> False | c # _ \<Rightarrow> c = CHR ''-''); r = (if neg then tl s else s)
           in if kQ r then CU ext (if neg then -1 else 1) r else Inl (InvalidArgument r))
      | AOther s \<Rightarrow> Inl (InvalidArgument s))"

section \<open>Strings of digits\<close>

lemma digits_val_Nil [simp]: "digits_val [] = 0"
  by (simp add: digits_val_def)

lemma digits_val_snoc: "digits_val (s @ [c]) = 10 * digits_val s + (of_char c - 48)"
  by (simp add: digits_val_def)

lemma digits_val_append: "digits_val (s @ t) = digits_val s * 10 ^ length t + digits_val t"
proof (induction t rule: rev_induct)
  case (snoc c t)
  then show ?case using digits_val_snoc [of "s @ t" c] digits_val_snoc [of t c] by (simp add: algebra_simps)
qed simp

lemma digits_val_zeros [simp]: "digits_val (replicate n CHR ''0'') = 0"
proof (induction n)
  case (Suc n)
  then show ?case using digits_val_snoc [of "replicate n CHR ''0''" "CHR ''0''"] by (simp flip: replicate_append_same)
qed simp

lemma digits_val_Qf [simp]: "digits_val (t @ Qf n) = digits_val t * 10 ^ n" "digits_val (Qf n @ t) = digits_val t"
  by (simp_all add: digits_val_append Qf_def)

lemma digits_val_less: "\<forall>c \<in> set t. is_digit c \<Longrightarrow> digits_val t < 10 ^ length t"
proof (induction t rule: rev_induct)
  case (snoc c t)
  then have "digits_val t < 10 ^ length t" "of_char c - 48 \<le> (9 :: nat)" by (auto simp: is_digit_def)
  then show ?case unfolding digits_val_snoc by simp
qed simp

lemma digits_val_hd: "t \<noteq> [] \<Longrightarrow> \<forall>c \<in> set t. is_digit c \<Longrightarrow> hd t \<noteq> CHR ''0'' \<Longrightarrow> digits_val t \<noteq> 0"
proof -
  assume a: "t \<noteq> []" "\<forall>c \<in> set t. is_digit c" "hd t \<noteq> CHR ''0''"
  obtain c r where t: "t = c # r" using a(1) by (cases t) auto
  have "of_char c \<noteq> (48 :: nat)"
  proof
    assume "of_char c = (48 :: nat)"
    then have "of_char c = (of_char (CHR ''0'') :: nat)" by simp
    then show False using a(3) t by (simp only: of_char_eq_iff) simp
  qed
  then have "digits_val [c] \<noteq> 0" using a(2) t digits_val_snoc [of "[]" c] by (simp add: is_digit_def)
  then show ?thesis using digits_val_append [of "[c]" r] t by simp
qed

lemma digits_val_last: "t \<noteq> [] \<Longrightarrow> \<forall>c \<in> set t. is_digit c \<Longrightarrow> last t \<noteq> CHR ''0'' \<Longrightarrow> digits_val t \<noteq> 0"
proof -
  assume a: "t \<noteq> []" "\<forall>c \<in> set t. is_digit c" "last t \<noteq> CHR ''0''"
  obtain r c where t: "t = r @ [c]" using a(1) by (cases t rule: rev_cases) auto
  have "digits_val [c] \<noteq> 0" using a t digits_val_hd [of "[c]"] by simp
  then show ?thesis using digits_val_append [of r "[c]"] t by simp
qed

section \<open>Limbs from digits\<close>

lemma Kr_10: "Kr = 10 ^ 7"
  by (simp add: Kr_def)

lemma Kr_power: "Kr ^ n = 10 ^ (7 * n)"
  unfolding Kr_10 by (rule power_mult [symmetric])

lemma chunks_correct:
  "t \<noteq> [] \<Longrightarrow> \<forall>c \<in> set t. is_digit c \<Longrightarrow> last t \<noteq> CHR ''0'' \<Longrightarrow>
    chunks t \<noteq> [] \<and> (\<forall>a \<in> set (chunks t). a < Kr) \<and> last (chunks t) \<noteq> 0 \<and> length t \<le> 7 * length (chunks t)
    \<and> limbs (chunks t) = digits_val t * 10 ^ (7 * length (chunks t) - length t)"
proof (induction t rule: chunks.induct)
  case (1 t)
  show ?case
  proof (cases "length t \<le> 7")
    case True
    have "digits_val t < 10 ^ length t" using 1(3) by (rule digits_val_less)
    then have "digits_val t * 10 ^ (7 - length t) < 10 ^ length t * 10 ^ (7 - length t)" by simp
    then have "digits_val t * 10 ^ (7 - length t) < Kr" using True unfolding power_add [symmetric] Kr_10 by simp
    then show ?thesis using True 1 digits_val_last by (simp add: chunks.simps [of t])
  next
    case False
    let ?r = "drop 7 t"
    have e: "chunks t = digits_val (take 7 t) # chunks ?r" using False by (simp add: chunks.simps [of t])
    have "?r \<noteq> []" "\<forall>c \<in> set ?r. is_digit c" "last ?r \<noteq> CHR ''0''" using False 1(3,4) by (auto dest: in_set_dropD)
    note IH = "1.IH" [OF False this]
    define m where "m = length (chunks ?r)"
    define j where "j = 7 * m - length ?r"
    have j: "7 * m = length ?r + j" using IH by (simp add: j_def m_def)
    have "digits_val (take 7 t) < 10 ^ length (take 7 t)" using 1(3) by (intro digits_val_less) (auto dest: in_set_takeD)
    then have lt: "digits_val (take 7 t) < Kr" using False by (simp add: Kr_10)
    have "limbs (chunks t) = digits_val (take 7 t) * 10 ^ (7 * m) + digits_val ?r * 10 ^ j"
      using IH by (simp add: e m_def j_def Kr_power)
    also have "\<dots> = (digits_val (take 7 t) * 10 ^ length ?r + digits_val ?r) * 10 ^ j"
      unfolding j by (simp add: power_add add_mult_distrib)
    also have "digits_val (take 7 t) * 10 ^ length ?r + digits_val ?r = digits_val t"
      using digits_val_append [of "take 7 t" ?r] by simp
    also have "j = 7 * length (chunks t) - length t" using j False by (simp add: e m_def)
    finally show ?thesis using IH lt j False by (auto simp: e m_def)
  qed
qed

lemma strip_zeros_split:
  defines "z t \<equiv> length (takeWhile (\<lambda>c. c = CHR ''0'') t)"
  shows "\<exists>w. t = Qf (z t) @ strip_zeros t @ Qf w \<and> (strip_zeros t \<noteq> [] \<longrightarrow> hd (strip_zeros t) \<noteq> CHR ''0'' \<and> last (strip_zeros t) \<noteq> CHR ''0'')"
proof -
  let ?P = "\<lambda>c. c = CHR ''0''"
  let ?u = "dropWhile ?P t"
  have rep: "takeWhile ?P x = replicate (length (takeWhile ?P x)) CHR ''0''" for x
    by (rule replicate_length_same [symmetric]) (auto dest: set_takeWhileD)
  have "rev (takeWhile ?P (rev ?u) @ dropWhile ?P (rev ?u)) = ?u" by (simp only: takeWhile_dropWhile_id rev_rev_ident)
  then have u: "?u = strip_zeros t @ rev (takeWhile ?P (rev ?u))" by (simp only: strip_zeros_def rev_append)
  define v where "v = takeWhile ?P (rev ?u)"
  have w: "rev v = Qf (length v)" using arg_cong [OF rep [of "rev ?u"], of rev] unfolding v_def [symmetric] Qf_def rev_replicate .
  have "t = takeWhile ?P t @ ?u" by simp
  also have "takeWhile ?P t = Qf (z t)" using rep [of t] unfolding Qf_def z_def .
  also have "?u = strip_zeros t @ Qf (length v)" using u unfolding v_def [symmetric] w .
  finally have "t = Qf (z t) @ strip_zeros t @ Qf (length v)" .
  moreover have "hd (strip_zeros t) \<noteq> CHR ''0'' \<and> last (strip_zeros t) \<noteq> CHR ''0''" if n: "strip_zeros t \<noteq> []"
  proof
    have ne: "dropWhile ?P (rev ?u) \<noteq> []" using n by (simp add: strip_zeros_def)
    then show "last (strip_zeros t) \<noteq> CHR ''0''" using hd_dropWhile [OF ne] by (simp add: strip_zeros_def last_rev)
    have "?u \<noteq> []"
    proof
      assume "?u = []"
      then show False using ne by (simp only: rev.simps dropWhile.simps simp_thms)
    qed
    then have "hd ?u \<noteq> CHR ''0''" using hd_dropWhile [of ?P t] by simp
    then show "hd (strip_zeros t) \<noteq> CHR ''0''" using u n by (metis hd_append2)
  qed
  ultimately show ?thesis by blast
qed

text \<open>A number of seven digits from the exponent \<open>a\<close> of the first digit on.\<close>

lemma limbs_of_digits:
  assumes "t \<noteq> []" "\<forall>c \<in> set t. is_digit c" "hd t \<noteq> CHR ''0''" "last t \<noteq> CHR ''0''"
    "i = nat (if a < 0 then (if (a + 1) mod 7 = 0 then 7 else (a + 1) mod 7) else (a + 1) mod 7)"
    "d = (if i < length t then (if i \<noteq> 0 then [digits_val (take i t)] else []) @ chunks (drop i t)
          else [digits_val (t @ Qf (i - length t))])"
  shows "limbs_ok d \<and> magnitude d (a div 7) = of_nat (digits_val t) * ten (a + 1 - int (length t))"
proof -
  have i: "i \<le> 7" "i \<noteq> 0 \<Longrightarrow> 7 * (a div 7) + int i = a + 1" "i = 0 \<Longrightarrow> 7 * (a div 7) + 7 = a + 1"
    using assms(5) by (auto split: if_splits) presburger+
  show ?thesis
  proof (cases "i < length t")
    case False
    then have n: "i \<noteq> 0" using assms(1) by (cases i) auto
    have d: "d = [digits_val t * 10 ^ (i - length t)]" using assms(6) False by simp
    have "digits_val t * 10 ^ (i - length t) < 10 ^ length t * 10 ^ (i - length t)" using digits_val_less [OF assms(2)] by simp
    also have "\<dots> = 10 ^ i" using False by (simp flip: power_add)
    also have "\<dots> \<le> Kr" unfolding Kr_10 using i(1) by (intro power_increasing) simp_all
    finally have "limbs_ok d" using digits_val_hd [OF assms(1,2,3)] by (simp add: d limbs_ok_def)
    moreover have "magnitude d (a div 7) = of_nat (digits_val t) * (ten (int (i - length t)) * ten (7 * (a div 7)))"
      by (simp add: d magnitude_def base_pow_ten ten_nat)
    moreover have "int (i - length t) + 7 * (a div 7) = a + 1 - int (length t)" using i(2) [OF n] False by simp
    ultimately show ?thesis unfolding ten_add [symmetric] by simp
  next
    case True
    let ?r = "drop i t"
    have "?r \<noteq> []" "\<forall>c \<in> set ?r. is_digit c" "last ?r \<noteq> CHR ''0''" using True assms(2,4) by (auto dest: in_set_dropD)
    note C = chunks_correct [OF this]
    define m where "m = length (chunks ?r)"
    define j where "j = 7 * m - length ?r"
    have j: "7 * m = length ?r + j" using C by (simp add: j_def m_def)
    have d: "d = (if i \<noteq> 0 then [digits_val (take i t)] else []) @ chunks ?r" using assms(6) True by simp
    have "take i t \<noteq> [] \<or> i = 0" using assms(1) by auto
    moreover have "\<forall>c \<in> set (take i t). is_digit c" using assms(2) by (meson in_set_takeD)
    moreover have "hd (take i t) \<noteq> CHR ''0'' \<or> i = 0" using assms(3) by (cases "i = 0") simp_all
    ultimately have tk: "take i t \<noteq> [] \<or> i = 0" "\<forall>c \<in> set (take i t). is_digit c" "hd (take i t) \<noteq> CHR ''0'' \<or> i = 0" by blast+
    have L: "limbs d = digits_val t * 10 ^ j"
    proof (cases "i = 0")
      case True
      then show ?thesis using C by (simp add: d m_def j_def)
    next
      case False
      have "limbs d = digits_val (take i t) * 10 ^ (7 * m) + digits_val ?r * 10 ^ j"
        using C False by (simp add: d m_def j_def Kr_power)
      also have "\<dots> = (digits_val (take i t) * 10 ^ length ?r + digits_val ?r) * 10 ^ j"
        unfolding j by (simp add: power_add add_mult_distrib)
      also have "digits_val (take i t) * 10 ^ length ?r + digits_val ?r = digits_val t"
        using digits_val_append [of "take i t" ?r] by simp
      finally show ?thesis .
    qed
    have "limbs_ok d"
    proof (cases "i = 0")
      case True
      have "hd (chunks t) \<noteq> 0"
      proof (cases "length t \<le> 7")
        case le: True
        then show ?thesis using digits_val_hd [OF assms(1,2,3)] by (simp add: chunks.simps [of t])
      next
        case False
        then have "take 7 t \<noteq> []" "hd (take 7 t) \<noteq> CHR ''0''" using assms(1,3) by simp_all
        then show ?thesis using False digits_val_hd [of "take 7 t"] assms(2) by (auto simp: chunks.simps [of t] dest: in_set_takeD)
      qed
      then show ?thesis using C True by (simp add: d limbs_ok_def)
    next
      case False
      have "digits_val (take i t) < 10 ^ length (take i t)" using tk(2) by (rule digits_val_less)
      also have "\<dots> \<le> Kr" unfolding Kr_10 using i(1) by (intro power_increasing) simp_all
      finally show ?thesis using C False digits_val_hd [OF _ tk(2)] tk by (auto simp: d limbs_ok_def)
    qed
    moreover have "magnitude d (a div 7) = of_nat (digits_val t) * (ten (int j) * ten (7 * (a div 7 - int (length d) + 1)))"
      by (simp add: magnitude_def base_pow_ten ten_nat L)
    moreover have "ten (int j) * ten (7 * (a div 7 - int (length d) + 1)) = ten (a + 1 - int (length t))"
    proof -
      have "int (7 * m) = int (length ?r + j)" using j by (rule arg_cong)
      then have "7 * int m = int (length t) - int i + int j" using True by (simp add: of_nat_diff)
      moreover have "int (length d) = int m + (if i = 0 then 0 else 1)" by (simp add: d m_def)
      ultimately have e: "int j + 7 * (a div 7 - int (length d) + 1) = a + 1 - int (length t)" using i(2,3) by (cases "i = 0") simp_all
      show ?thesis by (simp only: ten_add [symmetric] e)
    qed
    ultimately show ?thesis by (simp only: simp_thms)
  qed
qed

lemma CU_correct:
  assumes "split_literal s = (t0, a0)" "\<forall>c \<in> set t0. is_digit c" "sg = 1 \<or> sg = -1"
  shows "\<exists>x. dec_ok x \<and> dval x = of_int sg * of_nat (digits_val t0) * ten (a0 - int (length t0))
    \<and> (CU ext sg s = Inr x \<or> ext \<and> (max_exponent < d_e x \<or> d_e x < - max_exponent) \<and> (\<exists>e. CU ext sg s = Inl (OutOfRange e)))"
proof -
  define z where "z = length (takeWhile (\<lambda>c. c = CHR ''0'') t0)"
  define t where "t = strip_zeros t0"
  obtain w where w: "t0 = Qf z @ t @ Qf w" and ends: "t \<noteq> [] \<longrightarrow> hd t \<noteq> CHR ''0'' \<and> last t \<noteq> CHR ''0''"
    using strip_zeros_split [of t0] by (auto simp: z_def t_def)
  have v: "digits_val t0 = digits_val t * 10 ^ w" by (simp only: w digits_val_Qf append_assoc [symmetric])
  have len: "int (length t0) = int z + int (length t) + int w" by (subst w) (simp add: Qf_def)
  show ?thesis
  proof (cases "t = []")
    case True
    then have "CU ext sg s = Inr zero_decimal" using assms(1) by (simp add: CU_def t_def)
    then show ?thesis using v True by (intro exI [of _ zero_decimal]) (simp add: dec_ok_def)
  next
    case False
    define a where "a = a0 - int z - 1"
    define i where "i = nat (if a < 0 then (if (a + 1) mod 7 = 0 then 7 else (a + 1) mod 7) else (a + 1) mod 7)"
    define d where "d = (if i < length t then (if i \<noteq> 0 then [digits_val (take i t)] else []) @ chunks (drop i t)
          else [digits_val (t @ Qf (i - length t))])"
    have dig: "\<forall>c \<in> set t. is_digit c" using assms(2) w by auto
    have L: "limbs_ok d" "magnitude d (a div 7) = of_nat (digits_val t) * ten (a + 1 - int (length t))"
      using limbs_of_digits [OF False dig _ _ i_def d_def] ends False by simp_all
    let ?x = "\<lparr>d_s = sg, d_e = a div 7, d_d = d\<rparr>"
    have "dec_ok ?x" using L(1) assms(3) by (simp add: dec_ok_def)
    moreover have "dval ?x = of_int sg * of_nat (digits_val t0) * ten (a0 - int (length t0))"
    proof -
      have "a + 1 - int (length t) = int w + (a0 - int (length t0))" by (simp add: a_def len)
      then have "ten (a + 1 - int (length t)) = of_nat (10 ^ w) * ten (a0 - int (length t0))" by (simp only: ten_add ten_nat)
      then show ?thesis by (simp add: dval_def L(2) v)
    qed
    moreover have "CU ext sg s = (if ext \<and> (max_exponent < d_e ?x \<or> d_e ?x < - max_exponent) then Inl (OutOfRange a) else Inr ?x)"
      unfolding CU_def assms(1) prod.case Let_def z_def [symmetric] t_def [symmetric] if_not_P [OF False] a_def [symmetric]
        i_def [symmetric] d_def [symmetric] by (simp add: qn_def)
    ultimately show ?thesis by (intro exI [of _ ?x]) auto
  qed
qed

section \<open>Literals\<close>

text \<open>What a literal denotes: the digits before and after the point, times a power of ten.\<close>

definition literal_val :: "string \<Rightarrow> rat" where
  "literal_val s =
     (case mantissa s of
        None \<Rightarrow> 0
      | Some (d, f, r) \<Rightarrow> of_nat (digits_val (d @ f)) * ten ((if r = [] then 0 else signed_val (tl r)) - int (length f)))"

lemma takeWhile_digits: "\<forall>c \<in> set (takeWhile is_digit s). is_digit c"
  by (auto dest: set_takeWhileD)

lemma mantissa_cases:
  assumes "mantissa s = Some (d, f, r)"
  obtains "s = d @ CHR ''.'' # f @ r" "\<forall>c \<in> set d. is_digit c" "\<forall>c \<in> set f. is_digit c" "d @ f \<noteq> []"
  | "s = d @ r" "f = []" "\<forall>c \<in> set d. is_digit c" "d \<noteq> []"
proof (cases "dropWhile is_digit s")
  case Nil
  then have "s = takeWhile is_digit s" by (metis append_Nil2 takeWhile_dropWhile_id)
  then show ?thesis using assms Nil takeWhile_digits [of s] that(2) by (auto simp: mantissa_def Let_def split: if_splits)
next
  case (Cons c r1)
  have s: "s = takeWhile is_digit s @ c # r1" by (metis Cons takeWhile_dropWhile_id)
  show ?thesis
  proof (cases "c = CHR ''.''")
    case True
    then have "d = takeWhile is_digit s" "f = takeWhile is_digit r1" "r = dropWhile is_digit r1" "d \<noteq> [] \<or> f \<noteq> []"
      using assms Cons by (auto simp: mantissa_def Let_def split: if_splits)
    then show ?thesis using s True takeWhile_digits [of s] takeWhile_digits [of r1] that(1) by simp
  next
    case False
    then have "d = takeWhile is_digit s" "f = []" "r = c # r1" "d \<noteq> []"
      using assms Cons by (auto simp: mantissa_def Let_def split: if_splits)
    then show ?thesis using s takeWhile_digits [of s] that(2) by simp
  qed
qed

lemma digit_not_special: "is_digit c \<Longrightarrow> c \<noteq> CHR ''.'' \<and> \<not> is_e c"
  by (auto simp: is_digit_def is_e_def)

lemma exponent_part_no_dot: "exponent_part r \<Longrightarrow> CHR ''.'' \<notin> set r"
  using digit_not_special by (auto simp: exponent_part_def Let_def split: list.splits if_splits)

lemma split_literal_correct:
  assumes "mantissa s = Some (d, f, r)" "exponent_part r"
  shows "split_literal s = (d @ f, int (length d) + (if r = [] then 0 else signed_val (tl r))) \<and> (\<forall>c \<in> set (d @ f). is_digit c)"
proof -
  let ?N = "\<lambda>c. c \<noteq> CHR ''.''" and ?E = "\<lambda>c. \<not> is_e c"
  have e: "r \<noteq> [] \<Longrightarrow> is_e (hd r)" using assms(2) by (auto simp: exponent_part_def is_e_def split: list.splits)
  have scan: "takeWhile ?E (u @ r) = u" if "\<forall>c \<in> set u. is_digit c" for u
    using that e digit_not_special by (cases r) (auto simp: takeWhile_append)
  show ?thesis
  proof (cases rule: mantissa_cases [OF assms(1)])
    case 1
    have "takeWhile ?N s = d" using 1(1,2) digit_not_special by (auto simp: takeWhile_append)
    then have p: "length (takeWhile ?N s) = length d" "length d < length s" using 1(1) by simp_all
    define u where "u = d @ f"
    have t: "take (length d) s @ drop (Suc (length d)) s = u @ r" using 1(1) by (simp add: u_def)
    have u: "\<forall>c \<in> set u. is_digit c" "u \<noteq> []" using 1(2-4) by (auto simp: u_def)
    have "takeWhile ?E u = u" using u(1) digit_not_special by (auto simp: takeWhile_eq_all_conv)
    note tw = this
    show ?thesis
    proof (cases r)
      case Nil
      then have "take (length d) s @ drop (Suc (length d)) s = u" using t by simp
      moreover have "length (takeWhile ?E u) = length u" using tw by (rule arg_cong)
      ultimately show ?thesis using p u Nil unfolding split_literal_def Let_def p u_def [symmetric] by simp
    next
      case (Cons c r')
      then show ?thesis using p scan [OF u(1)] u unfolding split_literal_def Let_def p t u_def [symmetric] by auto
    qed
  next
    case 2
    have "takeWhile ?N s = s" using 2 digit_not_special exponent_part_no_dot [OF assms(2)] by (auto simp: takeWhile_eq_all_conv)
    then have p: "length (takeWhile ?N s) = length s" by (rule arg_cong)
    have tw: "length (takeWhile ?E (d @ r)) = length d" using scan [OF 2(3)] by (rule arg_cong)
    then show ?thesis using 2 unfolding split_literal_def Let_def p by (cases r) simp_all
  qed
qed

lemma kQ_mantissa: "kQ s \<Longrightarrow> \<exists>d f r. mantissa s = Some (d, f, r) \<and> exponent_part r"
  by (auto simp: kQ_def split: option.splits)

lemma CU_literal:
  assumes "kQ s" "sg = 1 \<or> sg = -1"
  shows "\<exists>x. dec_ok x \<and> dval x = of_int sg * literal_val s
    \<and> (CU ext sg s = Inr x \<or> ext \<and> (max_exponent < d_e x \<or> d_e x < - max_exponent) \<and> (\<exists>e. CU ext sg s = Inl (OutOfRange e)))"
proof -
  obtain d f r where m: "mantissa s = Some (d, f, r)" "exponent_part r" using kQ_mantissa [OF assms(1)] by blast
  note sp = split_literal_correct [OF m]
  have v: "of_nat (digits_val (d @ f)) * ten (int (length d) + (if r = [] then 0 else signed_val (tl r)) - int (length (d @ f))) = literal_val s"
    by (simp add: literal_val_def m(1))
  show ?thesis using CU_correct [OF conjunct1 [OF sp] conjunct2 [OF sp] assms(2), of ext] unfolding mult.assoc v .
qed

text \<open>C28: Every string is either a decimal literal, and then the constructor gives a well-formed decimal with exactly the
  value of the literal, however many digits it has and wherever its point is; or it is rejected as an
  invalid argument. The only other error is an exponent out of range.\<close>

theorem parse_correct:
  "case new_decimal ext (AString s) of
     Inl er \<Rightarrow>
       (\<exists>r. er = InvalidArgument r \<and> \<not> kQ r \<and> (s = r \<or> s = CHR ''-'' # r)) \<or> ext \<and> (\<exists>e. er = OutOfRange e)
   | Inr x \<Rightarrow>
       dec_ok x \<and> (if s \<noteq> [] \<and> hd s = CHR ''-'' then kQ (tl s) \<and> dval x = - literal_val (tl s) else kQ s \<and> dval x = literal_val s)"
proof -
  define neg where "neg = (case s of [] \<Rightarrow> False | c # _ \<Rightarrow> c = CHR ''-'')"
  define r where "r = (if neg then tl s else s)"
  have n: "neg \<longleftrightarrow> s \<noteq> [] \<and> hd s = CHR ''-''" by (cases s) (simp_all add: neg_def)
  have code: "new_decimal ext (AString s) = (if kQ r then CU ext (if neg then -1 else 1) r else Inl (InvalidArgument r))"
    by (simp add: new_decimal_def neg_def r_def Let_def)
  show ?thesis
  proof (cases "kQ r")
    case False
    have "s = r \<or> s = CHR ''-'' # r" using n by (cases s) (auto simp: r_def)
    then show ?thesis using code False by simp
  next
    case True
    obtain x where x: "dec_ok x" "dval x = of_int (if neg then -1 else 1) * literal_val r"
      "CU ext (if neg then -1 else 1) r = Inr x \<or> ext \<and> (\<exists>e. CU ext (if neg then -1 else 1) r = Inl (OutOfRange e))"
    proof -
      have "(if neg then -1 else 1 :: int) = 1 \<or> (if neg then -1 else 1 :: int) = -1" by simp
      then show ?thesis using CU_literal [OF True, of "if neg then -1 else 1" ext] that by blast
    qed
    show ?thesis using code True x n by (auto simp: r_def)
  qed
qed

end
