(* ===== verification/Decimal_Text.thy ===== *)
theory Decimal_Text
  imports Decimal_Parse
begin

text \<open>
  Writing decimal numbers: the digits of the limbs, the layout of a number with and without an exponent, and
  the methods that write it with its own digits, with a number of decimals or with a number of significant
  digits. The functions return an option since the loop that strips zeros does not end for a limb \<open>0\<close>.
\<close>

section \<open>The code\<close>

partial_function (option) strip10 :: "nat \<Rightarrow> nat option" where
  "strip10 h = (if h mod 10 = 0 then strip10 (h div 10) else Some h)"

text \<open>A limb after the first one, with its zeros in front.\<close>

definition pad_limb :: "nat \<Rightarrow> string" where
  "pad_limb i = Qf (qn - length (show_nat i)) @ show_nat i"

definition No :: "nat list \<Rightarrow> string option" where
  "No e =
     (case e of
        [] \<Rightarrow> Some ''undefined''
      | h # r \<Rightarrow>
          if r \<noteq> []
          then map_option
                 (\<lambda>z. show_nat h @ concat (map pad_limb (butlast r)) @ Qf (qn - length (show_nat (last r))) @ show_nat z)
                 (strip10 (last r))
          else if h = 0 then Some ''0'' else map_option show_nat (strip10 h))"

text \<open>The digits \<open>s\<close> of a number with the exponent \<open>c\<close>. The flag \<open>t\<close> asks for an exponent, \<open>a\<close> is the number of
  significant digits to fill up to; \<open>0\<close> stands for \<open>undefined\<close>.\<close>

definition fill :: "int \<Rightarrow> int \<Rightarrow> string" where
  "fill a i = (if a \<noteq> 0 \<and> 0 < i then Qf (nat i) else [])"

definition layout :: "int \<Rightarrow> string \<Rightarrow> bool \<Rightarrow> int \<Rightarrow> string" where
  "layout c s t a =
     (let h = int (length s)
      in if t
         then (if a \<noteq> 0 \<and> 0 < a - h then take 1 s @ ''.'' @ drop 1 s @ fill a (a - h)
               else if 1 < h then take 1 s @ ''.'' @ drop 1 s else s) @ (if c < 0 then ''e'' else ''e+'') @ show_int c
         else if c < 0 then ''0.'' @ Qf (nat (- c - 1)) @ s @ fill a (a - h)
         else if h \<le> c
         then s @ Qf (nat (c + 1 - h)) @ (if a \<noteq> 0 \<and> 0 < a - c - 1 then ''.'' @ fill a (a - c - 1) else [])
         else (if c + 1 < h then take (nat (c + 1)) s @ ''.'' @ drop (nat (c + 1)) s else s)
              @ (if a \<noteq> 0 \<and> 0 < a - h then (if c + 1 = h then ''.'' else []) @ fill a (a - h) else []))"

definition ap :: "decimal \<Rightarrow> bool \<Rightarrow> int \<Rightarrow> string option" where
  "ap e t a = map_option (\<lambda>s. (if d_s e < 0 then ''-'' else []) @ layout (exponent e) s t a) (No (d_d e))"

text \<open>\<open>Lo\<close>: an argument must be an integer between two bounds.\<close>

definition Sv :: rat where
  "Sv = 1000000000"

definition Lo :: "jnum \<Rightarrow> rat \<Rightarrow> rat \<Rightarrow> decimal_error option" where
  "Lo e t a = (if e \<noteq> of_int \<lfloor>e\<rfloor> \<or> e < t \<or> a < e then Some (InvalidArgument (number_to_string e)) else None)"

text \<open>Checking the number of digits and the rounding mode, then rounding; \<open>k\<close> gives the number of significant digits
  from the argument. Arguments that are absent are \<open>undefined\<close>.\<close>

definition rounded :: "bool \<Rightarrow> settings \<Rightarrow> decimal \<Rightarrow> rat \<Rightarrow> jnum \<Rightarrow> jnum option \<Rightarrow> (int \<Rightarrow> int) \<Rightarrow> decimal_error + decimal" where
  "rounded ext S x lo e t k =
     (case Lo e lo Sv of
        Some er \<Rightarrow> Inl er
      | None \<Rightarrow>
          (case t of
             None \<Rightarrow> xn ext x (k \<lfloor>e\<rfloor>) (Some (st_rounding S))
           | Some r \<Rightarrow>
               (case Lo r 0 8 of
                  Some er \<Rightarrow> Inl er
                | None \<Rightarrow> xn ext x (k \<lfloor>e\<rfloor>) (Some (nat \<lfloor>r\<rfloor>)))))"

definition shown :: "decimal_error + decimal \<Rightarrow> (decimal \<Rightarrow> string option) \<Rightarrow> (decimal_error + string) option" where
  "shown r f = (case r of Inl er \<Rightarrow> Some (Inl er) | Inr x \<Rightarrow> map_option Inr (f x))"

definition dec_toString :: "settings \<Rightarrow> decimal \<Rightarrow> string option" where
  "dec_toString S x = (let t = exponent x in ap x (t \<le> st_toExpNeg S \<or> st_toExpPos S \<le> t) 0)"

definition dec_toExponential :: "bool \<Rightarrow> settings \<Rightarrow> decimal \<Rightarrow> jnum option \<Rightarrow> jnum option \<Rightarrow> (decimal_error + string) option" where
  "dec_toExponential ext S x e t =
     (case e of
        None \<Rightarrow> map_option Inr (ap x True 0)
      | Some e \<Rightarrow> shown (rounded ext S x 0 e t (\<lambda>n. n + 1)) (\<lambda>i. ap i True (\<lfloor>e\<rfloor> + 1)))"

definition dec_toFixed :: "bool \<Rightarrow> settings \<Rightarrow> decimal \<Rightarrow> jnum option \<Rightarrow> jnum option \<Rightarrow> (decimal_error + string) option" where
  "dec_toFixed ext S x e t =
     (case e of
        None \<Rightarrow> map_option Inr (ap x False 0)
      | Some e \<Rightarrow>
          shown (rounded ext S x 0 e t (\<lambda>n. n + exponent x + 1))
            (\<lambda>i. map_option (\<lambda>a. if isneg x \<and> \<not> isZero x then ''-'' @ a else a) (ap (dec_abs i) False (\<lfloor>e\<rfloor> + exponent i + 1))))"

definition dec_toPrecision :: "bool \<Rightarrow> settings \<Rightarrow> decimal \<Rightarrow> jnum option \<Rightarrow> jnum option \<Rightarrow> (decimal_error + string) option" where
  "dec_toPrecision ext S x e t =
     (case e of
        None \<Rightarrow> map_option Inr (dec_toString S x)
      | Some e \<Rightarrow>
          shown (rounded ext S x 1 e t (\<lambda>n. n))
            (\<lambda>i. ap i (e \<le> of_int (exponent i) \<or> exponent i \<le> st_toExpNeg S) \<lfloor>e\<rfloor>))"

text \<open>Rounding to decimals, to significant digits and to an integer.\<close>

definition dec_todp :: "bool \<Rightarrow> settings \<Rightarrow> decimal \<Rightarrow> jnum option \<Rightarrow> jnum option \<Rightarrow> decimal_error + decimal" where
  "dec_todp ext S x e t = (case e of None \<Rightarrow> Inr x | Some e \<Rightarrow> rounded ext S x 0 e t (\<lambda>n. n + exponent x + 1))"

definition dec_tosd :: "bool \<Rightarrow> settings \<Rightarrow> decimal \<Rightarrow> jnum option \<Rightarrow> jnum option \<Rightarrow> decimal_error + decimal" where
  "dec_tosd ext S x e t =
     (case e of
        None \<Rightarrow> xn ext x (int (st_precision S)) (Some (st_rounding S))
      | Some e \<Rightarrow> rounded ext S x 1 e t (\<lambda>n. n))"

definition dec_toint :: "bool \<Rightarrow> settings \<Rightarrow> decimal \<Rightarrow> decimal_error + decimal" where
  "dec_toint ext S x = xn ext x (exponent x + 1) (Some (st_rounding S))"

text \<open>The number of decimals and of significant digits.\<close>

definition dec_dp :: "decimal \<Rightarrow> int option" where
  "dec_dp x =
     (let l = int (length (d_d x)) - 1; a = (l - d_e x) * int qn; t = last (d_d x)
      in if t \<noteq> 0 then map_option (\<lambda>z. max 0 (a - (int (count10 t) - int (count10 z)))) (strip10 t) else Some (max 0 a))"

definition dec_sd :: "bool \<Rightarrow> decimal \<Rightarrow> int option" where
  "dec_sd z x =
     (let t = exponent x + 1; a = (int (length (d_d x)) - 1) * int qn + 1; i = last (d_d x);
          pick = (\<lambda>a. if z \<and> a < t then t else a)
      in if i \<noteq> 0
         then map_option (\<lambda>m. pick (a - (int (count10 i) - int (count10 m)) + (int (count10 (hd (d_d x))) - 1))) (strip10 i)
         else Some (pick a))"

section \<open>Digits\<close>

lemma digit_char_val [simp]: "n < 10 \<Longrightarrow> digits_val [digit_char n] = n"
  using digits_val_snoc [of "[]" "digit_char n"] by simp

lemma digits_val_show_nat [simp]: "digits_val (show_nat n) = n"
proof (induction n rule: show_nat.induct)
  case (1 n)
  then show ?case using digits_val_snoc [of "show_nat (n div 10)" "digit_char (n mod 10)"]
    by (cases "n < 10") (simp_all add: show_nat.simps [of n])
qed

lemma length_show_nat: "length (show_nat n) = count10 n"
proof (induction n rule: show_nat.induct)
  case (1 n)
  then show ?case by (cases "n < 10") (simp_all add: show_nat.simps [of n] count10.simps [of n])
qed

lemma digits_show_nat: "\<forall>c \<in> set (show_nat n). is_digit c"
  using show_nat_digits by blast

lemma digit_char_0: "digit_char 0 = CHR ''0''"
  by code_simp

lemma digits_Qf: "\<forall>c \<in> set (Qf n). is_digit c"
  by (simp add: Qf_def is_digit_def)

lemma strip10_correct: "0 < n \<Longrightarrow> \<exists>m k. strip10 n = Some m \<and> m mod 10 \<noteq> 0 \<and> n = m * 10 ^ k \<and> show_nat n = show_nat m @ Qf k"
proof (induction n rule: less_induct)
  case (less n)
  show ?case
  proof (cases "n mod 10 = 0")
    case False
    then show ?thesis by (intro exI [of _ n] exI [of _ 0]) (simp add: strip10.simps [of n] Qf_def)
  next
    case True
    then have n: "n = n div 10 * 10" "0 < n div 10" "n div 10 < n" "\<not> n < 10" using less.prems by auto
    obtain m k where m: "strip10 (n div 10) = Some m" "m mod 10 \<noteq> 0" "n div 10 = m * 10 ^ k" "show_nat (n div 10) = show_nat m @ Qf k"
      using less.IH [OF n(3,2)] by blast
    have "n = m * 10 ^ Suc k" using n(1) unfolding m(3) by simp
    moreover have "show_nat n = show_nat m @ Qf (Suc k)"
      using n(4) m(4) True by (simp add: show_nat.simps [of n] Qf_def digit_char_0 replicate_append_same)
    moreover have "strip10 n = Some m" using m(1) True by (simp add: strip10.simps [of n])
    ultimately show ?thesis using m(2) by blast
  qed
qed

lemma pad_limb_val: "i < Kr \<Longrightarrow> length (pad_limb i) = 7 \<and> digits_val (pad_limb i) = i \<and> (\<forall>c \<in> set (pad_limb i). is_digit c)"
  using count10_limb [of i] digits_show_nat digits_Qf unfolding pad_limb_def
  by (auto simp: length_show_nat qn_def) (simp add: Qf_def)

lemma pad_limbs_val:
  "\<forall>a \<in> set d. a < Kr \<Longrightarrow> length (concat (map pad_limb d)) = 7 * length d \<and> digits_val (concat (map pad_limb d)) = limbs d
    \<and> (\<forall>c \<in> set (concat (map pad_limb d)). is_digit c)"
proof (induction d)
  case (Cons a d)
  then have IH: "length (concat (map pad_limb d)) = 7 * length d" "digits_val (concat (map pad_limb d)) = limbs d"
      "\<forall>c \<in> set (concat (map pad_limb d)). is_digit c" and a: "a < Kr" by auto
  then show ?case using pad_limb_val [OF a] by (auto simp: digits_val_append Kr_power)
qed simp

text \<open>The digits of a number: its value without the zeros at the end, and their number.\<close>

lemma No_correct:
  assumes "limbs_ok d"
  shows "\<exists>s k. No d = Some s \<and> s \<noteq> [] \<and> (\<forall>c \<in> set s. is_digit c) \<and> digits_val s mod 10 \<noteq> 0
    \<and> limbs d = digits_val s * 10 ^ k \<and> length s + k = count10 (hd d) + 7 * (length d - 1)
    \<and> (\<exists>m. strip10 (last d) = Some m \<and> count10 (last d) = count10 m + k)"
proof -
  obtain h r where d: "d = h # r" using assms by (cases d) (auto simp: limbs_ok_def)
  have ok: "\<forall>a \<in> set d. a < Kr" "last d \<noteq> 0" "h \<noteq> 0" using assms d by (auto simp: limbs_ok_def)
  obtain m k where m: "strip10 (last d) = Some m" "m mod 10 \<noteq> 0" "last d = m * 10 ^ k" "show_nat (last d) = show_nat m @ Qf k"
    using strip10_correct [of "last d"] ok(2) by auto
  define p where "p = (if r = [] then [] else show_nat h @ concat (map pad_limb (butlast r)) @ Qf (qn - length (show_nat (last r))))"
  have s: "No d = Some (p @ show_nat m)" using m(1) ok(3) by (auto simp: No_def d p_def)
  have full: "(p @ show_nat m) @ Qf k = show_nat h @ concat (map pad_limb r)"
  proof (cases "r = []")
    case True
    then show ?thesis using m(4) by (simp add: p_def d)
  next
    case False
    have "concat (map pad_limb r) = concat (map pad_limb (butlast r)) @ pad_limb (last r)"
      by (subst append_butlast_last_id [OF False, symmetric]) (simp only: map_append concat_append list.map concat.simps append_Nil2)
    moreover have "pad_limb (last r) = Qf (qn - length (show_nat (last r))) @ show_nat m @ Qf k"
      unfolding pad_limb_def using m(4) False by (simp add: d)
    ultimately show ?thesis using False by (simp add: p_def)
  qed
  have r: "length (concat (map pad_limb r)) = 7 * length r" "digits_val (concat (map pad_limb r)) = limbs r"
      "\<forall>c \<in> set (concat (map pad_limb r)). is_digit c" using pad_limbs_val [of r] ok(1) d by auto
  have "digits_val ((p @ show_nat m) @ Qf k) = limbs d" unfolding full by (simp add: digits_val_append r(1,2) d Kr_power)
  then have "limbs d = digits_val (p @ show_nat m) * 10 ^ k" by (simp only: digits_val_Qf)
  moreover have "length ((p @ show_nat m) @ Qf k) = count10 h + 7 * length r" unfolding full by (simp add: length_show_nat r(1))
  then have "length (p @ show_nat m) + k = count10 (hd d) + 7 * (length d - 1)" by (simp add: Qf_def d)
  moreover have "\<forall>c \<in> set ((p @ show_nat m) @ Qf k). is_digit c" unfolding full using r(3) digits_show_nat [of h] by auto
  then have "\<forall>c \<in> set (p @ show_nat m). is_digit c" by auto
  moreover have "digits_val (p @ show_nat m) mod 10 \<noteq> 0"
  proof -
    obtain q where "10 ^ length (show_nat m) = (10 :: nat) * q" by (cases "show_nat m") simp_all
    then have "digits_val (p @ show_nat m) = 10 * (digits_val p * q) + m" by (simp add: digits_val_append)
    then show ?thesis using m(2) by simp
  qed
  moreover have "count10 (last d) = count10 m + k"
    using arg_cong [OF m(4), of length] by (simp add: length_show_nat Qf_def)
  ultimately show ?thesis using s m(1) by (intro exI [of _ "p @ show_nat m"] exI [of _ k]) simp
qed

section \<open>What a layout reads as\<close>

lemma nondigit_tail: "(r = [] \<or> \<not> is_digit (hd r)) \<Longrightarrow> \<forall>c \<in> set d. is_digit c \<Longrightarrow>
    takeWhile is_digit (d @ r) = d \<and> dropWhile is_digit (d @ r) = r"
  by (cases r) auto

lemma mantissa_plain:
  assumes "\<forall>c \<in> set d. is_digit c" "d \<noteq> []" "r = [] \<or> \<not> is_digit (hd r) \<and> hd r \<noteq> CHR ''.''"
  shows "mantissa (d @ r) = Some (d, [], r)"
proof -
  have "takeWhile is_digit (d @ r) = d \<and> dropWhile is_digit (d @ r) = r" using assms by (intro nondigit_tail) auto
  then have t: "takeWhile is_digit (d @ r) = d" "dropWhile is_digit (d @ r) = r" by blast+
  show ?thesis using assms(2,3) unfolding mantissa_def Let_def t by (cases r) simp_all
qed

lemma mantissa_point:
  assumes "\<forall>c \<in> set d. is_digit c" "\<forall>c \<in> set f. is_digit c" "d \<noteq> []" "r = [] \<or> \<not> is_digit (hd r)"
  shows "mantissa (d @ CHR ''.'' # f @ r) = Some (d, f, r)"
proof -
  have "\<not> is_digit (CHR ''.'')" by (simp add: is_digit_def)
  then have "takeWhile is_digit (d @ CHR ''.'' # f @ r) = d \<and> dropWhile is_digit (d @ CHR ''.'' # f @ r) = CHR ''.'' # f @ r"
    using assms(1) by (intro nondigit_tail) auto
  moreover have "takeWhile is_digit (f @ r) = f \<and> dropWhile is_digit (f @ r) = r" using assms(2,4) by (intro nondigit_tail) auto
  ultimately show ?thesis using assms(3) unfolding mantissa_def by simp
qed

text \<open>The digits before and after the point, and the rest.\<close>

definition pointed :: "string \<Rightarrow> string \<Rightarrow> string" where
  "pointed ip f = ip @ (if f = [] then [] else CHR ''.'' # f)"

lemma pointed_literal:
  assumes "\<forall>c \<in> set (ip @ f). is_digit c" "ip \<noteq> []" "exponent_part r"
  shows "kQ (pointed ip f @ r)
    \<and> literal_val (pointed ip f @ r) = of_nat (digits_val (ip @ f)) * ten ((if r = [] then 0 else signed_val (tl r)) - int (length f))"
proof -
  have r: "r = [] \<or> \<not> is_digit (hd r) \<and> hd r \<noteq> CHR ''.''"
    using assms(3) by (auto simp: exponent_part_def is_digit_def split: list.splits)
  have "mantissa (pointed ip f @ r) = Some (ip, f, r)"
    using mantissa_plain [of ip r] mantissa_point [of ip f r] assms r by (auto simp: pointed_def)
  then show ?thesis using assms(3) by (simp add: kQ_def literal_val_def)
qed

lemma layout_plain:
  assumes "\<forall>c \<in> set s. is_digit c" "s \<noteq> []" "h = int (length s)"
  shows "\<exists>ip f. layout c s False a = pointed ip f \<and> ip \<noteq> [] \<and> (\<forall>c \<in> set (ip @ f). is_digit c)
    \<and> of_nat (digits_val (ip @ f)) * ten (- int (length f)) = of_nat (digits_val s) * ten (c - h + 1)
    \<and> int (length f) = max (max 0 (h - c - 1)) (if a \<noteq> 0 then a - c - 1 else 0)"
    (is "\<exists>ip f. ?L ip f \<and> ?N ip \<and> ?D ip f \<and> ?V ip f \<and> ?F f")
proof -
  have h: "0 < h" using assms(2,3) by simp
  have z: "is_digit (CHR ''0'')" "\<forall>c \<in> set (Qf n). is_digit c" for n using digits_Qf by (simp_all add: is_digit_def)
  have lQ [simp]: "length (Qf n) = n" for n by (simp add: Qf_def)
  define j where "j = (if a \<noteq> 0 \<and> 0 < a - h then nat (a - h) else 0)"
  have j: "fill a (a - h) = Qf j" by (simp add: fill_def j_def Qf_def)
  have val: "?V ip f" if "digits_val (ip @ f) = digits_val s * 10 ^ k" "int k - int (length f) = c - h + 1" for ip f k
    unfolding that(1) that(2) [symmetric] by (simp add: ten_add [of "int k" "- int (length f)", simplified] ten_nat)
  consider "c < 0" | "0 \<le> c" "h \<le> c" | "0 \<le> c" "c < h" by linarith
  then show ?thesis
  proof cases
    case 1
    let ?f = "Qf (nat (- c - 1)) @ s @ Qf j"
    have "?L ''0'' ?f" using 1 j assms(2,3) by (simp add: layout_def pointed_def)
    moreover have "?V ''0'' ?f"
    proof (rule val)
      have "''0'' @ ?f = Qf (Suc (nat (- c - 1))) @ s @ Qf j" by (simp add: Qf_def)
      then show "digits_val (''0'' @ ?f) = digits_val s * 10 ^ j" by (simp only: digits_val_Qf)
      show "int j - int (length ?f) = c - h + 1" using 1 by (simp add: assms(3))
    qed
    moreover have "?F ?f" using 1 h by (auto simp: j_def assms(3))
    moreover have "?D ''0'' ?f" using assms(1) z by auto
    ultimately show ?thesis by blast
  next
    case 2
    let ?ip = "s @ Qf (nat (c + 1 - h))" and ?f = "fill a (a - c - 1)"
    define k where "k = length ?f"
    have f: "?f = Qf k" by (simp add: k_def fill_def Qf_def)
    have "?L ?ip ?f" using 2 assms(3) by (simp add: layout_def pointed_def fill_def) (simp add: Qf_def)
    moreover have "?V ?ip ?f"
    proof (rule val)
      have "?ip @ ?f = s @ Qf (nat (c + 1 - h) + k)" unfolding f by (simp add: Qf_def replicate_add)
      then show "digits_val (?ip @ ?f) = digits_val s * 10 ^ (nat (c + 1 - h) + k)" by (simp only: digits_val_Qf)
      show "int (nat (c + 1 - h) + k) - int (length ?f) = c - h + 1" using 2 by (simp add: f)
    qed
    moreover have "?F ?f" using 2 by (simp add: fill_def)
    moreover have "?D ?ip ?f" using assms(1) z f by auto
    ultimately show ?thesis using assms(2) by blast
  next
    case 3
    let ?i = "nat (c + 1)"
    let ?ip = "take ?i s" and ?f = "drop ?i s @ Qf j"
    have "?L ?ip ?f" using 3 j assms(2,3) by (auto simp: layout_def pointed_def j_def Let_def Qf_def)
    moreover have "?V ?ip ?f"
    proof (rule val)
      have "?ip @ ?f = s @ Qf j" by simp
      then show "digits_val (?ip @ ?f) = digits_val s * 10 ^ j" by (simp only: digits_val_Qf)
      show "int j - int (length ?f) = c - h + 1" using 3 assms(3) by (simp add: of_nat_diff)
    qed
    moreover have "?F ?f" using 3 by (auto simp: j_def assms(3))
    moreover have "?D ?ip ?f" using assms(1) z by (auto dest: in_set_takeD in_set_dropD)
    moreover have "?N ?ip" using assms(2) 3 by simp
    ultimately show ?thesis by blast
  qed
qed

lemma digit_val_cons: "\<forall>c \<in> set s. is_digit c \<Longrightarrow> s \<noteq> [] \<Longrightarrow> signed_val s = int (digits_val s)"
  by (cases s) (auto simp: signed_val_def is_digit_def)

lemma exponent_text:
  defines "r c \<equiv> (if c < 0 then ''e'' else ''e+'') @ show_int c"
  shows "exponent_part (r c) \<and> r c \<noteq> [] \<and> signed_val (tl (r c)) = c"
proof -
  have d: "hd (show_nat n) \<noteq> CHR ''+'' \<and> hd (show_nat n) \<noteq> CHR ''-''" for n
  proof -
    have "is_digit (hd (show_nat n))" using digits_show_nat hd_in_set [OF show_nat_not_Nil] by blast
    then show ?thesis by (auto simp: is_digit_def)
  qed
  show ?thesis
    using digits_show_nat [of "nat (- c)"] digits_show_nat [of "nat c"]
    by (simp add: r_def show_int_def exponent_part_def signed_val_def)
qed

lemma layout_sci:
  assumes "\<forall>c \<in> set s. is_digit c" "s \<noteq> []"
  shows "\<exists>ip f. layout c s True a = pointed ip f @ (if c < 0 then ''e'' else ''e+'') @ show_int c
    \<and> ip \<noteq> [] \<and> (\<forall>c \<in> set (ip @ f). is_digit c)
    \<and> of_nat (digits_val (ip @ f)) * ten (- int (length f)) = of_nat (digits_val s) * ten (1 - int (length s))"
proof -
  define f where "f = drop 1 s @ fill a (a - int (length s))"
  define k where "k = length (fill a (a - int (length s)))"
  have k: "fill a (a - int (length s)) = Qf k" by (simp add: k_def fill_def Qf_def)
  have "1 < length s \<longleftrightarrow> drop 1 s \<noteq> []" by auto
  then have "layout c s True a = pointed (take 1 s) f @ (if c < 0 then ''e'' else ''e+'') @ show_int c"
    using assms(2) by (cases s) (auto simp: layout_def pointed_def f_def fill_def Let_def Qf_def)
  moreover have "take 1 s @ f = s @ Qf k" unfolding f_def k by (simp add: append_assoc [symmetric] del: append_assoc)
  moreover have "of_nat (digits_val (s @ Qf k)) * ten (- int (length f)) = of_nat (digits_val s) * ten (1 - int (length s))"
  proof -
    have e: "int k + - int (length f) = 1 - int (length s)" using assms(2) unfolding f_def length_append k by (cases s) (simp_all add: Qf_def)
    show ?thesis unfolding e [symmetric] by (simp add: ten_add [of "int k" "- int (length f)", simplified] ten_nat)
  qed
  moreover have "\<forall>c \<in> set (s @ Qf k). is_digit c" using assms(1) digits_Qf by auto
  ultimately show ?thesis using assms(2) by (intro exI [of _ "take 1 s"] exI [of _ f]) (simp only:, simp)
qed

text \<open>Any layout of the digits is a literal with the value of the digits.\<close>

lemma layout_literal:
  assumes "\<forall>c \<in> set s. is_digit c" "s \<noteq> []"
  shows "kQ (layout c s t a) \<and> literal_val (layout c s t a) = of_nat (digits_val s) * ten (c - int (length s) + 1)"
proof (cases t)
  case False
  obtain ip f where l: "layout c s False a = pointed ip f" "ip \<noteq> []" "\<forall>c \<in> set (ip @ f). is_digit c"
    "of_nat (digits_val (ip @ f)) * ten (- int (length f)) = of_nat (digits_val s) * ten (c - int (length s) + 1)"
    using layout_plain [OF assms refl, of c a] by blast
  show ?thesis using pointed_literal [OF l(3,2), of "[]"] l False by (simp add: exponent_part_def)
next
  case True
  let ?r = "(if c < 0 then ''e'' else ''e+'') @ show_int c"
  obtain ip f where l: "layout c s True a = pointed ip f @ ?r" "ip \<noteq> []" "\<forall>c \<in> set (ip @ f). is_digit c"
    "of_nat (digits_val (ip @ f)) * ten (- int (length f)) = of_nat (digits_val s) * ten (1 - int (length s))"
    using layout_sci [OF assms, of c a] by blast
  have e: "exponent_part ?r" "?r \<noteq> []" "signed_val (tl ?r) = c" using exponent_text [of c] by blast+
  have "kQ (pointed ip f @ ?r) \<and> literal_val (pointed ip f @ ?r) = of_nat (digits_val (ip @ f)) * ten (c - int (length f))"
    using pointed_literal [OF l(3,2) e(1)] unfolding e(3) if_not_P [OF e(2)] .
  moreover have "ten (c - int (length f)) = ten (- int (length f)) * ten c" "ten (c - int (length s) + 1) = ten (1 - int (length s)) * ten c"
    by (simp_all add: ten_add [symmetric] algebra_simps)
  ultimately show ?thesis using True unfolding l(1) by (simp only: mult.assoc [symmetric] l(4)) (simp only: l(1))
qed

text \<open>A decimal that is written in any way is read as the same value.\<close>

lemma No_value:
  assumes "dec_ok x"
  shows "\<exists>s. No (d_d x) = Some s \<and> s \<noteq> [] \<and> (\<forall>c \<in> set s. is_digit c) \<and> (d_s x = 0 \<and> s = ''0'' \<or> digits_val s mod 10 \<noteq> 0)
    \<and> of_nat (digits_val s) * ten (exponent x - int (length s) + 1) = \<bar>dval x\<bar>"
proof (cases "d_s x = 0")
  case True
  then have "x = zero_decimal" using assms by (auto simp: dec_ok_def)
  then show ?thesis using digits_val_zeros [of 1] by (simp add: zero_decimal_def No_def is_digit_def dval_def)
next
  case False
  have ok: "limbs_ok (d_d x)" using dec_ok_limbs [OF assms False] by blast
  obtain s k where s: "No (d_d x) = Some s" "s \<noteq> []" "\<forall>c \<in> set s. is_digit c" "digits_val s mod 10 \<noteq> 0"
    "limbs (d_d x) = digits_val s * 10 ^ k" "length s + k = count10 (hd (d_d x)) + 7 * (length (d_d x) - 1)"
    using No_correct [OF ok] by blast
  have "0 < length (d_d x)" using ok by (simp add: limbs_ok_def)
  then have "int (length s + k) = int (count10 (hd (d_d x))) + 7 * (int (length (d_d x)) - 1)" unfolding s(6) by (cases "d_d x") simp_all
  then have e: "int k + 7 * (d_e x - int (length (d_d x)) + 1) = exponent x - int (length s) + 1"
    by (simp add: exponent_def qn_def)
  have "magnitude (d_d x) (d_e x) = of_nat (digits_val s) * (of_nat (10 ^ k) * ten (7 * (d_e x - int (length (d_d x)) + 1)))"
    unfolding magnitude_def s(5) base_pow_ten by simp
  then have "magnitude (d_d x) (d_e x) = of_nat (digits_val s) * ten (exponent x - int (length s) + 1)"
    unfolding ten_nat [symmetric] ten_add [symmetric] e .
  then show ?thesis using s abs_dval [OF assms False] by simp
qed

lemma ap_literal:
  assumes "dec_ok x"
  shows "\<exists>r. ap x t a = Some ((if d_s x < 0 then ''-'' else []) @ r) \<and> kQ r \<and> literal_val r = \<bar>dval x\<bar>"
proof -
  obtain s where s: "No (d_d x) = Some s" "s \<noteq> []" "\<forall>c \<in> set s. is_digit c"
    "of_nat (digits_val s) * ten (exponent x - int (length s) + 1) = \<bar>dval x\<bar>" using No_value [OF assms] by blast
  show ?thesis using layout_literal [OF s(3,2), of "exponent x" t a] s(1,4) by (simp add: ap_def)
qed

text \<open>The number of decimals and of significant digits are those of the digits that are written.\<close>

lemma dp_sd_digits:
  assumes "limbs_ok (d_d x)"
  shows "\<exists>s. No (d_d x) = Some s \<and> dec_sd False x = Some (int (length s)) \<and> dec_dp x = Some (max 0 (int (length s) - exponent x - 1))"
proof -
  obtain s k m where s: "No (d_d x) = Some s" "length s + k = count10 (hd (d_d x)) + 7 * (length (d_d x) - 1)"
    "strip10 (last (d_d x)) = Some m" "count10 (last (d_d x)) = count10 m + k" using No_correct [OF assms] by blast
  have ne: "d_d x \<noteq> []" "last (d_d x) \<noteq> 0" using assms by (auto simp: limbs_ok_def)
  have "int (length s + k) = int (count10 (hd (d_d x))) + 7 * (int (length (d_d x)) - 1)" unfolding s(2) using ne(1) by (cases "d_d x") simp_all
  then have l: "int (length s) = int (count10 (hd (d_d x))) + 7 * (int (length (d_d x)) - 1) - int k" by simp
  show ?thesis using s(1,3,4) ne(2) l by (simp add: dec_sd_def dec_dp_def exponent_def qn_def Let_def)
qed

text \<open>A value has one representation.\<close>

lemma cmp_limbs_0: "cmp_limbs n d d' = 0 \<Longrightarrow> d = d'"
  by (induction n d d' rule: cmp_limbs.induct) (auto simp: cmp_sign_def split: if_splits)

lemma dval_inj:
  assumes "dec_ok x" "dec_ok y" "dval x = dval y"
  shows "x = y"
proof -
  have s: "d_s x = d_s y" using dval_sign [OF assms(1)] dval_sign [OF assms(2)] assms(3) by simp
  show ?thesis
  proof (cases "d_s x = 0")
    case True
    then show ?thesis using assms(1,2) s by (auto simp: dec_ok_def)
  next
    case False
    then have ok: "limbs_ok (d_d x)" "limbs_ok (d_d y)" using dec_ok_limbs assms(1,2) s by auto
    have "magnitude (d_d x) (d_e x) = magnitude (d_d y) (d_e y)" using assms(3) s False by (simp add: dval_def)
    then have c: "(if d_e x \<noteq> d_e y then cmp_sign (d_e y < d_e x) True else cmp_limbs True (d_d x) (d_d y)) = 0"
      using compare_magnitudes [OF ok, of "d_e x" "d_e y" True] by simp
    then have "d_e x = d_e y" by (auto simp: cmp_sign_def split: if_splits)
    then show ?thesis using c s cmp_limbs_0 by auto
  qed
qed

lemma kQ_head: "kQ s \<Longrightarrow> s \<noteq> [] \<and> hd s \<noteq> CHR ''-''"
  by (cases s) (auto simp: kQ_def mantissa_def is_digit_def)

text \<open>C11: Every decimal number, written with \<open>toString\<close> under any settings, is read back by the constructor as the same
  number, limb by limb, if its exponent is in the range of decimals.\<close>

theorem decimal_text_roundtrip:
  assumes "dec_ok x" and "\<bar>d_e x\<bar> \<le> max_exponent"
  shows "\<exists>s. dec_toString S x = Some s \<and> new_decimal ext (AString s) = Inr x"
proof -
  let ?t = "exponent x \<le> st_toExpNeg S \<or> st_toExpPos S \<le> exponent x"
  obtain r where r: "ap x ?t 0 = Some ((if d_s x < 0 then ''-'' else []) @ r)" "kQ r" "literal_val r = \<bar>dval x\<bar>"
    using ap_literal [OF assms(1)] by blast
  define sg where "sg = (if d_s x < 0 then -1 else 1 :: int)"
  have "of_int sg * literal_val r = dval x"
    using dval_sign [OF assms(1)] r(3) by (auto simp: sg_def sgn_if split: if_splits)
  moreover have "sg = 1 \<or> sg = -1" by (simp add: sg_def)
  ultimately have "CU ext sg r = Inr x" using CU_literal [OF r(2), of sg ext] dval_inj [OF _ assms(1)] assms(2) by fastforce
  then have "new_decimal ext (AString ((if d_s x < 0 then ''-'' else []) @ r)) = Inr x"
    using r(2) kQ_head [OF r(2)] by (cases r) (auto simp: new_decimal_def sg_def)
  then show ?thesis using r(1) by (auto simp: dec_toString_def Let_def)
qed

theorem decimal_text_roundtrip_witness:
  "\<exists>s. dec_toString PQ \<lparr>d_s = -1, d_e = 0, d_d = [12, 3400000]\<rparr> = Some s
    \<and> new_decimal True (AString s) = Inr \<lparr>d_s = -1, d_e = 0, d_d = [12, 3400000]\<rparr>"
  by (rule decimal_text_roundtrip) (simp_all add: dec_ok_def limbs_ok_def Kr_def max_exponent_def)

section \<open>A number of decimals\<close>

lemma dval_abs: "dec_ok x \<Longrightarrow> dec_ok (dec_abs x) \<and> dval (dec_abs x) = \<bar>dval x\<bar> \<and> exponent (dec_abs x) = exponent x \<and> 0 \<le> d_s (dec_abs x)"
  by (auto simp: dec_abs_def dec_ok_def dval_def abs_mult exponent_def zero_decimal_def)

lemma abs_ten [simp]: "\<bar>ten k\<bar> = ten k"
  using ten_pos(1) [of k] by (simp only: abs_of_pos)

lemma round_spec_nonneg: "0 \<le> m \<Longrightarrow> 0 \<le> round_spec (Some a) neg m"
  by (auto simp: round_spec_def le_ceiling_iff)

lemma round_spec_0: "round_spec (Some a) neg 0 = 0"
proof -
  have "\<lceil>- (1 / 2 :: rat)\<rceil> = 0" "\<lfloor>1 / 2 :: rat\<rfloor> = 0" by code_simp+
  then show ?thesis by (simp add: round_spec_def frac_def)
qed

text \<open>Rounding to \<open>e\<close> decimals.\<close>

lemma xn_zero_digits: "1 \<le> t \<Longrightarrow> xn ext zero_decimal t m = Inr zero_decimal"
  by (simp add: xn_def find_cut_def zero_decimal_def count10.simps qn_def Let_def)

lemma xn_decimals:
  assumes "dec_ok x" "a \<le> 8" "0 \<le> e" "xn ext x (e + exponent x + 1) (Some a) = Inr i"
  shows "dec_ok i \<and> \<bar>dval i\<bar> = of_int (round_spec (Some a) (d_s x < 0) (\<bar>dval x\<bar> * ten e)) * ten (- e)"
proof (cases "d_s x = 0")
  case True
  then have x: "x = zero_decimal" using assms(1) by (auto simp: dec_ok_def)
  moreover have "exponent zero_decimal = 0" by (simp add: exponent_def zero_decimal_def count10.simps)
  ultimately have "i = zero_decimal" using assms(3,4) xn_zero_digits by simp
  then show ?thesis using x by (simp add: dec_ok_def round_spec_0)
next
  case False
  have u: "digit_unit x (e + exponent x + 1) = ten (- e)" by (simp add: digit_unit_def)
  have m: "modes_ok (Some a)" using assms(2) by (simp add: modes_ok_def)
  have s: "\<bar>d_s x\<bar> = 1" using dec_ok_limbs [OF assms(1) False] by auto
  let ?N = "round_spec (Some a) (d_s x < 0) (\<bar>dval x\<bar> * ten e)"
  have "dec_ok i" "dval i = of_int (d_s x * ?N) * ten (- e)"
    using xn_rounds [OF assms(1) False m assms(4)] unfolding in_units_def u by (simp_all add: ten_minus)
  moreover have "0 \<le> ?N" by (rule round_spec_nonneg) (simp add: less_imp_le)
  then have "\<bar>d_s x * ?N\<bar> = ?N" using s by (simp add: abs_mult)
  then have "\<bar>of_int (d_s x * ?N)\<bar> = (of_int ?N :: rat)" by (simp only: of_int_abs [symmetric])
  ultimately show ?thesis by (simp add: abs_mult)
qed

text \<open>A number with at most \<open>n\<close> decimals that is written with \<open>n\<close> decimals.\<close>

lemma fixed_layout:
  assumes "dec_ok j" "0 \<le> d_s j" "dval j = of_int N * ten (- n)" "0 \<le> n" "0 \<le> N"
  shows "\<exists>ip f. ap j False (n + exponent j + 1) = Some (pointed ip f) \<and> ip \<noteq> [] \<and> (\<forall>c \<in> set (ip @ f). is_digit c)
    \<and> int (length f) = n \<and> int (digits_val (ip @ f)) = N"
proof -
  let ?c = "exponent j"
  obtain s where s: "No (d_d j) = Some s" "s \<noteq> []" "\<forall>c \<in> set s. is_digit c" "d_s j = 0 \<and> s = ''0'' \<or> digits_val s mod 10 \<noteq> 0"
    "of_nat (digits_val s) * ten (?c - int (length s) + 1) = \<bar>dval j\<bar>" using No_value [OF assms(1)] by blast
  have v: "of_nat (digits_val s) * ten (?c - int (length s) + 1) = of_int N * ten (- n)" using s(5) assms(3,5) by (simp add: abs_mult)
  have le: "int (length s) - ?c - 1 \<le> n"
  proof (rule ccontr)
    assume "\<not> int (length s) - ?c - 1 \<le> n"
    then obtain k where k: "int (length s) - ?c - 1 = n + int (Suc k)" by (metis add.commute linorder_not_le zless_iff_Suc_zadd)
    then have e: "- n = int (Suc k) + (?c - int (length s) + 1)" by simp
    have "of_nat (digits_val s) = (of_int N * of_nat (10 ^ Suc k) :: rat)" using v unfolding e ten_add ten_nat by (simp add: mult.assoc [symmetric])
    then have "(of_int (int (digits_val s)) :: rat) = of_int (N * 10 ^ Suc k)" by simp
    then have d: "int (digits_val s) = N * 10 ^ Suc k" by (simp only: of_int_eq_iff)
    then have "int (digits_val s) mod 10 = 0" by simp
    then have "digits_val s mod 10 = 0" by presburger
    then have "s = ''0''" "j = zero_decimal" using s(4) assms(1) by (auto simp: dec_ok_def)
    then show False using k assms(4) by (simp add: exponent_def zero_decimal_def count10.simps)
  qed
  have "0 < length s" using s(2) by simp
  then have a: "n + ?c + 1 \<noteq> 0" using le by linarith
  obtain ip f where l: "layout ?c s False (n + ?c + 1) = pointed ip f" "ip \<noteq> []" "\<forall>c \<in> set (ip @ f). is_digit c"
    "of_nat (digits_val (ip @ f)) * ten (- int (length f)) = of_nat (digits_val s) * ten (?c - int (length s) + 1)"
    "int (length f) = max (max 0 (int (length s) - ?c - 1)) (if n + ?c + 1 \<noteq> 0 then n + ?c + 1 - ?c - 1 else 0)"
    using layout_plain [OF s(3,2) refl, of ?c "n + ?c + 1"] by blast
  have f: "int (length f) = n" using l(5) a le assms(4) by simp
  have "(of_int (int (digits_val (ip @ f))) :: rat) = of_int N" using l(4) unfolding f v by simp
  then have "int (digits_val (ip @ f)) = N" by (simp only: of_int_eq_iff)
  then show ?thesis using l(1-3) f s(1) assms(2) by (auto simp: ap_def)
qed

lemma Lo_None: "Lo e t a = None \<longleftrightarrow> e = of_int \<lfloor>e\<rfloor> \<and> t \<le> e \<and> e \<le> a"
  by (auto simp: Lo_def)

text \<open>The arguments that are accepted, and the rounding mode that they give.\<close>

definition args_ok :: "rat \<Rightarrow> jnum \<Rightarrow> jnum option \<Rightarrow> bool" where
  "args_ok lo e t \<longleftrightarrow> Lo e lo Sv = None \<and> (\<forall>r. t = Some r \<longrightarrow> Lo r 0 8 = None)"

definition mode_of :: "settings \<Rightarrow> jnum option \<Rightarrow> nat" where
  "mode_of S t = (case t of None \<Rightarrow> st_rounding S | Some r \<Rightarrow> nat \<lfloor>r\<rfloor>)"

lemma rounded_cases:
  "rounded ext S x lo e t k = (if args_ok lo e t then xn ext x (k \<lfloor>e\<rfloor>) (Some (mode_of S t)) else rounded ext S x lo e t k)"
  "\<not> args_ok lo e t \<Longrightarrow> \<exists>str. rounded ext S x lo e t k = Inl (InvalidArgument str)"
  by (auto simp: rounded_def args_ok_def mode_of_def Lo_def split: option.split if_splits)

lemma mode_of_ok: "args_ok lo e t \<Longrightarrow> st_rounding S \<le> 8 \<Longrightarrow> mode_of S t \<le> 8"
  by (auto simp: args_ok_def mode_of_def Lo_None floor_le_iff nat_le_iff split: option.splits)

text \<open>C12: Writing a decimal number with a number of decimals returns, and gives exactly these decimals: the number rounded
  in the given mode, one of nine. The minus sign is the one of the number before rounding. The errors are an argument
  that is not an integer in its range, and an exponent out of range.\<close>

theorem toFixed_correct:
  assumes "dec_ok x" and "st_rounding S \<le> 8"
  shows "case dec_toFixed ext S x (Some e) t of
      None \<Rightarrow> False
    | Some (Inl er) \<Rightarrow> (\<exists>str. er = InvalidArgument str) \<and> \<not> args_ok 0 e t \<or> ext \<and> args_ok 0 e t \<and> (\<exists>k. er = OutOfRange k)
    | Some (Inr s) \<Rightarrow>
        args_ok 0 e t
        \<and> (\<exists>ip f. s = (if dval x < 0 then ''-'' else []) @ pointed ip f \<and> ip \<noteq> [] \<and> (\<forall>c \<in> set (ip @ f). is_digit c)
             \<and> int (length f) = \<lfloor>e\<rfloor>
             \<and> int (digits_val (ip @ f)) = round_spec (Some (mode_of S t)) (dval x < 0) (\<bar>dval x\<bar> * ten \<lfloor>e\<rfloor>))"
proof (cases "args_ok 0 e t")
  case False
  then show ?thesis using rounded_cases(2) [OF False, of ext S x "\<lambda>n. n + exponent x + 1"] by (auto simp: dec_toFixed_def shown_def)
next
  case True
  let ?n = "\<lfloor>e\<rfloor>"
  let ?r = "xn ext x (?n + exponent x + 1) (Some (mode_of S t))"
  let ?N = "round_spec (Some (mode_of S t)) (d_s x < 0) (\<bar>dval x\<bar> * ten ?n)"
  have r: "rounded ext S x 0 e t (\<lambda>n. n + exponent x + 1) = ?r" using True by (subst rounded_cases(1)) simp
  have sg: "dval x < 0 \<longleftrightarrow> d_s x < 0" using dval_sign [OF assms(1)] by (auto simp: sgn_if split: if_splits)
  show ?thesis
  proof (cases ?r)
    case (Inl er)
    have code: "dec_toFixed ext S x (Some e) t = Some (Inl er)" by (simp add: dec_toFixed_def shown_def r Inl)
    show ?thesis unfolding code option.case sum.case using xn_errors [OF Inl] True by blast
  next
    case (Inr i)
    have n: "0 \<le> ?n" using True by (simp add: args_ok_def Lo_None)
    note i = xn_decimals [OF assms(1) mode_of_ok [OF True assms(2)] n Inr]
    have N: "0 \<le> ?N" by (rule round_spec_nonneg) (simp add: less_imp_le)
    have j: "dec_ok (dec_abs i)" "0 \<le> d_s (dec_abs i)" "dval (dec_abs i) = of_int ?N * ten (- ?n)" "exponent (dec_abs i) = exponent i"
      using dval_abs [of i] i by auto
    obtain ip f where l: "ap (dec_abs i) False (?n + exponent i + 1) = Some (pointed ip f)" "ip \<noteq> []" "\<forall>c \<in> set (ip @ f). is_digit c"
      "int (length f) = ?n" "int (digits_val (ip @ f)) = ?N"
      using fixed_layout [OF j(1-3) n N] unfolding j(4) by blast
    have code: "dec_toFixed ext S x (Some e) t = Some (Inr ((if d_s x < 0 then ''-'' else []) @ pointed ip f))"
      by (auto simp: dec_toFixed_def shown_def r Inr l(1) isneg_def isZero_def)
    show ?thesis unfolding code sg option.case sum.case using l(2-5) True by blast
  qed
qed

theorem toFixed_correct_witness:
  "case dec_toFixed True PQ \<lparr>d_s = -1, d_e = 0, d_d = [1, 2500000]\<rparr> (Some 1) (Some 6) of
      None \<Rightarrow> False
    | Some (Inl er) \<Rightarrow> \<exists>k. er = OutOfRange k
    | Some (Inr s) \<Rightarrow> \<exists>ip f. s = ''-'' @ pointed ip f \<and> length f = 1 \<and> digits_val (ip @ f) = 12"
proof -
  let ?x = "\<lparr>d_s = -1, d_e = 0, d_d = [1, 2500000]\<rparr>"
  have ok: "dec_ok ?x" "st_rounding PQ \<le> 8" by (simp_all add: dec_ok_def limbs_ok_def Kr_def PQ_def)
  have v: "dval ?x = - 125 / 100" by (simp add: dval_def magnitude_def base_pow_def Kr_def)
  have a: "args_ok 0 1 (Some 6)" "mode_of PQ (Some 6) = 6" by (simp_all add: args_ok_def Lo_None Sv_def mode_of_def)
  have "round_spec (Some 6) True (25 / 2) = 12" by code_simp
  then have w: "round_spec (Some (mode_of PQ (Some 6))) (dval ?x < 0) (\<bar>dval ?x\<bar> * ten \<lfloor>1\<rfloor>) = 12"
    unfolding a(2) v by (simp add: ten_def)
  show ?thesis using toFixed_correct [OF ok, where ext = True and e = 1 and t = "Some 6"] unfolding w using a(1) v
    by (auto split: option.splits sum.splits)
qed

end
