(* ===== verification/Decimal_Config.thy ===== *)
theory Decimal_Config
  imports Decimal_Text
begin

text \<open>
  The settings of a decimal class: \<open>config\<close> checks the settings of an object one after the other and stores each one
  that is valid. The settings before the first invalid one stay stored when it throws. The logarithm of
  ten is left out, and numbers are finite.
\<close>

section \<open>The code\<close>

record config_object =
  co_precision :: "jnum option"
  co_rounding :: "jnum option"
  co_toExpNeg :: "jnum option"
  co_toExpPos :: "jnum option"

text \<open>One setting: \<open>undefined\<close> is skipped, an integer between the bounds is stored, and anything else throws. A lower or
  upper bound \<open>None\<close> is infinite.\<close>

definition set_one ::
  "string \<Rightarrow> rat option \<Rightarrow> rat option \<Rightarrow> (int \<Rightarrow> settings \<Rightarrow> settings) \<Rightarrow> jnum option \<Rightarrow> settings \<Rightarrow> settings \<times> decimal_error option" where
  "set_one a lo hi st v S =
     (case v of
        None \<Rightarrow> (S, None)
      | Some i \<Rightarrow>
          if i = of_int \<lfloor>i\<rfloor> \<and> (\<forall>l \<in> set_option lo. l \<le> i) \<and> (\<forall>h \<in> set_option hi. i \<le> h)
          then (st \<lfloor>i\<rfloor> S, None)
          else (S, Some (InvalidArgument (a @ '': '' @ number_to_string i))))"

definition then_set ::
  "settings \<times> decimal_error option \<Rightarrow> (settings \<Rightarrow> settings \<times> decimal_error option) \<Rightarrow> settings \<times> decimal_error option" where
  "then_set r f = (case r of (S, Some er) \<Rightarrow> (S, Some er) | (S, None) \<Rightarrow> f S)"

definition YQ :: "config_object \<Rightarrow> settings \<Rightarrow> settings \<times> decimal_error option" where
  "YQ e S =
     then_set
       (then_set
         (then_set
           (set_one ''precision'' (Some 1) (Some Sv) (\<lambda>i S. S\<lparr>st_precision := nat i\<rparr>) (co_precision e) S)
           (set_one ''rounding'' (Some 0) (Some 8) (\<lambda>i S. S\<lparr>st_rounding := nat i\<rparr>) (co_rounding e)))
         (set_one ''toExpNeg'' None (Some 0) (\<lambda>i S. S\<lparr>st_toExpNeg := i\<rparr>) (co_toExpNeg e)))
       (set_one ''toExpPos'' (Some 0) None (\<lambda>i S. S\<lparr>st_toExpPos := i\<rparr>) (co_toExpPos e))"

section \<open>Settings stay valid\<close>

definition settings_ok :: "settings \<Rightarrow> bool" where
  "settings_ok S \<longleftrightarrow> 1 \<le> st_precision S \<and> st_precision S \<le> 1000000000 \<and> st_rounding S \<le> 8 \<and> st_toExpNeg S \<le> 0 \<and> 0 \<le> st_toExpPos S"

lemma settings_PQ: "settings_ok PQ"
  by (simp add: settings_ok_def PQ_def)

lemma set_one_ok:
  assumes "settings_ok S" "\<And>i. v = Some (of_int i) \<Longrightarrow> (\<forall>l \<in> set_option lo. l \<le> of_int i) \<Longrightarrow> (\<forall>h \<in> set_option hi. of_int i \<le> h) \<Longrightarrow> settings_ok (st i S)"
  shows "settings_ok (fst (set_one a lo hi st v S))"
  using assms by (cases v) (auto simp: set_one_def)

lemma then_set_ok: "settings_ok (fst r) \<Longrightarrow> (\<And>S. settings_ok S \<Longrightarrow> settings_ok (fst (f S))) \<Longrightarrow> settings_ok (fst (then_set r f))"
  by (cases r) (auto simp: then_set_def split: option.splits)

text \<open>Whatever the object and wherever it throws, the settings stay valid, so that every operation of a class whose
  settings start valid has a precision of at least one digit and one of the nine rounding modes.\<close>

lemma YQ_ok: "settings_ok S \<Longrightarrow> settings_ok (fst (YQ e S))"
  unfolding YQ_def
  by (intro then_set_ok set_one_ok; auto simp: settings_ok_def Sv_def le_nat_iff nat_le_iff)

text \<open>Settings that are accepted are stored, the others keep their values.\<close>

lemma YQ_stores:
  assumes "YQ e S = (S', None)"
  shows "int (st_precision S') = (case co_precision e of None \<Rightarrow> int (st_precision S) | Some i \<Rightarrow> \<lfloor>i\<rfloor>)
    \<and> int (st_rounding S') = (case co_rounding e of None \<Rightarrow> int (st_rounding S) | Some i \<Rightarrow> \<lfloor>i\<rfloor>)
    \<and> st_toExpNeg S' = (case co_toExpNeg e of None \<Rightarrow> st_toExpNeg S | Some i \<Rightarrow> \<lfloor>i\<rfloor>)
    \<and> st_toExpPos S' = (case co_toExpPos e of None \<Rightarrow> st_toExpPos S | Some i \<Rightarrow> \<lfloor>i\<rfloor>)"
  using assms by (auto simp: YQ_def then_set_def set_one_def le_floor_iff split: option.splits if_splits)

end
