(* ===== verification/Spec2Isabelle.thy ===== *)
theory Spec2Isabelle
  imports Server_Routes Scheduler React_Lanes React_Children Admin_App Admin_Entry Lodash_Cache Lodash_Debounce Lodash_Sort
    Event_Emitter Decimal_Div Decimal_Config
begin

text \<open>
  The admin dashboard of the Open Job Spec backend for SQS.

  The JavaScript of the repository is the built dashboard in \<open>src/internal/admin/dist\<close>: the bundle
  \<open>index-DxrWcVFD.js\<close> and its two entry files. The bundle holds the dashboard itself (its API
  client, the polling hook and the pages, at the end of the file) and the libraries it is built
  on: React with its task scheduler, the router, and a chart library with its utilities. Names
  are those of the bundle; where the bundler has shortened a name, the text before the
  definition gives it, and the definition carries the name of the library's own API.

  How the parts interact. An entry file mounts the application \<open>Gre\<close> below the basename \<open>/ojs/admin\<close>.
  \<open>BrowserRouter\<close> listens to the browser history and gives the location to \<open>Routes\<close>, which matches
  it against the routes of the application and renders the layout with a page in its outlet. A
  page calls the polling hook \<open>es\<close> with methods of the API client, shows what the hook reports
  and turns clicks into calls of the client. The renderer asks its lanes what to work on next and
  gives the work to the task scheduler, which runs it in slices driven by messages and timeouts of
  the browser. The chart on the dashboard goes through the sorting, the caches, the decimal
  numbers, the event emitter and the throttled handlers of the chart library.

  Theories, and the code they model.

  \<^item> \<open>Prelude\<close>, \<open>Js_Number\<close>, \<open>Js_Uri\<close>, \<open>Ui_Tree\<close>: what the language and the browser do that
    the code relies on: strings, property lists, numbers rounded to 53 bits and their decimal text,
    percent encoding, JSON values, element trees and the order in which a click runs the handlers.
  \<^item> \<open>Admin_Client\<close> (class \<open>n8\<close>): every method as the request it issues, and which answers become
    errors. Identifiers and filters survive the encoding (round trips). \<open>Server_Routes\<close>
    (\<open>src/internal/server/server.go\<close>): the route table, and the calls of the client that no route
    serves.
  \<^item> \<open>Admin_Poll\<close> (\<open>es\<close>): the asynchronous callback is cut at its \<open>await\<close>, and a run is any
    interleaving of calls, answers, changes of the fetcher and unmounting; invariants of the shown
    values and of the intervals, and the late answers that overwrite newer ones.
  \<^item> \<open>Admin_Format\<close>, \<open>Admin_Data\<close>, \<open>Admin_Dashboard\<close>, \<open>Admin_Layout\<close>, \<open>Admin_Busy\<close>, \<open>Admin_Queues\<close>,
    \<open>Admin_Jobs\<close>, \<open>Admin_Workers\<close>, \<open>Admin_Dead_Letter\<close>, \<open>Admin_Settings\<close>: the formatters and the pages.
    A page is a state record, a function from state to an element tree, and a handler function from
    actions to a new state and calls; the theorems say which controls a state offers, what a click
    does, and what happens when several calls are in flight.
  \<^item> \<open>Router_Paths\<close>, \<open>Router_Match\<close>, \<open>Router_History\<close>, \<open>Router_Render\<close>, \<open>Router_Link\<close>, \<open>Admin_App\<close>:
    path arithmetic, route ranking and patterns, the history over the session history of the browser,
    rendering of matches, links, and the application's own routes. The theorems lead up to
    what a click on the sidebar shows and what the back button shows after it.
  \<^item> \<open>Sched_Heap\<close>, \<open>Scheduler\<close>: the two binary heaps and the message loop of the task scheduler,
    as a step relation over what the browser can do; no wake-up is lost, the most urgent work runs
    first, and a slice ends.
  \<^item> \<open>React_Lanes\<close>, \<open>React_Children\<close>: the lane sets of a root as 32-bit words, and the
    functions on children with the keys they make.
  \<^item> \<open>Lodash_Cache\<close>, \<open>Lodash_Debounce\<close>, \<open>Lodash_Sort\<close>, \<open>Event_Emitter\<close>: the caches behind memoized
    functions (they refine a finite map), debounced and throttled functions, \<open>sortBy\<close>, and the
    emitter (it refines a list of listeners for each event).
  \<^item> \<open>Decimal_Core\<close>, \<open>Decimal_Round\<close>, \<open>Decimal_Digits\<close>, \<open>Decimal_Cut\<close>, \<open>Decimal_Rounding\<close>,
    \<open>Decimal_Truncate\<close>, \<open>Decimal_Mul\<close>, \<open>Decimal_Add\<close>, \<open>Decimal_Long\<close>, \<open>Decimal_Quotient\<close>, \<open>Decimal_Div\<close>,
    \<open>Decimal_Parse\<close>, \<open>Decimal_Text\<close>, \<open>Decimal_Config\<close>: the decimal
    numbers behind the ticks of the axes, as lists of limbs in base \<open>10000000\<close>. Comparison, rounding in nine modes,
    the four operations and the remainder are compared with the rational numbers that the limbs
    stand for: every result is the exact one, truncated to the precision. The constructor reads every
    literal exactly, the text of a number is read back as the same number, and \<open>toFixed\<close> gives the
    decimals of the rounded number. Settings stay valid, so precision and rounding mode are always usable.
  \<^item> \<open>Admin_Entry\<close>: the entry files and \<open>clsx\<close>.

  Interfaces. \<open>Admin_Poll\<close> states what a page may assume of a data source as a locale and interprets it on the
  hook; \<open>Lodash_Cache\<close> states the laws of a lookup table and of a counting cache and interprets
  them on each of the caches; \<open>Sched_Heap\<close> states what a comparison must satisfy for the heap
  operations to be correct, interpreted on the comparison of tasks; \<open>Router_Match\<close> states what a
  comparison by score gives for the ranking of routes.

  Bounds and fuel. The work loop of the scheduler runs callbacks that are arbitrary, so it takes fuel and
  returns \<^const>\<open>None\<close> when it runs out; for callbacks that schedule nothing, one unit for each queued
  task and one more are enough. The loop that strips the zeros of a limb does not end
  for the limb \<open>0\<close>; it is a partial function, and the texts of well-formed numbers are proved to exist. Every
  other loop is structural or has a termination proof.

  Parameters. What is not in the repository is an argument: the answers of the server, the clock and the locale
  of the browser, what the browser does with an address (\<open>host\<close>), the callbacks of the scheduler
  (\<open>behaviour\<close>), the function that is memoized or debounced. Where a theorem needs something of them, it
  is a hypothesis with the name of what it says, and the witness gives a concrete one.

  Not modelled. The rest of React (about 27000 lines of reconciler, hooks, events and DOM
  operations), the parts of the router that only a data router reaches, and the drawing code of the
  charts (shapes, scales, animation, state of the chart) are third-party code that the dashboard only
  calls. Of the decimal numbers the powers, roots, exponentials and logarithms are left out, which mix limbs
  with floating-point estimates; numbers are finite and arrays have no holes throughout. The Go code apart from the
  route table, the Terraform files and the build files are not JavaScript. Time that
  passes while a handler runs is an argument where the code reads the clock.
\<close>

end
